(* ===== verification/Prelude.thy ===== *)
theory Prelude
  imports Main "HOL-Library.Word" "HOL-Library.Signed_Division"
begin

text \<open>
  Shared vocabulary of the development: Rust's \<^verbatim>\<open>Result\<close> and \<^verbatim>\<open>Option\<close> combinators as total
  functions, \<^verbatim>\<open>&mut self\<close> operations as functions from a state to a result paired with the state
  left behind, the checked and saturating integer operations the sources use, and the generic
  lemmas on lists that the component theories rely on.

  Integer conventions.  A signed integer (\<^verbatim>\<open>i128\<close>, \<^verbatim>\<open>i64\<close>, \<^verbatim>\<open>i32\<close>) is an \<^typ>\<open>int\<close> and every
  \<^verbatim>\<open>checked_*\<close> call is a function to \<^typ>\<open>int option\<close> that writes the width's bounds out.  An
  unsigned integer on which the code uses checked arithmetic, comparisons or conversions only
  (\<^verbatim>\<open>u8\<close>, \<^verbatim>\<open>u16\<close>, \<^verbatim>\<open>u32\<close>, \<^verbatim>\<open>u128\<close>, \<^verbatim>\<open>usize\<close>, checked \<^verbatim>\<open>u64\<close> counters) is a \<^typ>\<open>nat\<close>.  A
  \<^verbatim>\<open>u64\<close> on which the code uses unchecked or wrapping arithmetic is a \<^typ>\<open>64 word\<close>, which wraps as
  the release profile of \<^verbatim>\<open>src/Cargo.toml\<close> does (it leaves overflow checks off).
\<close>

named_theorems result_iffs \<open>inversion of the Result combinators\<close>
named_theorems checked_defs \<open>definitions of the checked integer operations\<close>

type_synonym i128 = int
type_synonym i64 = int
type_synonym i32 = int
type_synonym u8 = nat
type_synonym u16 = nat
type_synonym u32 = nat
type_synonym u128 = nat
type_synonym usize = nat
type_synonym w64 = "64 word"

section \<open>Results and stateful results\<close>

fun and_then :: "'e + 'a \<Rightarrow> ('a \<Rightarrow> 'e + 'b) \<Rightarrow> 'e + 'b" where
  "and_then (Inl e) f = Inl e"
| "and_then (Inr x) f = f x"

definition ok_or :: "'a option \<Rightarrow> 'e \<Rightarrow> 'e + 'a" where
  "ok_or v e = (case v of None \<Rightarrow> Inl e | Some x \<Rightarrow> Inr x)"

fun map_err :: "('e \<Rightarrow> 'f) \<Rightarrow> 'e + 'a \<Rightarrow> 'f + 'a" where
  "map_err f (Inl e) = Inl (f e)"
| "map_err f (Inr x) = Inr x"

fun map_ok :: "('a \<Rightarrow> 'b) \<Rightarrow> 'e + 'a \<Rightarrow> 'e + 'b" where
  "map_ok f (Inl e) = Inl e"
| "map_ok f (Inr x) = Inr (f x)"

text \<open>\<^verbatim>\<open>Option::transpose\<close> of an optional fallible computation.\<close>

fun transpose_opt :: "('a \<Rightarrow> 'e + 'b) \<Rightarrow> 'a option \<Rightarrow> 'e + 'b option" where
  "transpose_opt f None = Inr None"
| "transpose_opt f (Some x) = map_ok Some (f x)"

primrec try_fold :: "('s \<Rightarrow> 'a \<Rightarrow> 'e + 's) \<Rightarrow> 's \<Rightarrow> 'a list \<Rightarrow> 'e + 's" where
  "try_fold f s [] = Inr s"
| "try_fold f s (x # xs) = and_then (f s x) (\<lambda>s'. try_fold f s' xs)"

text \<open>\<^verbatim>\<open>iter().map(f).collect::<Result<Vec<_>, _>>()\<close>: stops at the first error.\<close>

primrec try_map :: "('a \<Rightarrow> 'e + 'b) \<Rightarrow> 'a list \<Rightarrow> 'e + 'b list" where
  "try_map f [] = Inr []"
| "try_map f (x # xs) = and_then (f x) (\<lambda>y. map_ok ((#) y) (try_map f xs))"

text \<open>
  An operation on \<^verbatim>\<open>&mut self\<close> returns its result and the state it leaves, on errors too.
  \<open>sthen\<close> is Rust's \<^verbatim>\<open>?\<close> followed by the rest of the body.
\<close>

fun sthen :: "('e + 'a) \<times> 's \<Rightarrow> ('a \<Rightarrow> 's \<Rightarrow> ('e + 'b) \<times> 's) \<Rightarrow> ('e + 'b) \<times> 's" where
  "sthen (Inl e, s) k = (Inl e, s)"
| "sthen (Inr x, s) k = k x s"

abbreviation (input) unwrap_or :: "'a option \<Rightarrow> 'a \<Rightarrow> 'a" where
  "unwrap_or v d \<equiv> (case v of None \<Rightarrow> d | Some x \<Rightarrow> x)"

lemma and_then_Inr_iff [result_iffs]:
  "and_then r f = Inr y \<longleftrightarrow> (\<exists>x. r = Inr x \<and> f x = Inr y)"
  by (cases r) auto

lemma and_then_Inl_iff [result_iffs]:
  "and_then r f = Inl e \<longleftrightarrow> r = Inl e \<or> (\<exists>x. r = Inr x \<and> f x = Inl e)"
  by (cases r) auto

lemma and_then_Inr_right [simp]: "and_then r Inr = r"
  by (cases r) simp_all

lemma and_then_cong [fundef_cong]:
  "r = r' \<Longrightarrow> (\<And>x. r' = Inr x \<Longrightarrow> f x = f' x) \<Longrightarrow> and_then r f = and_then r' f'"
  by (cases r') auto

lemma ok_or_simps [simp]:
  "ok_or None e = Inl e" "ok_or (Some x) e = Inr x"
  by (simp_all add: ok_or_def)

lemma ok_or_Inr_iff [result_iffs]: "ok_or v e = Inr x \<longleftrightarrow> v = Some x"
  by (cases v) auto

lemma ok_or_Inl_iff [result_iffs]: "ok_or v e = Inl d \<longleftrightarrow> v = None \<and> d = e"
  by (cases v) auto

lemma map_err_Inr_iff [result_iffs]: "map_err f r = Inr x \<longleftrightarrow> r = Inr x"
  by (cases r) auto

lemma map_err_Inl_iff [result_iffs]: "map_err f r = Inl d \<longleftrightarrow> (\<exists>e. r = Inl e \<and> d = f e)"
  by (cases r) auto

lemma map_ok_Inr_iff [result_iffs]: "map_ok f r = Inr y \<longleftrightarrow> (\<exists>x. r = Inr x \<and> y = f x)"
  by (cases r) auto

lemma map_ok_Inl_iff [result_iffs]: "map_ok f r = Inl e \<longleftrightarrow> r = Inl e"
  by (cases r) auto

lemma transpose_opt_Inr_iff [result_iffs]:
  "transpose_opt f v = Inr w \<longleftrightarrow>
     (v = None \<and> w = None) \<or> (\<exists>x y. v = Some x \<and> f x = Inr y \<and> w = Some y)"
  by (cases v) (auto simp: map_ok_Inr_iff)

lemma sthen_Inr_iff [result_iffs]:
  "sthen p k = (Inr y, t) \<longleftrightarrow> (\<exists>x s. p = (Inr x, s) \<and> k x s = (Inr y, t))"
  by (cases p; cases "fst p") auto

lemma sthen_Inl_iff [result_iffs]:
  "sthen p k = (Inl e, t) \<longleftrightarrow> p = (Inl e, t) \<or> (\<exists>x s. p = (Inr x, s) \<and> k x s = (Inl e, t))"
  by (cases p; cases "fst p") auto

lemma try_fold_append:
  "try_fold f s (xs @ ys) = and_then (try_fold f s xs) (\<lambda>t. try_fold f t ys)"
proof (induction xs arbitrary: s)
  case (Cons x xs)
  then show ?case by (cases "f s x") simp_all
qed simp

text \<open>An invariant of every successful step is an invariant of a successful fold.\<close>

lemma try_fold_invariant:
  assumes "try_fold f s xs = Inr t" and "I s"
    and "\<And>s x t. x \<in> set xs \<Longrightarrow> I s \<Longrightarrow> f s x = Inr t \<Longrightarrow> I t"
  shows "I t"
  using assms
proof (induction xs arbitrary: s)
  case (Cons x xs)
  from Cons.prems(1) obtain u where u: "f s x = Inr u" "try_fold f u xs = Inr t"
    by (auto simp: result_iffs)
  from Cons.prems(2) u(1) have "I u" by (auto intro: Cons.prems(3))
  with u(2) show ?case by (rule Cons.IH) (auto intro: Cons.prems(3))
qed simp

lemma try_map_Inr_iff:
  "try_map f xs = Inr ys \<longleftrightarrow> list_all2 (\<lambda>x y. f x = Inr y) xs ys"
proof (induction xs arbitrary: ys)
  case (Cons x xs)
  then show ?case by (cases ys) (auto simp: result_iffs)
qed auto

lemma try_map_length: "try_map f xs = Inr ys \<Longrightarrow> length ys = length xs"
  by (auto simp: try_map_Inr_iff dest: list_all2_lengthD)

section \<open>Integer ranges and checked operations\<close>

definition in_i128 :: "int \<Rightarrow> bool" where
  "in_i128 x \<longleftrightarrow> - (2 ^ 127) \<le> x \<and> x < 2 ^ 127"

definition in_i64 :: "int \<Rightarrow> bool" where
  "in_i64 x \<longleftrightarrow> - (2 ^ 63) \<le> x \<and> x < 2 ^ 63"

definition in_i32 :: "int \<Rightarrow> bool" where
  "in_i32 x \<longleftrightarrow> - (2 ^ 31) \<le> x \<and> x < 2 ^ 31"

definition checked_i128 :: "int \<Rightarrow> int option" where
  "checked_i128 x = (if in_i128 x then Some x else None)"

definition checked_i64 :: "int \<Rightarrow> int option" where
  "checked_i64 x = (if in_i64 x then Some x else None)"

definition checked_i32 :: "int \<Rightarrow> int option" where
  "checked_i32 x = (if in_i32 x then Some x else None)"

text \<open>\<open>checked_uint w n\<close> is the result of an unsigned \<open>w\<close>-bit operation whose exact value is \<open>n\<close>.\<close>

definition checked_uint :: "nat \<Rightarrow> nat \<Rightarrow> nat option" where
  "checked_uint w n = (if n < 2 ^ w then Some n else None)"

text \<open>The exact value of an \<^verbatim>\<open>i128\<close> as a \<^verbatim>\<open>u128\<close> (\<^verbatim>\<open>u128::try_from\<close>).\<close>

definition u128_try_from :: "int \<Rightarrow> nat option" where
  "u128_try_from x = (if 0 \<le> x then Some (nat x) else None)"

text \<open>Saturating \<^verbatim>\<open>i128\<close> arithmetic: the exact value clamped to the type's range.\<close>

definition saturate_i128 :: "int \<Rightarrow> int" where
  "saturate_i128 x = max (- (2 ^ 127)) (min (2 ^ 127 - 1) x)"

definition saturate_i64 :: "int \<Rightarrow> int" where
  "saturate_i64 x = max (- (2 ^ 63)) (min (2 ^ 63 - 1) x)"

text \<open>\<^verbatim>\<open>div_euclid\<close>: the quotient whose remainder is never negative.\<close>

definition div_euclid :: "int \<Rightarrow> int \<Rightarrow> int" where
  "div_euclid a b = sgn b * (a div \<bar>b\<bar>)"

declare checked_i128_def [checked_defs] checked_i64_def [checked_defs]
  checked_i32_def [checked_defs] checked_uint_def [checked_defs]

lemma checked_i128_Some_iff [result_iffs]: "checked_i128 x = Some y \<longleftrightarrow> in_i128 x \<and> y = x"
  by (auto simp: checked_i128_def)

lemma checked_i128_None_iff [result_iffs]: "checked_i128 x = None \<longleftrightarrow> \<not> in_i128 x"
  by (simp add: checked_i128_def)

lemma checked_i64_Some_iff [result_iffs]: "checked_i64 x = Some y \<longleftrightarrow> in_i64 x \<and> y = x"
  by (auto simp: checked_i64_def)

lemma checked_i32_Some_iff [result_iffs]: "checked_i32 x = Some y \<longleftrightarrow> in_i32 x \<and> y = x"
  by (auto simp: checked_i32_def)

text \<open>Evaluation compares integers, whose numerals are binary.\<close>

lemma checked_uint_code [code]: "checked_uint w n = (if int n < 2 ^ w then Some n else None)"
  by (simp add: checked_uint_def)

lemma checked_uint_Some_iff [result_iffs]: "checked_uint w n = Some m \<longleftrightarrow> n < 2 ^ w \<and> m = n"
  by (auto simp: checked_uint_def)

lemma u128_try_from_Some_iff [result_iffs]: "u128_try_from x = Some n \<longleftrightarrow> 0 \<le> x \<and> n = nat x"
  by (auto simp: u128_try_from_def)

lemma in_i128_zero [simp]: "in_i128 0"
  by (simp add: in_i128_def)

lemma in_i128_between: "in_i128 a \<Longrightarrow> in_i128 b \<Longrightarrow> a \<le> x \<Longrightarrow> x \<le> b \<Longrightarrow> in_i128 x"
  by (simp add: in_i128_def)

lemma div_euclid_pos: "0 < b \<Longrightarrow> div_euclid a b = a div b"
  by (simp add: div_euclid_def)

section \<open>Lists\<close>

text \<open>\<^verbatim>\<open>iter().position(p)\<close>.\<close>

primrec position :: "('a \<Rightarrow> bool) \<Rightarrow> 'a list \<Rightarrow> nat option" where
  "position p [] = None"
| "position p (x # xs) = (if p x then Some 0 else map_option Suc (position p xs))"

lemma position_None_iff: "position p xs = None \<longleftrightarrow> (\<forall>x \<in> set xs. \<not> p x)"
  by (induction xs) auto

lemma position_Some_iff:
  "position p xs = Some i \<longleftrightarrow>
     i < length xs \<and> p (xs ! i) \<and> (\<forall>x \<in> set (take i xs). \<not> p x)"
proof (induction xs arbitrary: i)
  case (Cons x xs)
  show ?case
  proof (cases i)
    case (Suc j)
    with Cons.IH [of j] show ?thesis by auto
  qed auto
qed simp

lemma position_less: "position p xs = Some i \<Longrightarrow> i < length xs"
  by (simp add: position_Some_iff)

lemma position_append_here:
  "(\<forall>x \<in> set xs. \<not> p x) \<Longrightarrow> p y \<Longrightarrow> position p (xs @ y # ys) = Some (length xs)"
  by (induction xs) auto

lemma position_split:
  "position p xs = Some i \<Longrightarrow> xs = take i xs @ (xs ! i) # drop (Suc i) xs"
  by (simp add: id_take_nth_drop position_less)

lemma sum_list_map_nonneg:
  "(\<And>x. x \<in> set xs \<Longrightarrow> (0::int) \<le> f x) \<Longrightarrow> 0 \<le> sum_list (map f xs)"
  by (induction xs) auto

text \<open>Keeping the last \<open>n\<close> elements one append at a time.\<close>

lemma drop_last_snoc:
  "drop (length (drop (length h - n) h @ [x]) - n) (drop (length h - n) h @ [x]) = drop (length (h @ [x]) - n) (h @ [x])"
proof (cases "length h \<le> n")
  case False
  define k where "k = length h - n"
  define t where "t = drop k (h @ [x])"
  have "drop k h @ [x] = t" "length t = Suc n" "length (h @ [x]) - n = 1 + k" using False by (simp_all add: k_def t_def)
  then have "drop (length (drop k h @ [x]) - n) (drop k h @ [x]) = drop 1 t" by simp
  then show ?thesis unfolding \<open>length (h @ [x]) - n = 1 + k\<close> by (simp only: t_def k_def drop_drop)
qed simp

lemma list_all2_right: "list_all2 p xs ys \<Longrightarrow> y \<in> set ys \<Longrightarrow> \<exists>x \<in> set xs. p x y"
  by (induction rule: list_all2_induct) auto

section \<open>Printing\<close>

text \<open>Decimal digits, as \<^verbatim>\<open>format!\<close> prints a number.\<close>

fun show_nat :: "nat \<Rightarrow> string" where
  "show_nat n = (if n < 10 then [char_of (48 + n)] else show_nat (n div 10) @ [char_of (48 + n mod 10)])"

declare show_nat.simps [simp del]

end
