(* ===== verification/Ordered_Map.thy ===== *)
theory Ordered_Map
  imports Prelude
begin

text \<open>
  Rust's \<^verbatim>\<open>BTreeMap\<close> as the list of its entries in ascending key order, which is what its iterator
  yields and what \<^verbatim>\<open>==\<close> on two maps compares.  The first part gives the operations the sources call
  (\<^verbatim>\<open>insert\<close>, \<^verbatim>\<open>remove\<close>, \<^verbatim>\<open>get\<close>, \<^verbatim>\<open>iter().next()\<close>, \<^verbatim>\<open>iter().next_back()\<close>) and the laws of the
  structure.  The second part states two interfaces as locales: \<open>ordered_map\<close>, the finite map a client
  sees, and \<open>keyed_store\<close>, a state with one optional value per key, for which journalled mutation and
  roll-back are proved once.
\<close>

section \<open>Entries in key order\<close>

definition bt_ok :: "('k::linorder \<times> 'v) list \<Rightarrow> bool" where
  "bt_ok m \<longleftrightarrow> sorted_wrt (<) (map fst m)"

definition bt_insert :: "'k::linorder \<Rightarrow> 'v \<Rightarrow> ('k \<times> 'v) list \<Rightarrow> ('k \<times> 'v) list" where
  "bt_insert k v m = filter (\<lambda>p. fst p < k) m @ (k, v) # filter (\<lambda>p. k < fst p) m"

definition bt_remove :: "'k::linorder \<Rightarrow> ('k \<times> 'v) list \<Rightarrow> ('k \<times> 'v) list" where
  "bt_remove k m = filter (\<lambda>p. fst p \<noteq> k) m"

definition bt_get :: "('k \<times> 'v) list \<Rightarrow> 'k \<Rightarrow> 'v option" where
  "bt_get m = map_of m"

definition bt_first :: "('k \<times> 'v) list \<Rightarrow> ('k \<times> 'v) option" where
  "bt_first m = (case m of [] \<Rightarrow> None | p # _ \<Rightarrow> Some p)"

definition bt_last :: "('k \<times> 'v) list \<Rightarrow> ('k \<times> 'v) option" where
  "bt_last m = (if m = [] then None else Some (last m))"

text \<open>Storing an optional value: \<^verbatim>\<open>insert\<close> for \<open>Some\<close>, \<^verbatim>\<open>remove\<close> for \<open>None\<close>.\<close>

definition bt_put :: "'k::linorder \<Rightarrow> 'v option \<Rightarrow> ('k \<times> 'v) list \<Rightarrow> ('k \<times> 'v) list" where
  "bt_put k v m = (case v of None \<Rightarrow> bt_remove k m | Some x \<Rightarrow> bt_insert k x m)"

lemma bt_ok_Nil [simp]: "bt_ok []"
  by (simp add: bt_ok_def)

lemma bt_ok_Cons: "bt_ok (p # m) \<longleftrightarrow> (\<forall>q \<in> set m. fst p < fst q) \<and> bt_ok m"
  by (auto simp: bt_ok_def)

lemma bt_ok_append:
  "bt_ok (m @ n) \<longleftrightarrow> bt_ok m \<and> bt_ok n \<and> (\<forall>p \<in> set m. \<forall>q \<in> set n. fst p < fst q)"
  by (auto simp: bt_ok_def sorted_wrt_append)

lemma bt_ok_distinct: "bt_ok m \<Longrightarrow> distinct (map fst m)"
  by (simp add: bt_ok_def strict_sorted_iff)

lemma bt_ok_filter: "bt_ok m \<Longrightarrow> bt_ok (filter P m)"
  by (induction m) (auto simp: bt_ok_Cons)

lemma bt_ok_take: "bt_ok m \<Longrightarrow> bt_ok (take n m)"
  by (simp add: bt_ok_def take_map [symmetric] sorted_wrt_take)

lemma bt_ok_drop: "bt_ok m \<Longrightarrow> bt_ok (drop n m)"
  by (simp add: bt_ok_def drop_map [symmetric] sorted_wrt_drop)

lemma bt_ok_insert: "bt_ok m \<Longrightarrow> bt_ok (bt_insert k v m)"
  by (fastforce simp: bt_insert_def bt_ok_append bt_ok_Cons bt_ok_filter)

lemma bt_ok_remove: "bt_ok m \<Longrightarrow> bt_ok (bt_remove k m)"
  by (simp add: bt_remove_def bt_ok_filter)

lemma bt_ok_put: "bt_ok m \<Longrightarrow> bt_ok (bt_put k v m)"
  by (simp add: bt_put_def bt_ok_insert bt_ok_remove split: option.split)

lemma map_of_filter_fst:
  "map_of (filter (\<lambda>p. P (fst p)) m) k = (if P k then map_of m k else None)"
  by (induction m) auto

lemma bt_get_insert: "bt_get (bt_insert k v m) = (bt_get m)(k \<mapsto> v)"
proof
  fix j
  show "bt_get (bt_insert k v m) j = ((bt_get m)(k \<mapsto> v)) j"
    by (cases "map_of m j")
      (auto simp: bt_get_def bt_insert_def map_add_def map_of_filter_fst [of "\<lambda>x. x < k"]
        map_of_filter_fst [of "\<lambda>x. k < x"] split: option.split)
qed

lemma bt_get_remove: "bt_get (bt_remove k m) = (bt_get m)(k := None)"
  by (rule ext)
    (simp add: bt_get_def bt_remove_def map_of_filter_fst [of "\<lambda>x. x \<noteq> k"])

lemma bt_get_put: "bt_get (bt_put k v m) = (bt_get m)(k := v)"
  by (simp add: bt_put_def bt_get_insert bt_get_remove split: option.split)

lemma bt_get_Nil [simp]: "bt_get [] k = None"
  by (simp add: bt_get_def)

lemma bt_get_Some_iff: "bt_ok m \<Longrightarrow> bt_get m k = Some v \<longleftrightarrow> (k, v) \<in> set m"
  by (simp add: bt_get_def bt_ok_distinct)

lemma bt_get_None_iff: "bt_get m k = None \<longleftrightarrow> k \<notin> fst ` set m"
  by (simp add: bt_get_def map_of_eq_None_iff)

lemma set_bt_insert: "bt_ok m \<Longrightarrow> set (bt_insert k v m) = insert (k, v) {p \<in> set m. fst p \<noteq> k}"
  by (auto simp: bt_insert_def)

lemma set_bt_remove: "set (bt_remove k m) = {p \<in> set m. fst p \<noteq> k}"
  by (auto simp: bt_remove_def)

lemma length_bt_remove_le: "length (bt_remove k m) \<le> length m"
  by (simp add: bt_remove_def)

lemma length_bt_remove_less: "(k, v) \<in> set m \<Longrightarrow> length (bt_remove k m) < length m"
  unfolding bt_remove_def by (rule length_filter_less [of "(k, v)"]) simp_all

lemma bt_insert_not_Nil [simp]: "bt_insert k v m \<noteq> []"
  by (simp add: bt_insert_def)

lemma length_bt_insert_le: "length (bt_insert k v m) \<le> Suc (length m)"
proof -
  have "length (filter (\<lambda>p. fst p < k) m) + length (filter (\<lambda>p. k < fst p) m) \<le> length m"
    by (induction m) auto
  then show ?thesis by (simp add: bt_insert_def)
qed

text \<open>Two maps that answer every lookup alike are the same list of entries.\<close>

lemma length_bt_insert:
  assumes "bt_ok m"
  shows "length (bt_insert k v m) = (if bt_get m k = None then Suc (length m) else length m)"
proof -
  have len: "length n = card (fst ` set n)" if "bt_ok n" for n :: "('a \<times> 'b) list"
    using distinct_card [OF bt_ok_distinct [OF that]] by simp
  have "fst ` set (bt_insert k v m) = insert k (fst ` set m)"
    using assms by (force simp: set_bt_insert)
  then show ?thesis
    using len [OF assms] len [OF bt_ok_insert [OF assms]] by (auto simp: bt_get_None_iff card_insert_if)
qed

lemma bt_entries: "bt_ok m \<Longrightarrow> map (\<lambda>k. (k, the (bt_get m k))) (map fst m) = m"
  unfolding map_map by (rule map_idI) (auto simp: bt_get_def bt_ok_distinct)

lemma bt_ext:
  assumes "bt_ok m" and "bt_ok n" and "bt_get m = bt_get n"
  shows "m = n"
proof -
  have "k \<in> fst ` set m \<longleftrightarrow> k \<in> fst ` set n" for k
    using bt_get_None_iff [of m k] bt_get_None_iff [of n k] assms(3) by simp
  then have "fst ` set m = fst ` set n" by blast
  then have keys: "map fst m = map fst n"
    using assms(1,2) by (simp add: bt_ok_def strict_sorted_equal)
  have "m = map (\<lambda>k. (k, the (bt_get m k))) (map fst m)"
    by (simp only: bt_entries [OF assms(1)])
  also have "\<dots> = map (\<lambda>k. (k, the (bt_get n k))) (map fst n)"
    by (simp only: keys assms(3))
  also have "\<dots> = n" by (rule bt_entries [OF assms(2)])
  finally show ?thesis .
qed

text \<open>The iterator's two ends are the least and the greatest key.\<close>

lemma bt_first_Some_iff: "bt_first m = Some p \<longleftrightarrow> (\<exists>m'. m = p # m')"
  by (auto simp: bt_first_def split: list.split)

lemma bt_first_None_iff: "bt_first m = None \<longleftrightarrow> m = []"
  by (simp add: bt_first_def split: list.split)

lemma bt_last_Some_iff: "bt_last m = Some p \<longleftrightarrow> (\<exists>m'. m = m' @ [p])"
  by (cases m rule: rev_cases) (auto simp: bt_last_def)

lemma bt_last_None_iff: "bt_last m = None \<longleftrightarrow> m = []"
  by (simp add: bt_last_def)

lemma bt_first_least: "bt_ok m \<Longrightarrow> bt_first m = Some p \<Longrightarrow> q \<in> set m \<Longrightarrow> fst p \<le> fst q"
  by (auto simp: bt_first_Some_iff bt_ok_Cons less_imp_le)

lemma bt_last_greatest: "bt_ok m \<Longrightarrow> bt_last m = Some p \<Longrightarrow> q \<in> set m \<Longrightarrow> fst q \<le> fst p"
  by (auto simp: bt_last_Some_iff bt_ok_append less_imp_le)

lemma bt_first_in: "bt_first m = Some p \<Longrightarrow> p \<in> set m"
  by (auto simp: bt_first_Some_iff)

lemma bt_last_in: "bt_last m = Some p \<Longrightarrow> p \<in> set m"
  by (auto simp: bt_last_Some_iff)

section \<open>The finite-map interface\<close>

locale ordered_map =
  fixes empty_map :: "'m"
    and insert_key :: "'k \<Rightarrow> 'v \<Rightarrow> 'm \<Rightarrow> 'm"
    and remove_key :: "'k \<Rightarrow> 'm \<Rightarrow> 'm"
    and get_key :: "'m \<Rightarrow> 'k \<Rightarrow> 'v option"
    and ok :: "'m \<Rightarrow> bool"
  assumes ok_empty: "ok empty_map"
    and ok_insert: "ok m \<Longrightarrow> ok (insert_key k v m)"
    and ok_remove: "ok m \<Longrightarrow> ok (remove_key k m)"
    and get_empty: "get_key empty_map k = None"
    and get_insert: "ok m \<Longrightarrow> get_key (insert_key k v m) = (get_key m)(k \<mapsto> v)"
    and get_remove: "ok m \<Longrightarrow> get_key (remove_key k m) = (get_key m)(k := None)"
    and map_ext: "ok m \<Longrightarrow> ok n \<Longrightarrow> get_key m = get_key n \<Longrightarrow> m = n"
begin

lemma insert_insert: "ok m \<Longrightarrow> insert_key k v (insert_key k w m) = insert_key k v m"
  by (rule map_ext) (simp_all add: ok_insert get_insert)

lemma remove_insert: "ok m \<Longrightarrow> get_key m k = None \<Longrightarrow> remove_key k (insert_key k v m) = m"
  by (rule map_ext) (auto simp: ok_insert ok_remove get_insert get_remove)

lemma insert_same: "ok m \<Longrightarrow> get_key m k = Some v \<Longrightarrow> insert_key k v m = m"
  by (rule map_ext) (auto simp: ok_insert get_insert)

lemma remove_absent: "ok m \<Longrightarrow> get_key m k = None \<Longrightarrow> remove_key k m = m"
  by (rule map_ext) (auto simp: ok_remove get_remove)

end

interpretation bt: ordered_map "[]" bt_insert bt_remove bt_get bt_ok
  by unfold_locales
    (simp_all add: bt_ok_insert bt_ok_remove bt_get_insert bt_get_remove bt_ext)

section \<open>Journalled mutation of a keyed store\<close>

text \<open>
  One step of a mutation loop that remembers, for every key it touches for the first time, the value
  the key had: the state, the undo log in order and the set of keys already recorded.
\<close>

definition journal_step ::
    "('s \<Rightarrow> 'k \<Rightarrow> 'v option) \<Rightarrow> ('k \<Rightarrow> 'v option \<Rightarrow> 's \<Rightarrow> 's) \<Rightarrow> 'k \<times> 'v option \<Rightarrow>
     's \<times> ('k \<times> 'v option) list \<times> 'k set \<Rightarrow> 's \<times> ('k \<times> 'v option) list \<times> 'k set" where
  "journal_step get put kv st =
     (case (kv, st) of ((k, v), (s, undo, recorded)) \<Rightarrow>
        (put k v s,
         if k \<in> recorded then undo else undo @ [(k, get s k)],
         insert k recorded))"

lemma journal_step_simp [simp]:
  "journal_step get put (k, v) (s, undo, recorded) =
     (put k v s, if k \<in> recorded then undo else undo @ [(k, get s k)], insert k recorded)"
  by (simp add: journal_step_def)

definition put_all :: "('k \<Rightarrow> 'v option \<Rightarrow> 's \<Rightarrow> 's) \<Rightarrow> ('k \<times> 'v option) list \<Rightarrow> 's \<Rightarrow> 's" where
  "put_all put kvs s = fold (\<lambda>(k, v). put k v) kvs s"

lemma put_all_simps [simp]:
  "put_all put [] s = s"
  "put_all put ((k, v) # kvs) s = put_all put kvs (put k v s)"
  "put_all put (kvs @ lws) s = put_all put lws (put_all put kvs s)"
  by (simp_all add: put_all_def)

locale keyed_store =
  fixes get :: "'s \<Rightarrow> 'k \<Rightarrow> 'v option"
    and put :: "'k \<Rightarrow> 'v option \<Rightarrow> 's \<Rightarrow> 's"
    and sound :: "'s \<Rightarrow> bool"
    and same_frame :: "'s \<Rightarrow> 's \<Rightarrow> bool"
  assumes sound_put: "sound s \<Longrightarrow> sound (put k v s)"
    and get_put: "sound s \<Longrightarrow> get (put k v s) = (get s)(k := v)"
    and frame_refl: "same_frame s s"
    and frame_put: "same_frame s t \<Longrightarrow> same_frame s (put k v t)"
    and store_ext: "sound s \<Longrightarrow> sound t \<Longrightarrow> same_frame s t \<Longrightarrow> get s = get t \<Longrightarrow> s = t"
begin

lemma sound_put_all: "sound s \<Longrightarrow> sound (put_all put kvs s)"
  by (induction kvs arbitrary: s) (auto simp: sound_put)

lemma frame_put_all: "same_frame r s \<Longrightarrow> same_frame r (put_all put kvs s)"
  by (induction kvs arbitrary: s) (auto simp: frame_put)

lemma get_put_all_other:
  "sound s \<Longrightarrow> k \<notin> fst ` set kvs \<Longrightarrow> get (put_all put kvs s) k = get s k"
  by (induction kvs arbitrary: s) (auto simp: sound_put get_put)

lemma get_put_all_distinct:
  "sound s \<Longrightarrow> distinct (map fst kvs) \<Longrightarrow> (k, v) \<in> set kvs \<Longrightarrow> get (put_all put kvs s) k = v"
proof (induction kvs arbitrary: s)
  case (Cons kv kvs)
  obtain j w where kv: "kv = (j, w)" by (cases kv)
  show ?case
  proof (cases "k = j")
    case True
    with Cons.prems kv have "v = w" "k \<notin> fst ` set kvs" by force+
    with True kv Cons.prems(1) show ?thesis
      by (simp add: get_put_all_other sound_put get_put)
  next
    case False
    with Cons.prems kv show ?thesis by (auto intro!: Cons.IH simp: sound_put)
  qed
qed simp

text \<open>After a batch every key holds what the last pair for it says.\<close>

lemma get_put_all:
  "sound s \<Longrightarrow> get (put_all put kvs s) = fold (\<lambda>(k, v) m. m(k := v)) kvs (get s)"
  by (induction kvs arbitrary: s) (auto simp: sound_put get_put)

text \<open>The batch a loop stores is the one that plain storing gives: journalling is transparent.\<close>

lemma journal_state:
  "fst (fold (journal_step get put) kvs (s, log, seen)) = put_all put kvs s"
  by (induction kvs arbitrary: s log seen) auto

text \<open>
  What the loop keeps true: the log has one entry per recorded key, holding the value the key had at
  the start, and the other keys still have that value.
\<close>

lemma journal_invariant:
  assumes "fold (journal_step get put) kvs (s, log, seen) = (t, log', seen')"
    and "sound s" and "seen = fst ` set log" and "distinct (map fst log)"
    and "\<And>k v. (k, v) \<in> set log \<Longrightarrow> v = get s0 k"
    and "\<And>k. k \<notin> seen \<Longrightarrow> get s k = get s0 k"
  shows "seen' = fst ` set log' \<and> distinct (map fst log') \<and>
    (\<forall>(k, v) \<in> set log'. v = get s0 k) \<and> (\<forall>k. k \<notin> seen' \<longrightarrow> get t k = get s0 k)"
  using assms
proof (induction kvs arbitrary: s log seen)
  case Nil
  then show ?case by auto
next
  case (Cons kv kvs)
  obtain k v where kv: "kv = (k, v)" by (cases kv)
  let ?log = "if k \<in> seen then log else log @ [(k, get s k)]"
  have run: "fold (journal_step get put) kvs (put k v s, ?log, insert k seen) = (t, log', seen')"
    using Cons.prems(1) by (simp add: kv)
  have snd_put: "sound (put k v s)" using Cons.prems(2) by (rule sound_put)
  have dom: "insert k seen = fst ` set ?log"
    using Cons.prems(3) by auto
  have dist: "distinct (map fst ?log)"
    using Cons.prems(3,4) by auto
  have vals: "\<And>j w. (j, w) \<in> set ?log \<Longrightarrow> w = get s0 j"
    using Cons.prems(5,6) by (auto split: if_splits)
  have rest: "\<And>j. j \<notin> insert k seen \<Longrightarrow> get (put k v s) j = get s0 j"
    using Cons.prems(2,6) by (simp add: get_put)
  from run snd_put dom dist vals rest show ?case by (rule Cons.IH)
qed

text \<open>Storing the undo log after any batch gives back the state the loop started from.\<close>

lemma rollback:
  assumes "sound s" and run: "fold (journal_step get put) kvs (s, [], {}) = (t, log, seen)"
  shows "put_all put log t = s"
proof (rule sym, rule store_ext)
  have t: "t = put_all put kvs s"
    using journal_state [of kvs s "[]" "{}"] run by simp
  then have sound_t: "sound t" using assms(1) by (simp add: sound_put_all)
  then show "sound (put_all put log t)" by (rule sound_put_all)
  show "sound s" by (rule assms(1))
  show "same_frame s (put_all put log t)"
    unfolding t by (intro frame_put_all frame_refl)
  have inv: "seen = fst ` set log \<and> distinct (map fst log) \<and>
      (\<forall>(k, v) \<in> set log. v = get s k) \<and> (\<forall>k. k \<notin> seen \<longrightarrow> get t k = get s k)"
    by (rule journal_invariant [OF run assms(1)]) auto
  show "get s = get (put_all put log t)"
  proof
    fix k
    show "get s k = get (put_all put log t) k"
    proof (cases "k \<in> fst ` set log")
      case True
      then obtain v where v: "(k, v) \<in> set log" by force
      with inv have "get (put_all put log t) k = v"
        by (intro get_put_all_distinct sound_t) auto
      with inv v show ?thesis by auto
    next
      case False
      with inv sound_t show ?thesis by (simp add: get_put_all_other)
    qed
  qed
qed

end

end
