(* ===== verification/Fixed.thy ===== *)
theory Fixed
  imports Complex_Main Prelude
begin

text \<open>
  Exact decimals (\<^verbatim>\<open>crates/model/src/fixed.rs\<close>): the type \<^verbatim>\<open>Fixed\<close>, its newtypes, the parsers
  \<^verbatim>\<open>parse_decimal\<close> and \<^verbatim>\<open>parse_str\<close> on bytes (\<^typ>\<open>char\<close> is a byte) and \<^verbatim>\<open>rescale\<close> with its six
  rounding modes.  The abstract specification is the rational a \<^verbatim>\<open>Fixed\<close> denotes: \<open>fixed_value\<close>.
  \<^verbatim>\<open>to_f64_lossy\<close> is left out, since it is floating point and never stored.
\<close>

section \<open>The type and its operations\<close>

record fixed =
  coefficient :: i128
  scale :: u8

datatype price = Price (price_fixed: fixed)
datatype quantity = Quantity (quantity_fixed: fixed)
datatype rate = Rate (rate_fixed: fixed)

datatype rounding_mode = ExactOnly | TowardZero | AwayFromZero | TowardNegInfinity
  | TowardPosInfinity | HalfAwayFromZero

datatype fixed_error = Empty | InvalidSyntax | Overflow | InexactRescale | ScaleOverflow

definition fixed_new :: "i128 \<Rightarrow> u8 \<Rightarrow> fixed" where
  "fixed_new c s = \<lparr>coefficient = c, scale = s\<rparr>"

definition fixed_zero :: fixed where
  "fixed_zero = \<lparr>coefficient = 0, scale = 0\<rparr>"

definition is_ascii_digit :: "char \<Rightarrow> bool" where
  "is_ascii_digit c \<longleftrightarrow> 48 \<le> (of_char c :: nat) \<and> (of_char c :: nat) \<le> 57"

definition digit_value :: "char \<Rightarrow> nat" where
  "digit_value c = of_char c - 48"

definition trim_leading_zeros :: "char list \<Rightarrow> char list" where
  "trim_leading_zeros digits =
     (let first_nonzero = (case position (\<lambda>b. b \<noteq> CHR ''0'') digits of
                             None \<Rightarrow> length digits | Some i \<Rightarrow> i)
      in if first_nonzero = length digits then drop (length digits - 1) digits
         else drop first_nonzero digits)"

definition pow10_i128 :: "u32 \<Rightarrow> fixed_error + i128" where
  "pow10_i128 e = ok_or (checked_i128 (10 ^ e)) Overflow"

text \<open>The accumulation loop of \<^verbatim>\<open>parse_decimal\<close>, and the one of \<^verbatim>\<open>parse_str\<close> for the exponent.\<close>

definition push_digit :: "i128 \<Rightarrow> char \<Rightarrow> fixed_error + i128" where
  "push_digit c d =
     and_then (ok_or (checked_i128 (c * 10)) Overflow)
       (\<lambda>c'. ok_or (checked_i128 (c' + int (digit_value d))) Overflow)"

definition push_exponent_digit :: "u32 \<Rightarrow> char \<Rightarrow> fixed_error + u32" where
  "push_exponent_digit e d =
     and_then (ok_or (checked_uint 32 (e * 10)) Overflow)
       (\<lambda>e'. ok_or (checked_uint 32 (e' + digit_value d)) Overflow)"

definition parse_decimal :: "char list \<Rightarrow> fixed_error + fixed" where
  "parse_decimal bytes =
     (if bytes = [] then Inl Empty
      else
        let (neg, rest) = (if hd bytes = CHR ''-'' then (True, tl bytes)
                           else if hd bytes = CHR ''+'' then (False, tl bytes)
                           else (False, bytes))
        in if rest = [] then Inl InvalidSyntax
        else
          let dot = position (\<lambda>b. b = CHR ''.'') rest;
              int_digits = (case dot of None \<Rightarrow> rest | Some i \<Rightarrow> take i rest);
              frac_digits = (case dot of None \<Rightarrow> [] | Some i \<Rightarrow> drop (i + 1) rest)
          in if dot \<noteq> None \<and> int_digits = [] \<and> frac_digits = [] then Inl InvalidSyntax
          else if dot \<noteq> None \<and> CHR ''.'' \<in> set frac_digits then Inl InvalidSyntax
          else
            let int_digits = (if int_digits = [] then ''0'' else int_digits)
            in if \<not> list_all is_ascii_digit int_digits \<or> \<not> list_all is_ascii_digit frac_digits
               then Inl InvalidSyntax
            else
              let int_digits = trim_leading_zeros int_digits
              in and_then (ok_or (checked_uint 8 (length frac_digits)) ScaleOverflow) (\<lambda>scl.
                 and_then (try_fold push_digit 0 (int_digits @ frac_digits)) (\<lambda>coeff.
                 and_then (if neg then ok_or (checked_i128 (- coeff)) Overflow else Inr coeff)
                   (\<lambda>coeff. Inr \<lparr>coefficient = coeff, scale = scl\<rparr>))))"

definition is_exponent_mark :: "char \<Rightarrow> bool" where
  "is_exponent_mark b \<longleftrightarrow> b = CHR ''e'' \<or> b = CHR ''E''"

definition parse_str :: "char list \<Rightarrow> fixed_error + fixed" where
  "parse_str s =
     (case position is_exponent_mark s of
        None \<Rightarrow> parse_decimal s
      | Some exponent_at \<Rightarrow>
        if list_ex is_exponent_mark (drop (exponent_at + 1) s) then Inl InvalidSyntax
        else and_then (parse_decimal (take exponent_at s)) (\<lambda>mantissa.
          let exponent_bytes = drop (exponent_at + 1) s in
          if exponent_bytes = [] then Inl InvalidSyntax
          else
            let (negative_exponent, digits) =
                  (if hd exponent_bytes = CHR ''-'' then (True, tl exponent_bytes)
                   else if hd exponent_bytes = CHR ''+'' then (False, tl exponent_bytes)
                   else (False, exponent_bytes))
            in if digits = [] \<or> \<not> list_all is_ascii_digit digits then Inl InvalidSyntax
            else and_then (try_fold push_exponent_digit 0 digits) (\<lambda>exponent.
              if coefficient mantissa = 0 then Inr fixed_zero
              else if negative_exponent then
                and_then (ok_or (checked_uint 8 exponent) ScaleOverflow) (\<lambda>exponent.
                and_then (ok_or (checked_uint 8 (scale mantissa + exponent)) ScaleOverflow)
                  (\<lambda>scl. Inr \<lparr>coefficient = coefficient mantissa, scale = scl\<rparr>))
              else if exponent \<le> scale mantissa then
                Inr \<lparr>coefficient = coefficient mantissa, scale = scale mantissa - exponent\<rparr>
              else
                and_then (pow10_i128 (exponent - scale mantissa)) (\<lambda>factor.
                and_then (ok_or (checked_i128 (coefficient mantissa * factor)) Overflow)
                  (\<lambda>c. Inr \<lparr>coefficient = c, scale = 0\<rparr>)))))"

text \<open>The rounding of a quotient \<open>q\<close> with a non-zero remainder \<open>r\<close>, one branch per mode.\<close>

definition checked_away :: "i128 \<Rightarrow> i128 \<Rightarrow> fixed_error + i128" where
  "checked_away c q =
     (if c > 0 then ok_or (checked_i128 (q + 1)) Overflow
      else ok_or (checked_i128 (q - 1)) Overflow)"

fun round_quotient :: "rounding_mode \<Rightarrow> i128 \<Rightarrow> i128 \<Rightarrow> i128 \<Rightarrow> i128 \<Rightarrow> fixed_error + i128" where
  "round_quotient ExactOnly c d q r = Inl InexactRescale"
| "round_quotient TowardZero c d q r = Inr q"
| "round_quotient AwayFromZero c d q r = checked_away c q"
| "round_quotient TowardNegInfinity c d q r =
     (if c < 0 then ok_or (checked_i128 (q - 1)) Overflow else Inr q)"
| "round_quotient TowardPosInfinity c d q r =
     (if c > 0 then ok_or (checked_i128 (q + 1)) Overflow else Inr q)"
| "round_quotient HalfAwayFromZero c d q r =
     (let half = d sdiv 2; abs_r = \<bar>r\<bar> in
      if abs_r * 2 < \<bar>d\<bar> then Inr q
      else if abs_r > \<bar>half\<bar> \<or> abs_r * 2 = \<bar>d\<bar> then checked_away c q
      else Inr q)"

definition rescale :: "fixed \<Rightarrow> u8 \<Rightarrow> rounding_mode \<Rightarrow> fixed_error + fixed" where
  "rescale f new_scale mode =
     (if new_scale = scale f then Inr f
      else if new_scale > scale f then
        and_then (pow10_i128 (new_scale - scale f)) (\<lambda>factor.
        and_then (ok_or (checked_i128 (coefficient f * factor)) Overflow)
          (\<lambda>c. Inr \<lparr>coefficient = c, scale = new_scale\<rparr>))
      else
        and_then (pow10_i128 (scale f - new_scale)) (\<lambda>divisor.
          let q = coefficient f sdiv divisor; r = coefficient f smod divisor in
          if r = 0 then Inr \<lparr>coefficient = q, scale = new_scale\<rparr>
          else and_then (round_quotient mode (coefficient f) divisor q r)
            (\<lambda>c. Inr \<lparr>coefficient = c, scale = new_scale\<rparr>)))"

section \<open>The rational a decimal denotes\<close>

definition fixed_ok :: "fixed \<Rightarrow> bool" where
  "fixed_ok f \<longleftrightarrow> in_i128 (coefficient f) \<and> scale f < 256"

definition fixed_value :: "fixed \<Rightarrow> rat" where
  "fixed_value f = of_int (coefficient f) / 10 ^ scale f"

text \<open>Where each mode sends a rational; \<open>ExactOnly\<close> accepts integers only.\<close>

fun round_spec :: "rounding_mode \<Rightarrow> rat \<Rightarrow> int option" where
  "round_spec ExactOnly x = (if x \<in> \<int> then Some \<lfloor>x\<rfloor> else None)"
| "round_spec TowardZero x = Some (if x < 0 then \<lceil>x\<rceil> else \<lfloor>x\<rfloor>)"
| "round_spec AwayFromZero x = Some (if x < 0 then \<lfloor>x\<rfloor> else \<lceil>x\<rceil>)"
| "round_spec TowardNegInfinity x = Some \<lfloor>x\<rfloor>"
| "round_spec TowardPosInfinity x = Some \<lceil>x\<rceil>"
| "round_spec HalfAwayFromZero x =
     Some (if x < 0 then - \<lfloor>1 / 2 - x\<rfloor> else \<lfloor>x + 1 / 2\<rfloor>)"

definition round_result :: "rounding_mode \<Rightarrow> rat \<Rightarrow> fixed_error + int" where
  "round_result mode x =
     (case round_spec mode x of None \<Rightarrow> Inl InexactRescale
      | Some v \<Rightarrow> if in_i128 v then Inr v else Inl Overflow)"

lemma pow10_i128_eq: "pow10_i128 e = (if e \<le> 38 then Inr (10 ^ e) else Inl Overflow)"
proof (cases "e \<le> 38")
  case True
  then have "(10::int) ^ e \<le> 10 ^ 38" by (intro power_increasing) auto
  then have "(10::int) ^ e < 2 ^ 127" by (rule order_le_less_trans) simp
  moreover have "- (2 ^ 127) \<le> (10::int) ^ e"
    by (rule order_trans [of _ 0]) simp_all
  ultimately show ?thesis using True by (simp add: pow10_i128_def checked_i128_def in_i128_def)
next
  case False
  then have "(10::int) ^ 39 \<le> 10 ^ e" by (intro power_increasing) auto
  moreover have "(2::int) ^ 127 \<le> 10 ^ 39" by simp
  ultimately have "\<not> in_i128 (10 ^ e)" by (simp add: in_i128_def)
  with False show ?thesis by (simp add: pow10_i128_def checked_i128_def)
qed

lemma floor_of_int_div: "\<lfloor>(of_int c / of_int d :: rat)\<rfloor> = c div d"
  by (rule floor_divide_of_int_eq)

lemma ceiling_of_int_div: "\<lceil>(of_int c / of_int d :: rat)\<rceil> = - (- c div d)"
  by (rule ceiling_divide_eq_div)

lemma floor_half_up:
  assumes "0 < d"
  shows "\<lfloor>(of_int c / of_int d + 1 / 2 :: rat)\<rfloor> = c div d + (if d \<le> 2 * (c mod d) then 1 else 0)"
proof -
  have "(of_int c / of_int d + 1 / 2 :: rat) = of_int (2 * c + d) / of_int (2 * d)"
    using assms by (simp add: field_simps)
  then have "\<lfloor>(of_int c / of_int d + 1 / 2 :: rat)\<rfloor> = (2 * c + d) div (2 * d)"
    by (simp only: floor_of_int_div)
  also have "2 * c + d = (2 * (c mod d) + d) + 2 * ((c div d) * d)"
    by (simp only: minus_mod_eq_div_mult [symmetric]) simp
  also have "\<dots> = (2 * (c mod d) + d) + (c div d) * (2 * d)"
    by simp
  also have "\<dots> div (2 * d) = c div d + (2 * (c mod d) + d) div (2 * d)"
    using assms by simp
  also have "(2 * (c mod d) + d) div (2 * d) = (if d \<le> 2 * (c mod d) then 1 else 0)"
  proof (cases "d \<le> 2 * (c mod d)")
    case True
    have "c mod d < d" using assms by simp
    then have "(2 * (c mod d) + d) div (2 * d) = 1"
      using True by (intro int_div_pos_eq [of _ _ _ "2 * (c mod d) - d"]) auto
    with True show ?thesis by simp
  next
    case False
    have "0 \<le> c mod d" using assms by simp
    with False show ?thesis by (simp add: div_pos_pos_trivial)
  qed
  finally show ?thesis .
qed

lemma sdiv_pos: "0 < d \<Longrightarrow> c sdiv d = (if c < 0 then - (- c div d) else c div d)" for c d :: int
  by (auto simp: signed_divide_int_def sgn_if)

lemma smod_pos: "0 < d \<Longrightarrow> c smod d = (if c < 0 then - (- c mod d) else c mod d)" for c d :: int
  by (auto simp: signed_modulo_int_def sgn_if)

lemma div_between: "0 < d \<Longrightarrow> 0 \<le> c \<Longrightarrow> 0 \<le> c div d \<and> c div d \<le> c" for c d :: int
  using zdiv_mono2 [of c 1 d] by (simp add: pos_imp_zdiv_nonneg_iff)

lemma in_i128_sdiv: "in_i128 c \<Longrightarrow> 0 < d \<Longrightarrow> in_i128 (c sdiv d)"
  using div_between [of d c] div_between [of d "- c"]
  by (auto simp: sdiv_pos in_i128_def)

lemma of_int_div_in_Ints_iff:
  assumes "0 < d" shows "(of_int c / of_int d :: rat) \<in> \<int> \<longleftrightarrow> d dvd c"
proof
  assume "(of_int c / of_int d :: rat) \<in> \<int>"
  then obtain k where "(of_int c / of_int d :: rat) = of_int k" by (auto elim: Ints_cases)
  then have "(of_int c :: rat) = of_int (k * d)" using assms by (simp add: field_simps)
  then have "c = k * d" by (simp only: of_int_eq_iff)
  then show "d dvd c" by simp
qed (use assms in auto)

lemma round_quotient_spec:
  assumes d: "0 < d" and c: "in_i128 c" and r: "c smod d \<noteq> 0"
  shows "round_quotient mode c d (c sdiv d) (c smod d) = round_result mode (of_int c / of_int d)"
proof (cases "c < 0")
  case True
  define q m where "q = - c div d" and "m = - c mod d"
  have sq: "c sdiv d = - q" and sr: "c smod d = - m"
    using True d by (simp_all add: sdiv_pos smod_pos q_def m_def)
  have m: "0 < m" "m < d"
    using r sr pos_mod_sign [OF d, of "- c"] pos_mod_bound [OF d, of "- c"]
    by (simp_all add: m_def)
  have fl: "c div d = - q - 1"
    using zdiv_zminus1_eq_if [of d "- c"] d m(1) by (simp add: q_def m_def)
  have neg: "(of_int c / of_int d :: rat) < 0" using True d by (simp add: divide_neg_pos)
  have notint: "\<not> d dvd c" using m(1) by (auto simp: m_def)
  have half: "\<lfloor>1 / 2 - (of_int c / of_int d :: rat)\<rfloor> = q + (if d \<le> 2 * m then 1 else 0)"
    using floor_half_up [OF d, of "- c"] by (simp add: q_def m_def algebra_simps)
  have qi: "in_i128 (- q)" using in_i128_sdiv [OF c d] sq by simp
  show ?thesis
    using d True m qi neg half notint
    by (cases mode)
      (auto simp: round_result_def sq sr floor_of_int_div ceiling_of_int_div fl q_def [symmetric]
        of_int_div_in_Ints_iff checked_away_def checked_defs sdiv_pos)
next
  case False
  define q m where "q = c div d" and "m = c mod d"
  have sq: "c sdiv d = q" and sr: "c smod d = m"
    using False d by (simp_all add: sdiv_pos smod_pos q_def m_def)
  have m: "0 < m" "m < d"
    using r sr pos_mod_sign [OF d, of c] pos_mod_bound [OF d, of c]
    by (simp_all add: m_def)
  have cl: "- c div d = - q - 1"
    using zdiv_zminus1_eq_if [of d c] d m(1) by (simp add: q_def m_def)
  have nonneg: "\<not> (of_int c / of_int d :: rat) < 0" using False d by (simp add: divide_less_0_iff)
  have pos: "0 < c" using False m by (cases "c = 0") (auto simp: m_def)
  have notint: "\<not> d dvd c" using m(1) by (auto simp: m_def)
  have half: "\<lfloor>(of_int c / of_int d :: rat) + 1 / 2\<rfloor> = q + (if d \<le> 2 * m then 1 else 0)"
    using floor_half_up [OF d, of c] by (simp add: q_def m_def)
  have qi: "in_i128 q" using in_i128_sdiv [OF c d] sq by simp
  show ?thesis
    using d pos m qi nonneg half notint
    by (cases mode)
      (auto simp: round_result_def sq sr floor_of_int_div ceiling_of_int_div cl q_def [symmetric]
        add.commute [of 1 q] of_int_div_in_Ints_iff checked_away_def checked_defs sdiv_pos)
qed

lemma round_spec_of_int: "round_spec mode (of_int c) = Some c"
proof -
  have "\<lfloor>(of_int c + 1 / 2 :: rat)\<rfloor> = c" by (rule floor_unique) simp_all
  moreover have "\<lfloor>(1 / 2 - of_int c :: rat)\<rfloor> = - c" by (rule floor_unique) simp_all
  ultimately show ?thesis by (cases mode) simp_all
qed

lemma smod_zero_iff: "0 < d \<Longrightarrow> c smod d = 0 \<longleftrightarrow> d dvd c" for c d :: int
  by (simp add: smod_pos mod_eq_0_iff_dvd)

lemma sdiv_mult: "0 < d \<Longrightarrow> (d * k) sdiv d = k" for d k :: int
  by (simp add: sdiv_pos minus_mult_right del: mult_minus_right)

lemma scaled_value:
  "fixed_value f * 10 ^ n =
     (if scale f \<le> n then of_int (coefficient f * 10 ^ (n - scale f))
      else of_int (coefficient f) / of_int (10 ^ (scale f - n)))"
proof (cases "scale f \<le> n")
  case True
  then have "(10::rat) ^ n = 10 ^ scale f * 10 ^ (n - scale f)" by (simp flip: power_add)
  with True show ?thesis by (simp add: fixed_value_def)
next
  case False
  then have "(10::rat) ^ scale f = 10 ^ n * 10 ^ (scale f - n)" by (simp flip: power_add)
  with False show ?thesis by (simp add: fixed_value_def)
qed

lemma rescale_result:
  assumes "in_i128 (coefficient f)"
  shows "rescale f n mode =
    (if n = scale f then Inr f
     else if 38 < (if scale f < n then n - scale f else scale f - n) then Inl Overflow
     else map_ok (\<lambda>c. \<lparr>coefficient = c, scale = n\<rparr>) (round_result mode (fixed_value f * 10 ^ n)))"
proof -
  consider "n = scale f" | "scale f < n" | "n < scale f" by linarith
  then show ?thesis
  proof cases
    case 2
    then have "fixed_value f * 10 ^ n = of_int (coefficient f * 10 ^ (n - scale f))"
      by (simp add: scaled_value)
    then have "round_spec mode (fixed_value f * 10 ^ n) = Some (coefficient f * 10 ^ (n - scale f))"
      by (simp only: round_spec_of_int)
    with 2 show ?thesis
      by (simp add: rescale_def pow10_i128_eq round_result_def checked_defs)
  next
    case 3
    let ?d = "10 ^ (scale f - n) :: int"
    have d: "0 < ?d" by simp
    from 3 have v: "fixed_value f * 10 ^ n = of_int (coefficient f) / of_int ?d"
      by (simp add: scaled_value)
    show ?thesis
    proof (cases "coefficient f smod ?d = 0")
      case True
      then have "?d dvd coefficient f" by (simp add: smod_zero_iff)
      then obtain k where k: "coefficient f = ?d * k" ..
      then have "fixed_value f * 10 ^ n = of_int k" by (simp add: v)
      then have "round_spec mode (fixed_value f * 10 ^ n) = Some k" by (simp only: round_spec_of_int)
      moreover have "coefficient f sdiv ?d = k" unfolding k using d by (rule sdiv_mult)
      ultimately show ?thesis
        using 3 True in_i128_sdiv [OF assms d]
        by (simp add: rescale_def pow10_i128_eq round_result_def)
    next
      case False
      have "rescale f n mode = (if 38 < scale f - n then Inl Overflow
          else and_then (round_quotient mode (coefficient f) ?d (coefficient f sdiv ?d)
            (coefficient f smod ?d)) (\<lambda>c. Inr \<lparr>coefficient = c, scale = n\<rparr>))"
        using 3 False by (simp add: rescale_def pow10_i128_eq Let_def)
      also have "\<dots> = (if 38 < scale f - n then Inl Overflow
          else map_ok (\<lambda>c. \<lparr>coefficient = c, scale = n\<rparr>) (round_result mode (fixed_value f * 10 ^ n)))"
        unfolding round_quotient_spec [OF d assms False, of mode] v
        by (cases "round_result mode (of_int (coefficient f) / of_int ?d)") simp_all
      finally show ?thesis using 3 by simp
    qed
  qed (simp add: rescale_def)
qed

section \<open>Parsing\<close>

text \<open>The number a digit string denotes, most significant digit first.\<close>

definition digits_value :: "char list \<Rightarrow> nat" where
  "digits_value ds = foldl (\<lambda>v d. v * 10 + digit_value d) 0 ds"

lemma digits_value_Nil [simp]: "digits_value [] = 0"
  by (simp add: digits_value_def)

lemma digits_value_snoc [simp]: "digits_value (ds @ [d]) = digits_value ds * 10 + digit_value d"
  by (simp add: digits_value_def)

lemma digits_value_zeros:
  "\<forall>z \<in> set zs. z = CHR ''0'' \<Longrightarrow> digits_value (zs @ ds) = digits_value ds"
  by (induction zs) (auto simp: digits_value_def digit_value_def)

lemma digits_value_trim: "digits_value (trim_leading_zeros ds @ es) = digits_value (ds @ es)"
proof (cases "position (\<lambda>b. b \<noteq> CHR ''0'') ds")
  case None
  then have zeros: "\<forall>z \<in> set ds. z = CHR ''0''" by (simp add: position_None_iff)
  then have "\<forall>z \<in> set (drop (length ds - 1) ds). z = CHR ''0''" by (meson in_set_dropD)
  with zeros None show ?thesis by (simp add: trim_leading_zeros_def digits_value_zeros)
next
  case (Some i)
  then have "\<forall>z \<in> set (take i ds). z = CHR ''0''" by (auto simp: position_Some_iff)
  from digits_value_zeros [OF this, of "drop i ds @ es"]
  have "digits_value (ds @ es) = digits_value (drop i ds @ es)"
    by (simp only: append_assoc [symmetric] append_take_drop_id)
  with Some show ?thesis using position_less [OF Some] by (simp add: trim_leading_zeros_def)
qed

lemma in_i128_int: "in_i128 (int n) \<longleftrightarrow> n < 2 ^ 127"
  by (simp add: in_i128_def)

lemma push_digit_eq:
  "push_digit (int v) d =
     (if v * 10 + digit_value d < 2 ^ 127 then Inr (int (v * 10 + digit_value d)) else Inl Overflow)"
proof -
  have "in_i128 (int v * 10) \<longleftrightarrow> v * 10 < 2 ^ 127"
    and "in_i128 (int v * 10 + int (digit_value d)) \<longleftrightarrow> v * 10 + digit_value d < 2 ^ 127"
    using in_i128_int [of "v * 10"] in_i128_int [of "v * 10 + digit_value d"] by simp_all
  then show ?thesis by (auto simp: push_digit_def checked_defs)
qed

lemma push_digits_eq:
  "try_fold push_digit 0 ds =
     (if digits_value ds < 2 ^ 127 then Inr (int (digits_value ds)) else Inl Overflow)"
proof (induction ds rule: rev_induct)
  case (snoc d ds)
  then show ?case by (auto simp: try_fold_append push_digit_eq result_iffs)
qed simp

lemma push_exponent_digits_eq:
  "try_fold push_exponent_digit 0 ds =
     (if digits_value ds < 2 ^ 32 then Inr (digits_value ds) else Inl Overflow)"
proof (induction ds rule: rev_induct)
  case (snoc d ds)
  then show ?case
    by (auto simp: try_fold_append push_exponent_digit_def checked_defs)
qed simp

text \<open>
  The language \<^verbatim>\<open>parse_decimal\<close> accepts: an optional sign, digits, and optionally a point with further
  digits, with at least one digit in all.
\<close>

definition decimal_text :: "char list \<Rightarrow> char list \<Rightarrow> char list \<Rightarrow> char list \<Rightarrow> bool" where
  "decimal_text sign ip fp s \<longleftrightarrow>
     sign \<in> {[], ''-'', ''+''} \<and> list_all is_ascii_digit ip \<and> list_all is_ascii_digit fp \<and>
     ip @ fp \<noteq> [] \<and> (s = sign @ ip @ CHR ''.'' # fp \<or> s = sign @ ip \<and> fp = [])"

definition signed_value :: "char list \<Rightarrow> nat \<Rightarrow> int" where
  "signed_value sign v = (if sign = ''-'' then - int v else int v)"

text \<open>The branch of \<^verbatim>\<open>parse_decimal\<close> after its sign and its point are split off.\<close>

lemma sign_split:
  "bytes \<noteq> [] \<Longrightarrow> \<exists>sign rest. sign \<in> {[], ''-'', ''+''} \<and> bytes = sign @ rest \<and>
     (if hd bytes = CHR ''-'' then (True, tl bytes)
      else if hd bytes = CHR ''+'' then (False, tl bytes) else (False, bytes))
       = (sign = ''-'', rest) \<and> (sign = [] \<longrightarrow> hd bytes \<notin> {CHR ''-'', CHR ''+''})"
  by (cases bytes) auto

lemma digit_not_mark:
  "is_ascii_digit c \<Longrightarrow> c \<noteq> CHR ''.'' \<and> c \<noteq> CHR ''-'' \<and> c \<noteq> CHR ''+''"
  by (auto simp: is_ascii_digit_def)

lemma is_ascii_digit_zero [simp]: "is_ascii_digit (CHR ''0'')"
  by (simp add: is_ascii_digit_def)

lemma parse_decimal_complete:
  assumes "decimal_text sign ip fp s" and "length fp < 256" and "digits_value (ip @ fp) < 2 ^ 127"
  shows "parse_decimal s =
    Inr \<lparr>coefficient = signed_value sign (digits_value (ip @ fp)), scale = length fp\<rparr>"
proof -
  from assms(1) have sign: "sign \<in> {[], ''-'', ''+''}" and ip: "list_all is_ascii_digit ip"
    and fp: "list_all is_ascii_digit fp" and ne: "ip @ fp \<noteq> []"
    and s: "s = sign @ ip @ CHR ''.'' # fp \<or> s = sign @ ip \<and> fp = []"
    by (auto simp: decimal_text_def)
  define rest where "rest = drop (length sign) s"
  have rest: "rest = ip @ CHR ''.'' # fp \<or> rest = ip \<and> fp = []" "s = sign @ rest" "rest \<noteq> []"
    using s ne by (auto simp: rest_def)
  have hd: "hd rest \<noteq> CHR ''-''" "hd rest \<noteq> CHR ''+''"
    using rest(1,3) ip by (cases ip; auto dest: digit_not_mark)+
  have nodot: "\<forall>x \<in> set ip. x \<noteq> CHR ''.''" "CHR ''.'' \<notin> set fp"
    using ip fp by (auto simp: list_all_iff dest: digit_not_mark)
  have sgn: "(if hd s = CHR ''-'' then (True, tl s) else if hd s = CHR ''+'' then (False, tl s)
      else (False, s)) = (sign = ''-'', rest)" and s_ne: "s \<noteq> []"
    using sign rest(2,3) hd by auto
  have dot: "position (\<lambda>b. b = CHR ''.'') rest = None \<and> rest = ip \<and> fp = [] \<or>
      position (\<lambda>b. b = CHR ''.'') rest = Some (length ip) \<and> rest = ip @ CHR ''.'' # fp"
    using rest(1)
  proof
    assume "rest = ip @ CHR ''.'' # fp"
    then show ?thesis using position_append_here [OF nodot(1), of "CHR ''.''" fp] by simp
  next
    assume "rest = ip \<and> fp = []"
    then show ?thesis using nodot(1) by (simp add: position_None_iff)
  qed
  have neg: "in_i128 (- int (digits_value (ip @ fp)))"
    using assms(3) by (simp add: in_i128_def)
  have trim: "digits_value (trim_leading_zeros ds @ fp) = digits_value (ip @ fp)"
    if "ds = (if ip = [] then ''0'' else ip)" for ds
    using that digits_value_zeros [of "''0''" fp] by (simp add: digits_value_trim)
  have digs: "list_all is_ascii_digit (if ip = [] then ''0'' else ip)" using ip by simp
  from dot show ?thesis
  proof (elim disjE conjE)
    assume d: "position (\<lambda>b. b = CHR ''.'') rest = None" and "rest = ip" "fp = []"
    then show ?thesis
      using ne ip assms(2,3) neg trim [of ip]
      by (simp add: parse_decimal_def s_ne sgn push_digits_eq checked_defs signed_value_def)
  next
    assume d: "position (\<lambda>b. b = CHR ''.'') rest = Some (length ip)"
      and r: "rest = ip @ CHR ''.'' # fp"
    show ?thesis
      unfolding parse_decimal_def sgn Let_def prod.case d
      using ne ip fp nodot(2) assms(2,3) neg trim [OF refl] rest(3)
      by (cases "ip = []")
        (simp_all add: s_ne r push_digits_eq checked_defs signed_value_def)
  qed
qed

lemma parse_decimal_sound:
  assumes "parse_decimal s = Inr f"
  shows "\<exists>sign ip fp. decimal_text sign ip fp s \<and> length fp < 256 \<and> digits_value (ip @ fp) < 2 ^ 127
    \<and> f = \<lparr>coefficient = signed_value sign (digits_value (ip @ fp)), scale = length fp\<rparr>"
proof -
  have ne: "s \<noteq> []" using assms by (auto simp: parse_decimal_def)
  then obtain sign rest where sign: "sign \<in> {[], ''-'', ''+''}" "s = sign @ rest"
    "(if hd s = CHR ''-'' then (True, tl s) else if hd s = CHR ''+'' then (False, tl s)
      else (False, s)) = (sign = ''-'', rest)"
    using sign_split [OF ne] by blast
  define dot where "dot = position (\<lambda>b. b = CHR ''.'') rest"
  define ip where "ip = (case dot of None \<Rightarrow> rest | Some i \<Rightarrow> take i rest)"
  define fp where "fp = (case dot of None \<Rightarrow> [] | Some i \<Rightarrow> drop (i + 1) rest)"
  define ds where "ds = (if ip = [] then ''0'' else ip)"
  have ok: "rest \<noteq> []" "\<not> (dot \<noteq> None \<and> ip = [] \<and> fp = [])"
    "list_all is_ascii_digit ds" "list_all is_ascii_digit fp" "length fp < 256"
    and run: "and_then (try_fold push_digit 0 (trim_leading_zeros ds @ fp)) (\<lambda>coeff.
      and_then (if sign = ''-'' then ok_or (checked_i128 (- coeff)) Overflow else Inr coeff)
        (\<lambda>coeff. Inr \<lparr>coefficient = coeff, scale = length fp\<rparr>)) = Inr f"
    using assms ne
    unfolding parse_decimal_def sign(3) Let_def prod.case
      dot_def [symmetric] ip_def [symmetric] fp_def [symmetric] ds_def [symmetric]
    by (auto simp: checked_defs split: if_splits)
  have shape: "rest = ip @ CHR ''.'' # fp \<or> rest = ip \<and> fp = []"
  proof (cases dot)
    case (Some i)
    then have "rest ! i = CHR ''.''" "rest = take i rest @ rest ! i # drop (Suc i) rest"
      using position_split [of "\<lambda>b. b = CHR ''.''" rest i] unfolding dot_def
      by (auto simp: position_Some_iff)
    with Some show ?thesis by (simp add: ip_def fp_def)
  qed (simp add: ip_def fp_def)
  have "ip @ fp \<noteq> []" using shape ok(1,2) by (cases dot) (auto simp: ip_def fp_def)
  moreover have "list_all is_ascii_digit ip" using ok(3) by (auto simp: ds_def split: if_splits)
  ultimately have "decimal_text sign ip fp s"
    using shape ok(4) sign(1,2) by (auto simp: decimal_text_def)
  moreover have "digits_value (trim_leading_zeros ds @ fp) = digits_value (ip @ fp)"
    using digits_value_zeros [of "''0''" fp] by (simp add: digits_value_trim ds_def)
  ultimately show ?thesis
    using run ok(5)
    by (intro exI [of _ sign] exI [of _ ip] exI [of _ fp])
      (auto simp: push_digits_eq signed_value_def result_iffs split: if_splits)
qed

text \<open>The value a text denotes by its characters, with the exponent applied as a rational power.\<close>

definition exponent_factor :: "char list \<Rightarrow> nat \<Rightarrow> rat" where
  "exponent_factor sign k = (if sign = ''-'' then 1 / 10 ^ k else 10 ^ k)"

definition exponent_text :: "char list \<Rightarrow> char list \<Rightarrow> char list \<Rightarrow> bool" where
  "exponent_text sign ds x \<longleftrightarrow>
     sign \<in> {[], ''-'', ''+''} \<and> x = sign @ ds \<and> ds \<noteq> [] \<and> list_all is_ascii_digit ds"

lemma parse_decimal_ok: "parse_decimal s = Inr f \<Longrightarrow> fixed_ok f"
  using parse_decimal_sound [of s f] by (auto simp: fixed_ok_def signed_value_def in_i128_def)

lemma value_shift_down:
  "k \<le> n \<Longrightarrow> of_int c / 10 ^ (n - k) = (of_int c / 10 ^ n * 10 ^ k :: rat)"
proof -
  assume "k \<le> n"
  then have "(10::rat) ^ n = 10 ^ (n - k) * 10 ^ k" by (simp flip: power_add)
  then show ?thesis by simp
qed

lemma value_shift_up:
  "n \<le> k \<Longrightarrow> of_int (c * 10 ^ (k - n)) = (of_int c / 10 ^ n * 10 ^ k :: rat)"
proof -
  assume "n \<le> k"
  then have "(10::rat) ^ k = 10 ^ n * 10 ^ (k - n)" by (simp flip: power_add)
  then show ?thesis by simp
qed

lemma parse_str_sound:
  assumes run: "parse_str s = Inr f" and mark: "position is_exponent_mark s = Some i"
  obtains g sign ds where "parse_decimal (take i s) = Inr g"
    and "exponent_text sign ds (drop (Suc i) s)" and "digits_value ds < 2 ^ 32"
    and "fixed_value f = fixed_value g * exponent_factor sign (digits_value ds)"
    and "fixed_ok f"
proof -
  define x where "x = drop (Suc i) s"
  obtain g where g: "parse_decimal (take i s) = Inr g" and x: "x \<noteq> []"
    using run mark by (auto simp: parse_str_def x_def result_iffs Let_def split: if_splits)
  obtain sign ds where sign: "sign \<in> {[], ''-'', ''+''}" "x = sign @ ds"
    and split: "(if hd x = CHR ''-'' then (True, tl x) else if hd x = CHR ''+'' then (False, tl x)
      else (False, x)) = (sign = ''-'', ds)"
    using sign_split [OF x] by blast
  have ok: "in_i128 (coefficient g)" using parse_decimal_ok [OF g] by (simp add: fixed_ok_def)
  note body = run [unfolded parse_str_def mark option.case g and_then.simps Suc_eq_plus1 [symmetric]
      x_def [symmetric] Let_def split prod.case]
  have ds: "ds \<noteq> []" "list_all is_ascii_digit ds" "digits_value ds < 2 ^ 32"
    using body x by (auto simp: push_exponent_digits_eq split: if_splits)
  define k where "k = digits_value ds"
  note rest = body [unfolded push_exponent_digits_eq k_def [symmetric]]
  have "fixed_value f = fixed_value g * exponent_factor sign k \<and> fixed_ok f"
  proof (cases "coefficient g = 0")
    case True
    then show ?thesis using rest x ds
      by (auto simp: fixed_value_def fixed_zero_def fixed_ok_def k_def split: if_splits)
  next
    case nz: False
    show ?thesis
    proof (cases "sign = ''-''")
      case True
      then show ?thesis using rest x ds nz ok
        by (auto simp: fixed_value_def exponent_factor_def fixed_ok_def checked_defs power_add
            split: if_splits)
    next
      case False
      then show ?thesis using rest x ds nz ok value_shift_down [of k "scale g" "coefficient g"]
          value_shift_up [of "scale g" k "coefficient g"] parse_decimal_ok [OF g]
        by (auto simp: fixed_value_def exponent_factor_def fixed_ok_def checked_defs
            pow10_i128_eq result_iffs k_def split: if_splits)
    qed
  qed
  then show ?thesis
    using that [of g sign ds] g ds sign by (simp add: exponent_text_def x_def k_def)
qed

section \<open>Exact rescaling\<close>

lemma rescale_exact:
  assumes "rescale v t ExactOnly = Inr w"
  shows "scale w = t" and "of_int (coefficient w) = fixed_value v * 10 ^ t"
proof -
  consider "t = scale v" | "scale v < t" | "t < scale v" by linarith
  then have "scale w = t \<and> of_int (coefficient w) = fixed_value v * 10 ^ t"
  proof cases
    case 2
    with assms have "w = \<lparr>coefficient = coefficient v * 10 ^ (t - scale v), scale = t\<rparr>"
      by (auto simp: rescale_def pow10_i128_eq result_iffs split: if_splits)
    with 2 show ?thesis by (simp add: scaled_value)
  next
    case 3
    let ?d = "10 ^ (scale v - t) :: int"
    from assms 3 have "coefficient v smod ?d = 0" and w: "w = \<lparr>coefficient = coefficient v sdiv ?d, scale = t\<rparr>"
      by (auto simp: rescale_def pow10_i128_eq result_iffs Let_def split: if_splits)
    then obtain k where k: "coefficient v = ?d * k" by (auto simp: smod_zero_iff)
    with w have "coefficient w = k" by (simp add: sdiv_mult)
    with k w 3 show ?thesis by (simp add: scaled_value)
  qed (use assms in \<open>simp add: rescale_def fixed_value_def\<close>)
  then show "scale w = t" and "of_int (coefficient w) = fixed_value v * 10 ^ t" by simp_all
qed

lemma rescale_exact_pos:
  assumes "rescale v t ExactOnly = Inr w" shows "0 < coefficient w \<longleftrightarrow> 0 < coefficient v"
proof -
  have "0 < coefficient w \<longleftrightarrow> (0::rat) < of_int (coefficient w)" by simp
  also have "\<dots> \<longleftrightarrow> 0 < fixed_value v"
    unfolding rescale_exact(2) [OF assms] by (simp add: zero_less_mult_iff)
  also have "\<dots> \<longleftrightarrow> 0 < coefficient v" by (simp add: fixed_value_def zero_less_divide_iff)
  finally show ?thesis .
qed

lemma rescale_exact_range:
  "rescale v t ExactOnly = Inr w \<Longrightarrow> in_i128 (coefficient v) \<Longrightarrow> in_i128 (coefficient w)"
  by (auto simp: rescale_def pow10_i128_eq result_iffs Let_def in_i128_sdiv split: if_splits)

section \<open>Properties\<close>

text \<open>
  C4: \<^verbatim>\<open>Fixed::rescale\<close> is exact decimal rounding.  Rescaling to the scale the value has is the identity;
  a change of more than 38 digits overflows; any other rescale returns the rational value times ten to
  the new scale, rounded as the mode says (\<open>ExactOnly\<close> accepting integers only), or an overflow when
  that integer does not fit in an \<^verbatim>\<open>i128\<close>.
\<close>

theorem rescale_correct:
  assumes "fixed_ok f"
  shows "rescale f n mode =
    (if n = scale f then Inr f
     else if 38 < \<bar>int n - int (scale f)\<bar> then Inl Overflow
     else case round_spec mode (fixed_value f * 10 ^ n) of
         None \<Rightarrow> Inl InexactRescale
       | Some c \<Rightarrow> if in_i128 c then Inr \<lparr>coefficient = c, scale = n\<rparr> else Inl Overflow)"
proof -
  have "(38 < (if scale f < n then n - scale f else scale f - n)) = (38 < \<bar>int n - int (scale f)\<bar>)"
    by auto
  with assms show ?thesis
    by (simp add: rescale_result fixed_ok_def round_result_def split: option.split)
qed

theorem rescale_correct_witness:
  "fixed_ok \<lparr>coefficient = -15, scale = 1\<rparr> \<and>
   rescale \<lparr>coefficient = -15, scale = 1\<rparr> 0 TowardNegInfinity = Inr \<lparr>coefficient = -2, scale = 0\<rparr>"
proof -
  have ok: "fixed_ok \<lparr>coefficient = -15, scale = 1\<rparr>" by (simp add: fixed_ok_def in_i128_def)
  moreover have "\<lfloor>- (3 / 2) :: rat\<rfloor> = - 2" by (rule floor_unique) simp_all
  ultimately show ?thesis
    using rescale_correct [OF ok, of 0 TowardNegInfinity]
    by (simp add: fixed_value_def in_i128_def)
qed

text \<open>
  Widening is lossless.  A value rescaled to a larger scale, under any rounding mode, comes back as
  the same coefficient and scale when it is rescaled down again, under any mode.
\<close>

theorem rescale_up_down:
  assumes "fixed_ok f" and "scale f \<le> n" and "rescale f n mode = Inr g"
  shows "fixed_value g = fixed_value f \<and> rescale g (scale f) mode' = Inr f"
proof (cases "n = scale f")
  case True
  with assms show ?thesis by (auto simp: rescale_def)
next
  case False
  let ?d = "10 ^ (n - scale f) :: int"
  from False assms(2) have less: "scale f < n" by simp
  have small: "n - scale f \<le> 38" and g: "g = \<lparr>coefficient = coefficient f * ?d, scale = n\<rparr>"
    using assms(3) less by (auto simp: rescale_def pow10_i128_eq result_iffs split: if_splits)
  have d: "0 < ?d" by simp
  have "coefficient f * ?d smod ?d = 0" using d by (simp add: smod_zero_iff)
  moreover have "coefficient f * ?d sdiv ?d = coefficient f"
    using sdiv_mult [OF d, of "coefficient f"] by (simp add: mult.commute)
  moreover have "fixed_value g = fixed_value f"
    using value_shift_up [of "scale f" n "coefficient f"] less by (simp add: fixed_value_def g)
  ultimately show ?thesis
    using small less by (simp add: rescale_def g pow10_i128_eq)
qed

theorem rescale_up_down_witness:
  "rescale \<lparr>coefficient = 12345, scale = 2\<rparr> 4 ExactOnly = Inr \<lparr>coefficient = 1234500, scale = 4\<rparr> \<and>
   rescale \<lparr>coefficient = 1234500, scale = 4\<rparr> 2 TowardZero = Inr \<lparr>coefficient = 12345, scale = 2\<rparr>"
proof -
  have ok: "fixed_ok \<lparr>coefficient = 12345, scale = 2\<rparr>" by (simp add: fixed_ok_def in_i128_def)
  have up: "rescale \<lparr>coefficient = 12345, scale = 2\<rparr> 4 ExactOnly
      = Inr \<lparr>coefficient = 1234500, scale = 4\<rparr>"
    by (simp add: rescale_def pow10_i128_eq checked_defs in_i128_def)
  show ?thesis using up rescale_up_down [OF ok _ up, of TowardZero] by simp
qed


text \<open>
  \<^verbatim>\<open>Fixed::parse_str\<close> is exact on scientific notation.  When it accepts a text with an exponent mark,
  the part before the mark is a decimal, the part after it is an optionally signed digit string, and the
  result denotes the decimal times ten to that exponent, as a well-formed \<^verbatim>\<open>Fixed\<close>.
\<close>

theorem parse_str_exact:
  assumes "parse_str (m @ e # x) = Inr f" and "is_exponent_mark e" and "\<not> list_ex is_exponent_mark m"
  shows "\<exists>g sign ds. parse_decimal m = Inr g \<and> exponent_text sign ds x \<and>
    fixed_value f = fixed_value g * exponent_factor sign (digits_value ds) \<and> fixed_ok f"
proof -
  have "position is_exponent_mark (m @ e # x) = Some (length m)"
    using assms(2,3) by (intro position_append_here) (auto simp: list_ex_iff)
  from assms(1) this obtain g sign ds where "parse_decimal (take (length m) (m @ e # x)) = Inr g"
    and "exponent_text sign ds (drop (Suc (length m)) (m @ e # x))"
    and "fixed_value f = fixed_value g * exponent_factor sign (digits_value ds)" and "fixed_ok f"
    by (rule parse_str_sound)
  then show ?thesis by (intro exI [of _ g] exI [of _ sign] exI [of _ ds]) simp
qed

theorem parse_str_exact_witness:
  "parse_str ''9.74e-6'' = Inr \<lparr>coefficient = 974, scale = 8\<rparr> \<and>
   (\<exists>g sign ds. parse_decimal ''9.74'' = Inr g \<and> exponent_text sign ds ''-6'' \<and>
     fixed_value \<lparr>coefficient = 974, scale = 8\<rparr> = fixed_value g * exponent_factor sign (digits_value ds))"
proof -
  have run: "parse_str (''9.74'' @ CHR ''e'' # ''-6'') = Inr \<lparr>coefficient = 974, scale = 8\<rparr>"
    by (simp add: parse_str_def parse_decimal_def trim_leading_zeros_def is_exponent_mark_def
        is_ascii_digit_def digit_value_def push_digit_def push_exponent_digit_def checked_defs in_i128_def)
  then show ?thesis
    using parse_str_exact [OF run] by (auto simp: is_exponent_mark_def)
qed

end
