(* ===== verification/Model.thy ===== *)
theory Model
  imports Fixed
begin

text \<open>
  The canonical event model (\<^verbatim>\<open>crates/model/src\<close>): process-local identifiers (\<^verbatim>\<open>ids.rs\<close>), wall-clock
  time (\<^verbatim>\<open>time.rs\<close>), the provenance bits of an event (\<^verbatim>\<open>flags.rs\<close>), the market and system events
  (\<^verbatim>\<open>events.rs\<close>), the instrument catalogue (\<^verbatim>\<open>instrument.rs\<close>) and the overflow policies of bounded queues
  (\<^verbatim>\<open>overflow.rs\<close>).  A Rust \<^verbatim>\<open>String\<close> is its list of bytes.  Field names carry a prefix per record,
  because the selectors of HOL records share one name space.
\<close>

unbundle bit_operations_syntax

section \<open>Identifiers and time\<close>

datatype venue_id = VenueId u16
datatype instrument_id = InstrumentId u32
datatype connection_id = ConnectionId w64
datatype session_id = SessionId w64
datatype catalog_version = CatalogVersion w64
datatype plan_version = PlanVersion w64
datatype subscription_id = SubscriptionId w64
datatype source_id = SourceId string

record sequence_range =
  seq_first :: w64
  seq_last :: w64

datatype timestamp_ns = TimestampNs (ts_ns: i64)

record frame_stamp =
  stamp_receive_ts :: timestamp_ns
  stamp_mono_ns :: w64

text \<open>\<^verbatim>\<open>#[derive(PartialOrd, Ord)]\<close> on the newtypes the components compare.\<close>

instantiation timestamp_ns :: linorder
begin

definition less_eq_timestamp_ns :: "timestamp_ns \<Rightarrow> timestamp_ns \<Rightarrow> bool" where
  "less_eq_timestamp_ns a b \<longleftrightarrow> ts_ns a \<le> ts_ns b"

definition less_timestamp_ns :: "timestamp_ns \<Rightarrow> timestamp_ns \<Rightarrow> bool" where
  "less_timestamp_ns a b \<longleftrightarrow> ts_ns a < ts_ns b"

instance
  by standard (auto simp: less_eq_timestamp_ns_def less_timestamp_ns_def intro: timestamp_ns.expand)

end

lemma timestamp_ns_less_eq [simp]: "TimestampNs a \<le> TimestampNs b \<longleftrightarrow> a \<le> b"
  by (simp add: less_eq_timestamp_ns_def)

lemma timestamp_ns_less [simp]: "TimestampNs a < TimestampNs b \<longleftrightarrow> a < b"
  by (simp add: less_timestamp_ns_def)

section \<open>Event flags\<close>

datatype event_flags = EventFlags (flag_bits: "32 word")

definition SNAPSHOT :: event_flags where "SNAPSHOT = EventFlags (push_bit 0 1)"
definition DELTA :: event_flags where "DELTA = EventFlags (push_bit 1 1)"
definition REPLAY :: event_flags where "REPLAY = EventFlags (push_bit 2 1)"
definition RECOVERED :: event_flags where "RECOVERED = EventFlags (push_bit 3 1)"
definition STALE :: event_flags where "STALE = EventFlags (push_bit 4 1)"
definition OUT_OF_ORDER_SOURCE :: event_flags where "OUT_OF_ORDER_SOURCE = EventFlags (push_bit 5 1)"
definition SOURCE_TIMESTAMP_MISSING :: event_flags where
  "SOURCE_TIMESTAMP_MISSING = EventFlags (push_bit 6 1)"
definition SYNTHETIC :: event_flags where "SYNTHETIC = EventFlags (push_bit 7 1)"
definition RAW_REFERENCE_AVAILABLE :: event_flags where
  "RAW_REFERENCE_AVAILABLE = EventFlags (push_bit 8 1)"

definition flags_empty :: event_flags where
  "flags_empty = EventFlags 0"

definition flags_contains :: "event_flags \<Rightarrow> event_flags \<Rightarrow> bool" where
  "flags_contains a b \<longleftrightarrow> flag_bits a AND flag_bits b = flag_bits b"

definition flags_union :: "event_flags \<Rightarrow> event_flags \<Rightarrow> event_flags" where
  "flags_union a b = EventFlags (flag_bits a OR flag_bits b)"

definition flags_insert :: "event_flags \<Rightarrow> event_flags \<Rightarrow> event_flags" where
  "flags_insert a b = EventFlags (flag_bits a OR flag_bits b)"

definition all_flags :: "event_flags list" where
  "all_flags = [SNAPSHOT, DELTA, REPLAY, RECOVERED, STALE, OUT_OF_ORDER_SOURCE,
     SOURCE_TIMESTAMP_MISSING, SYNTHETIC, RAW_REFERENCE_AVAILABLE]"

section \<open>Market events\<close>

datatype aggressor_side = Buy | Sell | Unknown

record trade =
  tr_price :: price
  tr_quantity :: quantity
  tr_aggressor :: aggressor_side
  tr_trade_id :: "source_id option"

record quote =
  qt_bid_price :: price
  qt_bid_quantity :: "quantity option"
  qt_ask_price :: price
  qt_ask_quantity :: "quantity option"

record book_level =
  bl_price :: price
  bl_quantity :: quantity

datatype book_side = Bid | Ask

datatype book_operation = Upsert | Delete

record book_change =
  bc_side :: book_side
  bc_operation :: book_operation
  bc_price :: price
  bc_quantity :: "quantity option"

record book_snapshot =
  bs_bids :: "book_level list"
  bs_asks :: "book_level list"
  bs_depth :: "u32 option"
  bs_checksum :: "source_id option"

record book_delta =
  bd_changes :: "book_change list"
  bd_checksum :: "source_id option"

record candle =
  cd_open :: price
  cd_high :: price
  cd_low :: price
  cd_close :: price
  cd_volume :: quantity
  cd_interval_ns :: i64
  cd_start_ts :: timestamp_ns

record price_point =
  pp_price :: price

record funding =
  fd_rate :: rate
  fd_next_funding_ts :: "timestamp_ns option"

record open_interest =
  oi_quantity :: quantity

record liquidation =
  lq_price :: price
  lq_quantity :: quantity
  lq_side :: aggressor_side

record statistics_24h =
  st_open :: "price option"
  st_high :: "price option"
  st_low :: "price option"
  st_close :: "price option"
  st_volume :: "quantity option"
  st_quote_volume :: "quantity option"

datatype instrument_status = Active | Suspended | Expired | Delisted | UnknownStatus

record instrument_update =
  iu_status :: instrument_status

record venue_status =
  vs_message :: string

datatype market_event =
    TradeEvent trade
  | QuoteEvent quote
  | BookSnapshotEvent book_snapshot
  | BookDeltaEvent book_delta
  | CandleEvent candle
  | MarkPrice price_point
  | IndexPrice price_point
  | FundingEvent funding
  | OpenInterestEvent open_interest
  | LiquidationEvent liquidation
  | Statistics24hEvent statistics_24h
  | InstrumentUpdateEvent instrument_update
  | VenueStatusEvent venue_status

record event_envelope =
  ev_schema_version :: u16
  ev_venue :: venue_id
  ev_instrument :: "instrument_id option"
  ev_connection :: connection_id
  ev_session :: session_id
  ev_frame_seq :: w64
  ev_event_index :: u16
  ev_exchange_ts :: "timestamp_ns option"
  ev_receive_ts :: timestamp_ns
  ev_source_sequence :: "sequence_range option"
  ev_flags :: event_flags
  ev_payload :: market_event

datatype system_event =
    EngineStateChanged string
  | ConnectionStateChanged string
  | SubscriptionStateChanged string
  | InstrumentCatalogUpdated w64
  | HeartbeatMissed
  | RateLimited
  | ParseError string
  | UnknownMessage string
  | SequenceGap w64 w64
  | ChecksumMismatch string
  | BookInvalidated instrument_id string
  | BookSnapshotRejected instrument_id string
  | BookResynchronized instrument_id
  | QueuePressure string
  | EventsDropped w64 string
  | RecordingRotated
  | DiskPressure
  | ClockJump i64
  | SinkStateChanged string
  | ShutdownStarted
  | ShutdownCompleted

section \<open>Instruments and overflow policies\<close>

datatype venue_code = VenueCode string
datatype asset_code = AssetCode string

datatype instrument_kind = Spot | PerpetualLinear | PerpetualInverse | FutureLinear | FutureInverse
  | OptionKind

record instrument_key =
  ik_venue :: venue_code
  ik_native_symbol :: string
  ik_kind :: instrument_kind
  ik_settlement :: "asset_code option"
  ik_expiry_ns :: "i64 option"

record instrument_definition =
  id_key :: instrument_key
  id_base :: asset_code
  id_quote :: asset_code
  id_settlement :: "asset_code option"
  id_price_scale :: u8
  id_quantity_scale :: u8
  id_price_increment :: fixed
  id_quantity_increment :: fixed
  id_min_quantity :: "fixed option"
  id_max_quantity :: "fixed option"
  id_min_notional :: "fixed option"
  id_contract_size :: "fixed option"
  id_expiry_ns :: "i64 option"
  id_status :: instrument_status
  id_inverse :: bool

record instrument =
  in_id :: instrument_id
  in_key :: instrument_key
  in_base :: asset_code
  in_quote :: asset_code
  in_settlement :: "asset_code option"
  in_price_scale :: u8
  in_quantity_scale :: u8
  in_price_increment :: fixed
  in_quantity_increment :: fixed
  in_min_quantity :: "fixed option"
  in_max_quantity :: "fixed option"
  in_min_notional :: "fixed option"
  in_contract_size :: "fixed option"
  in_expiry_ns :: "i64 option"
  in_status :: instrument_status
  in_inverse :: bool
  in_catalog_version :: catalog_version

definition into_instrument ::
    "instrument_definition \<Rightarrow> instrument_id \<Rightarrow> catalog_version \<Rightarrow> instrument" where
  "into_instrument d i v =
     \<lparr>in_id = i, in_key = id_key d, in_base = id_base d, in_quote = id_quote d,
      in_settlement = id_settlement d, in_price_scale = id_price_scale d,
      in_quantity_scale = id_quantity_scale d, in_price_increment = id_price_increment d,
      in_quantity_increment = id_quantity_increment d, in_min_quantity = id_min_quantity d,
      in_max_quantity = id_max_quantity d, in_min_notional = id_min_notional d,
      in_contract_size = id_contract_size d, in_expiry_ns = id_expiry_ns d,
      in_status = id_status d, in_inverse = id_inverse d, in_catalog_version = v\<rparr>"

record catalog_view =
  cv_venue :: venue_id
  cv_version :: catalog_version
  cv_instruments :: "instrument list"

definition catalog_new :: "venue_id \<Rightarrow> catalog_version \<Rightarrow> catalog_view" where
  "catalog_new v n = \<lparr>cv_venue = v, cv_version = n, cv_instruments = []\<rparr>"

definition with_instruments :: "venue_id \<Rightarrow> catalog_version \<Rightarrow> instrument list \<Rightarrow> catalog_view" where
  "with_instruments v n is = \<lparr>cv_venue = v, cv_version = n, cv_instruments = is\<rparr>"

definition find_by_native :: "catalog_view \<Rightarrow> string \<Rightarrow> instrument option" where
  "find_by_native cat symbol =
     find (\<lambda>i. ik_native_symbol (in_key i) = symbol) (cv_instruments cat)"

datatype overflow_policy = BlockWithDeadline | DropNewest | DropOldest | LatestPerKey | SpillToDisk
  | DisableSink | FailEngine

section \<open>Laws of the flags\<close>

text \<open>Containment is bitwise: every bit of the argument is set.\<close>

lemma flags_contains_iff:
  "flags_contains a b \<longleftrightarrow> (\<forall>n. bit (flag_bits b) n \<longrightarrow> bit (flag_bits a) n)"
proof
  assume "flags_contains a b"
  then have "flag_bits b = flag_bits a AND flag_bits b" by (simp add: flags_contains_def)
  then have "bit (flag_bits b) n \<longleftrightarrow> bit (flag_bits a AND flag_bits b) n" for n by (rule arg_cong)
  then show "\<forall>n. bit (flag_bits b) n \<longrightarrow> bit (flag_bits a) n" unfolding bit_and_iff by blast
next
  assume "\<forall>n. bit (flag_bits b) n \<longrightarrow> bit (flag_bits a) n"
  then show "flags_contains a b"
    unfolding flags_contains_def by (intro bit_eqI) (auto simp: bit_and_iff)
qed

lemma flags_contains_antisym: "flags_contains a b \<Longrightarrow> flags_contains b a \<Longrightarrow> a = b"
  by (rule event_flags.expand) (auto simp: flags_contains_iff bit_eq_iff)

lemma bit_flags_union:
  "bit (flag_bits (flags_union a b)) n \<longleftrightarrow> bit (flag_bits a) n \<or> bit (flag_bits b) n"
  by (simp add: flags_union_def bit_or_iff)

lemma bit_flags_insert:
  "bit (flag_bits (flags_insert a b)) n \<longleftrightarrow> bit (flag_bits a) n \<or> bit (flag_bits b) n"
  by (simp add: flags_insert_def bit_or_iff)

lemmas flag_bit_simps = flags_contains_iff bit_flags_union bit_flags_insert

lemmas flag_defs = SNAPSHOT_def DELTA_def REPLAY_def RECOVERED_def STALE_def OUT_OF_ORDER_SOURCE_def
  SOURCE_TIMESTAMP_MISSING_def SYNTHETIC_def RAW_REFERENCE_AVAILABLE_def

text \<open>A named flag is one bit below the ninth.\<close>

lemma all_flags_eq: "all_flags = map (\<lambda>k. EventFlags (2 ^ k)) [0..<9]"
  by (simp add: all_flags_def flag_defs upt_conv_Cons)

lemma bit_single_flag: "k < 9 \<Longrightarrow> bit (2 ^ k :: 32 word) n \<longleftrightarrow> n = k"
  by (auto simp: bit_exp_iff possible_bit_def)

lemma bit_flags_inserted:
  "bit (flag_bits (foldl flags_insert a fs)) n \<longleftrightarrow>
     bit (flag_bits a) n \<or> (\<exists>f \<in> set fs. bit (flag_bits f) n)"
  by (induction fs arbitrary: a) (auto simp: flag_bit_simps)

lemma flags_union_least:
  "flags_contains c (flags_union a b) \<longleftrightarrow> flags_contains c a \<and> flags_contains c b"
  by (auto simp: flag_bit_simps)

text \<open>
  The nine named provenance flags are independent bits: after any named flags have been inserted
  into the empty word one by one, the word contains a named flag exactly when it was among those
  inserted.
\<close>

theorem named_flags_independent:
  assumes "f \<in> set all_flags" and "set fs \<subseteq> set all_flags"
  shows "flags_contains (foldl flags_insert flags_empty fs) f \<longleftrightarrow> f \<in> set fs"
proof -
  from assms(1) obtain k where k: "k < 9" "f = EventFlags (2 ^ k)"
    by (auto simp: all_flags_eq)
  have "flags_contains (foldl flags_insert flags_empty fs) f \<longleftrightarrow> (\<exists>g \<in> set fs. bit (flag_bits g) k)"
    using k by (auto simp: flags_contains_iff bit_flags_inserted bit_single_flag flags_empty_def)
  also have "\<dots> \<longleftrightarrow> f \<in> set fs"
  proof
    assume "\<exists>g \<in> set fs. bit (flag_bits g) k"
    then obtain g where g: "g \<in> set fs" "bit (flag_bits g) k" by blast
    with assms(2) obtain j where "j < 9" "g = EventFlags (2 ^ j)"
      by (auto simp: all_flags_eq)
    with g k show "f \<in> set fs" by (auto simp: bit_single_flag)
  qed (use k in \<open>auto simp: bit_single_flag intro!: bexI [of _ f]\<close>)
  finally show ?thesis .
qed

theorem named_flags_independent_witness:
  "flags_contains (foldl flags_insert flags_empty [DELTA, STALE]) STALE \<and>
   \<not> flags_contains (foldl flags_insert flags_empty [DELTA, STALE]) SNAPSHOT"
proof -
  have named: "STALE \<in> set all_flags" "SNAPSHOT \<in> set all_flags" "set [DELTA, STALE] \<subseteq> set all_flags"
    by (simp_all add: all_flags_def)
  have "SNAPSHOT \<notin> set [DELTA, STALE]" by (simp add: flag_defs)
  then show ?thesis
    unfolding named_flags_independent [OF named(1,3)] named_flags_independent [OF named(2,3)] by simp
qed

end
