(* ===== verification/Book.thy ===== *)
theory Book
  imports Ordered_Map Model
begin

text \<open>
  The L2 order book (\<^verbatim>\<open>crates/book/src/l2.rs\<close>): two ordered maps from scaled price coefficients to
  scaled quantity coefficients, the validity flag, the depth limit and the last sequence number.  The
  operations follow the source one by one.  Each public mutator is a function from the book to its
  result paired with the book it leaves, so that what an error leaves behind is part of the model.
\<close>

section \<open>State and operations\<close>

datatype book_validity = Valid | Synchronizing | Invalid

datatype book_error = NotValid book_validity | NonPositiveQuantity | Crossed | InvalidDelete
  | ScaleMismatch

datatype book_mode = Disabled | RawDeltas | ValidatedDeltas | Maintain "u32 option"

type_synonym levels = "(i128 \<times> i128) list"

record order_book =
  price_scale :: u8
  qty_scale :: u8
  bids :: levels
  asks :: levels
  validity :: book_validity
  depth :: "u32 option"
  sequence :: "w64 option"

definition book_new :: "u8 \<Rightarrow> u8 \<Rightarrow> u32 option \<Rightarrow> order_book" where
  "book_new ps qs d =
     \<lparr>price_scale = ps, qty_scale = qs, bids = [], asks = [], validity = Synchronizing, depth = d,
      sequence = None\<rparr>"

definition set_validity :: "order_book \<Rightarrow> book_validity \<Rightarrow> order_book" where
  "set_validity b v = b\<lparr>validity := v\<rparr>"

definition set_sequence :: "order_book \<Rightarrow> w64 \<Rightarrow> order_book" where
  "set_sequence b n = b\<lparr>sequence := Some n\<rparr>"

definition clear :: "order_book \<Rightarrow> order_book" where
  "clear b = b\<lparr>bids := [], asks := [], sequence := None\<rparr>"

definition scale_coeff :: "fixed \<Rightarrow> u8 \<Rightarrow> book_error + i128" where
  "scale_coeff v target = map_err (\<lambda>_. ScaleMismatch) (map_ok coefficient (rescale v target ExactOnly))"

definition price_key :: "order_book \<Rightarrow> price \<Rightarrow> book_error + i128" where
  "price_key b p = scale_coeff (price_fixed p) (price_scale b)"

definition book_price :: "order_book \<Rightarrow> i128 \<Rightarrow> price" where
  "book_price b c = Price (fixed_new c (price_scale b))"

definition book_qty :: "order_book \<Rightarrow> i128 \<Rightarrow> quantity" where
  "book_qty b c = Quantity (fixed_new c (qty_scale b))"

text \<open>One level of one side, read and written as the \<^verbatim>\<open>match side\<close> of the source does.\<close>

fun levels_of :: "book_side \<Rightarrow> order_book \<Rightarrow> levels" where
  "levels_of Bid b = bids b"
| "levels_of Ask b = asks b"

fun set_levels :: "book_side \<Rightarrow> levels \<Rightarrow> order_book \<Rightarrow> order_book" where
  "set_levels Bid m b = b\<lparr>bids := m\<rparr>"
| "set_levels Ask m b = b\<lparr>asks := m\<rparr>"

definition level_get :: "order_book \<Rightarrow> book_side \<times> i128 \<Rightarrow> i128 option" where
  "level_get b = (\<lambda>(side, price). bt_get (levels_of side b) price)"

definition level_put :: "book_side \<times> i128 \<Rightarrow> i128 option \<Rightarrow> order_book \<Rightarrow> order_book" where
  "level_put = (\<lambda>(side, price) q b. set_levels side (bt_put price q (levels_of side b)) b)"

text \<open>\<^verbatim>\<open>upsert\<close> fails before it writes, so its error leaves the book as it was.\<close>

definition upsert :: "order_book \<Rightarrow> book_side \<Rightarrow> price \<Rightarrow> quantity \<Rightarrow> book_error + order_book" where
  "upsert b side p q =
     (if coefficient (quantity_fixed q) \<le> 0 then Inl NonPositiveQuantity
      else and_then (price_key b p) (\<lambda>pk.
           and_then (scale_coeff (quantity_fixed q) (qty_scale b)) (\<lambda>qk.
           Inr (set_levels side (bt_insert pk qk (levels_of side b)) b))))"

definition delete :: "order_book \<Rightarrow> book_side \<Rightarrow> price \<Rightarrow> order_book" where
  "delete b side p =
     (case price_key b p of
        Inl _ \<Rightarrow> b
      | Inr pk \<Rightarrow> set_levels side (bt_remove pk (levels_of side b)) b)"

text \<open>The two \<^verbatim>\<open>while\<close> loops of \<^verbatim>\<open>trim_depth\<close>: drop the lowest bid, drop the highest ask.\<close>

function trim_bids :: "nat \<Rightarrow> levels \<Rightarrow> levels" where
  "trim_bids d m =
     (if d < length m then
        case bt_first m of None \<Rightarrow> m | Some (k, _) \<Rightarrow> trim_bids d (bt_remove k m)
      else m)"
  by pat_completeness auto

termination trim_bids
  by (relation "measure (length \<circ> snd)") (auto dest!: bt_first_in intro: length_bt_remove_less)

function trim_asks :: "nat \<Rightarrow> levels \<Rightarrow> levels" where
  "trim_asks d m =
     (if d < length m then
        case bt_last m of None \<Rightarrow> m | Some (k, _) \<Rightarrow> trim_asks d (bt_remove k m)
      else m)"
  by pat_completeness auto

termination trim_asks
  by (relation "measure (length \<circ> snd)") (auto dest!: bt_last_in intro: length_bt_remove_less)

declare trim_bids.simps [simp del] trim_asks.simps [simp del]

definition trim_depth :: "order_book \<Rightarrow> order_book" where
  "trim_depth b =
     (case depth b of
        None \<Rightarrow> b
      | Some d \<Rightarrow> b\<lparr>bids := trim_bids d (bids b), asks := trim_asks d (asks b)\<rparr>)"

definition check_not_crossed :: "order_book \<Rightarrow> book_error + unit" where
  "check_not_crossed b =
     (case bt_last (bids b) of
        None \<Rightarrow> Inr ()
      | Some (bid, _) \<Rightarrow>
        (case bt_first (asks b) of
           None \<Rightarrow> Inr ()
         | Some (ask, _) \<Rightarrow> if ask \<le> bid then Inl Crossed else Inr ()))"

definition apply_snapshot ::
    "order_book \<Rightarrow> (price \<times> quantity) list \<Rightarrow> (price \<times> quantity) list \<Rightarrow> w64 option \<Rightarrow>
     (book_error + unit) \<times> order_book" where
  "apply_snapshot b bs as seq =
     (let next = (book_new (price_scale b) (qty_scale b) (depth b))\<lparr>validity := Synchronizing\<rparr>;
          filled = and_then (try_fold (\<lambda>n (p, q). upsert n Bid p q) next bs)
                     (\<lambda>n. try_fold (\<lambda>n (p, q). upsert n Ask p q) n as);
          checked = and_then filled (\<lambda>n.
            let n = trim_depth n in map_ok (\<lambda>_. n) (check_not_crossed n))
      in case checked of
           Inl e \<Rightarrow> (Inl e, b)
         | Inr n \<Rightarrow> (Inr (), n\<lparr>validity := Valid, sequence := seq\<rparr>))"

definition apply_change ::
    "order_book \<Rightarrow> book_side \<Rightarrow> book_operation \<Rightarrow> price \<Rightarrow> quantity option \<Rightarrow>
     (book_error + unit) \<times> order_book" where
  "apply_change b side operation p quantity =
     (if validity b \<noteq> Valid then (Inl (NotValid (validity b)), b)
      else case operation of
        Delete \<Rightarrow> (Inr (), delete b side p)
      | Upsert \<Rightarrow>
        (case quantity of
           None \<Rightarrow> (Inl InvalidDelete, b)
         | Some q \<Rightarrow>
           if coefficient (quantity_fixed q) = 0 then (Inr (), delete b side p)
           else case upsert b side p q of
             Inl e \<Rightarrow> (Inl e, b)
           | Inr b1 \<Rightarrow>
             let b2 = trim_depth b1 in
             (case check_not_crossed b2 of
                Inl e \<Rightarrow> (Inl e, b2\<lparr>validity := Invalid\<rparr>)
              | Inr _ \<Rightarrow> (Inr (), b2))))"

text \<open>
  \<^verbatim>\<open>apply_changes_atomic\<close> in its three passes: normalise every change (\<open>None\<close> for a delete whose price
  does not fit the scale), store the prepared levels while journalling what each touched level held,
  and check the result, restoring the journal when it is crossed.
\<close>

definition prepare_change ::
    "order_book \<Rightarrow> book_change \<Rightarrow> book_error + ((book_side \<times> i128) \<times> i128 option) option" where
  "prepare_change b c =
     (let removal = (case price_key b (bc_price c) of
                       Inl _ \<Rightarrow> None
                     | Inr pk \<Rightarrow> Some ((bc_side c, pk), None))
      in case bc_operation c of
        Delete \<Rightarrow> Inr removal
      | Upsert \<Rightarrow>
        and_then (ok_or (bc_quantity c) InvalidDelete) (\<lambda>q.
          if coefficient (quantity_fixed q) = 0 then Inr removal
          else if coefficient (quantity_fixed q) < 0 then Inl NonPositiveQuantity
          else and_then (price_key b (bc_price c)) (\<lambda>pk.
               and_then (scale_coeff (quantity_fixed q) (qty_scale b)) (\<lambda>qk.
               Inr (Some ((bc_side c, pk), Some qk))))))"

definition prepare_changes ::
    "order_book \<Rightarrow> book_change list \<Rightarrow> book_error + ((book_side \<times> i128) \<times> i128 option) list" where
  "prepare_changes b cs = map_ok (List.map_filter id) (try_map (prepare_change b) cs)"

definition apply_changes_atomic :: "order_book \<Rightarrow> book_change list \<Rightarrow> (book_error + unit) \<times> order_book" where
  "apply_changes_atomic b changes =
     (if validity b \<noteq> Valid then (Inl (NotValid (validity b)), b)
      else case prepare_changes b changes of
        Inl e \<Rightarrow> (Inl e, b)
      | Inr prepared \<Rightarrow>
        (case fold (journal_step level_get level_put) prepared (b, [], {}) of
           (b1, undo, recorded) \<Rightarrow>
           (case check_not_crossed b1 of
              Inl e \<Rightarrow> (Inl e, put_all level_put undo b1)
            | Inr _ \<Rightarrow> (Inr (), trim_depth b1))))"

definition best_bid :: "order_book \<Rightarrow> (price \<times> quantity) option" where
  "best_bid b =
     (if validity b \<noteq> Valid then None
      else map_option (\<lambda>(p, q). (book_price b p, book_qty b q)) (bt_last (bids b)))"

definition best_ask :: "order_book \<Rightarrow> (price \<times> quantity) option" where
  "best_ask b =
     (if validity b \<noteq> Valid then None
      else map_option (\<lambda>(p, q). (book_price b p, book_qty b q)) (bt_first (asks b)))"

definition book_level_at :: "order_book \<Rightarrow> i128 \<times> i128 \<Rightarrow> book_level" where
  "book_level_at b = (\<lambda>(p, q). \<lparr>bl_price = book_price b p, bl_quantity = book_qty b q\<rparr>)"

definition snapshot_levels_bounded :: "order_book \<Rightarrow> usize \<Rightarrow> (book_level list \<times> book_level list) option" where
  "snapshot_levels_bounded b limit =
     (if validity b \<noteq> Valid then None
      else Some (map (book_level_at b) (take limit (rev (bids b))),
                 map (book_level_at b) (take limit (asks b))))"

definition snapshot_levels :: "order_book \<Rightarrow> (book_level list \<times> book_level list) option" where
  "snapshot_levels b = snapshot_levels_bounded b (2 ^ 64 - 1)"

section \<open>Depth trimming and the crossing check\<close>

lemma bt_remove_first: "bt_ok (p # m) \<Longrightarrow> bt_remove (fst p) (p # m) = m"
  by (auto simp: bt_remove_def bt_ok_Cons filter_id_conv)

lemma bt_remove_last: "bt_ok (m @ [p]) \<Longrightarrow> bt_remove (fst p) (m @ [p]) = m"
  by (auto simp: bt_remove_def bt_ok_append filter_id_conv)

text \<open>The loops keep the \<open>d\<close> best levels: the highest bids and the lowest asks.\<close>

lemma trim_bids_eq: "bt_ok m \<Longrightarrow> trim_bids d m = drop (length m - d) m"
proof (induction m)
  case Nil
  show ?case by (simp add: trim_bids.simps)
next
  case (Cons p m)
  have "trim_bids d (p # m) = (if d < length (p # m) then trim_bids d m else p # m)"
    using bt_remove_first [OF Cons.prems]
    by (subst trim_bids.simps) (auto simp: bt_first_def split: prod.split)
  with Cons show ?case by (auto simp: bt_ok_Cons Suc_diff_le)
qed

lemma trim_asks_eq: "bt_ok m \<Longrightarrow> trim_asks d m = take d m"
proof (induction m rule: rev_induct)
  case Nil
  show ?case by (simp add: trim_asks.simps)
next
  case (snoc p m)
  have "trim_asks d (m @ [p]) = (if d < length (m @ [p]) then trim_asks d m else m @ [p])"
    using bt_remove_last [OF snoc.prems]
    by (subst trim_asks.simps) (auto simp: bt_last_def split: prod.split)
  with snoc show ?case by (auto simp: bt_ok_append)
qed

definition book_sorted :: "order_book \<Rightarrow> bool" where
  "book_sorted b \<longleftrightarrow> bt_ok (bids b) \<and> bt_ok (asks b)"

definition uncrossed :: "order_book \<Rightarrow> bool" where
  "uncrossed b \<longleftrightarrow> (\<forall>p \<in> set (bids b). \<forall>q \<in> set (asks b). fst p < fst q)"

lemma check_not_crossed_eq:
  assumes "book_sorted b"
  shows "check_not_crossed b = (if uncrossed b then Inr () else Inl Crossed)"
proof (cases "bids b = [] \<or> asks b = []")
  case True
  then show ?thesis
    by (auto simp: check_not_crossed_def uncrossed_def bt_first_def bt_last_def split: list.split)
next
  case False
  then obtain bs bp bq ap aq as where m: "bids b = bs @ [(bp, bq)]" "asks b = (ap, aq) # as"
    by (metis neq_Nil_conv rev_exhaust surj_pair)
  have "uncrossed b \<longleftrightarrow> bp < ap"
    using assms by (fastforce simp: uncrossed_def book_sorted_def m bt_ok_append bt_ok_Cons)
  then show ?thesis by (auto simp: check_not_crossed_def m bt_last_def bt_first_def)
qed

lemma check_not_crossed_Inr_iff:
  "book_sorted b \<Longrightarrow> check_not_crossed b = Inr u \<longleftrightarrow> uncrossed b"
  by (simp add: check_not_crossed_eq)

lemma trim_depth_eq:
  "book_sorted b \<Longrightarrow> trim_depth b =
     (case depth b of None \<Rightarrow> b
      | Some d \<Rightarrow> b\<lparr>bids := drop (length (bids b) - d) (bids b), asks := take d (asks b)\<rparr>)"
  by (simp add: trim_depth_def book_sorted_def trim_bids_eq trim_asks_eq split: option.split)

text \<open>The best level of each side survives a trim to at least one level.\<close>

lemma trim_depth_uncrossed_iff:
  assumes "book_sorted b" and "depth b \<noteq> Some 0"
  shows "uncrossed (trim_depth b) \<longleftrightarrow> uncrossed b"
proof (cases "depth b")
  case (Some d)
  with assms(2) have d: "0 < d" by simp
  show ?thesis
  proof (cases "bids b = [] \<or> asks b = []")
    case False
    then obtain bs p q as where m: "bids b = bs @ [p]" "asks b = q # as"
      by (metis neq_Nil_conv rev_exhaust)
    have "uncrossed b \<longleftrightarrow> fst p < fst q"
      using assms(1) by (fastforce simp: uncrossed_def book_sorted_def m bt_ok_append bt_ok_Cons)
    moreover have "p \<in> set (drop (length (bids b) - d) (bids b))" "q \<in> set (take d (asks b))"
      using d by (auto simp: m take_Cons' Suc_diff_le)
    moreover have "uncrossed b \<Longrightarrow> uncrossed (trim_depth b)"
      using assms(1) Some by (auto simp: trim_depth_eq uncrossed_def dest!: in_set_dropD in_set_takeD)
    ultimately show ?thesis
      using assms(1) Some by (auto simp: trim_depth_eq uncrossed_def)
  qed (use assms(1) Some in \<open>auto simp: trim_depth_eq uncrossed_def\<close>)
qed (use assms(1) in \<open>simp add: trim_depth_eq\<close>)

section \<open>Exact rescaling to the catalogue scales\<close>

lemma scale_coeff_pos: "scale_coeff v t = Inr c \<Longrightarrow> 0 < coefficient v \<Longrightarrow> 0 < c"
  by (auto simp: scale_coeff_def result_iffs rescale_exact_pos)

section \<open>The level store\<close>

definition same_frame :: "order_book \<Rightarrow> order_book \<Rightarrow> bool" where
  "same_frame b c \<longleftrightarrow> b\<lparr>bids := [], asks := []\<rparr> = c\<lparr>bids := [], asks := []\<rparr>"

lemma level_put_simps [simp]:
  "level_put (Bid, p) q b = b\<lparr>bids := bt_put p q (bids b)\<rparr>"
  "level_put (Ask, p) q b = b\<lparr>asks := bt_put p q (asks b)\<rparr>"
  by (simp_all add: level_put_def)

lemma level_get_simps [simp]:
  "level_get b (Bid, p) = bt_get (bids b) p"
  "level_get b (Ask, p) = bt_get (asks b) p"
  by (simp_all add: level_get_def)

lemma level_put_cases:
  obtains p where "k = (Bid, p)" | p where "k = (Ask, p)"
  by (cases k) (metis book_side.exhaust)

interpretation levels: keyed_store level_get level_put book_sorted same_frame
proof unfold_locales
  fix b c :: order_book and k q
  show "book_sorted b \<Longrightarrow> book_sorted (level_put k q b)"
    by (cases k rule: level_put_cases) (simp_all add: book_sorted_def bt_ok_put)
  show "book_sorted b \<Longrightarrow> level_get (level_put k q b) = (level_get b)(k := q)"
  proof (rule ext)
    fix j
    show "level_get (level_put k q b) j = ((level_get b)(k := q)) j"
      by (cases k rule: level_put_cases; cases j rule: level_put_cases) (simp_all add: bt_get_put)
  qed
  show "same_frame b b" by (simp add: same_frame_def)
  show "same_frame b c \<Longrightarrow> same_frame b (level_put k q c)"
    by (cases k rule: level_put_cases) (simp_all add: same_frame_def)
  assume sorted: "book_sorted b" "book_sorted c" and frame: "same_frame b c"
    and eq: "level_get b = level_get c"
  have "bt_get (bids b) p = bt_get (bids c) p" "bt_get (asks b) p = bt_get (asks c) p" for p
    using fun_cong [OF eq, of "(Bid, p)"] fun_cong [OF eq, of "(Ask, p)"] by simp_all
  then have "bids b = bids c" "asks b = asks c"
    using sorted by (auto simp: book_sorted_def intro!: bt_ext)
  with frame show "b = c" by (cases b; cases c) (simp add: same_frame_def)
qed

lemma frame_fields:
  "same_frame b c \<Longrightarrow> price_scale c = price_scale b \<and> qty_scale c = qty_scale b \<and>
     validity c = validity b \<and> depth c = depth b \<and> sequence c = sequence b"
  by (cases b; cases c) (simp add: same_frame_def)

lemma frame_level_put: "same_frame b (level_put k q b)"
  by (intro levels.frame_put levels.frame_refl)

text \<open>A successful \<^verbatim>\<open>upsert\<close> and a \<^verbatim>\<open>delete\<close> each store one level.\<close>

lemma set_levels_insert:
  "set_levels side (bt_insert p q (levels_of side b)) b = level_put (side, p) (Some q) b"
  by (cases side) (simp_all add: bt_put_def)

lemma set_levels_remove:
  "set_levels side (bt_remove p (levels_of side b)) b = level_put (side, p) None b"
  by (cases side) (simp_all add: bt_put_def)

lemma upsert_Inr_iff:
  "upsert b side p q = Inr c \<longleftrightarrow> 0 < coefficient (quantity_fixed q) \<and>
     (\<exists>pk qk. price_key b p = Inr pk \<and> scale_coeff (quantity_fixed q) (qty_scale b) = Inr qk \<and>
        c = level_put (side, pk) (Some qk) b)"
  by (auto simp: upsert_def result_iffs set_levels_insert)

lemma delete_eq:
  "delete b side p = (case price_key b p of Inl _ \<Rightarrow> b | Inr pk \<Rightarrow> level_put (side, pk) None b)"
  by (simp add: delete_def set_levels_remove split: sum.split)

section \<open>The book invariant\<close>

definition depth_ok :: "order_book \<Rightarrow> bool" where
  "depth_ok b \<longleftrightarrow> (\<forall>d. depth b = Some d \<longrightarrow> length (bids b) \<le> d \<and> length (asks b) \<le> d)"

definition levels_positive :: "order_book \<Rightarrow> bool" where
  "levels_positive b \<longleftrightarrow> (\<forall>p \<in> set (bids b) \<union> set (asks b). 0 < snd p)"

definition book_inv :: "order_book \<Rightarrow> bool" where
  "book_inv b \<longleftrightarrow> book_sorted b \<and> levels_positive b \<and> depth_ok b \<and> (validity b = Valid \<longrightarrow> uncrossed b)"

lemma book_inv_new: "book_inv (book_new ps qs d)"
  by (simp add: book_inv_def book_new_def book_sorted_def levels_positive_def depth_ok_def)

lemma positive_level_put:
  "book_sorted b \<Longrightarrow> levels_positive b \<Longrightarrow> (\<And>x. q = Some x \<Longrightarrow> 0 < x) \<Longrightarrow> levels_positive (level_put k q b)"
  by (cases k rule: level_put_cases; cases q)
    (auto simp: levels_positive_def bt_put_def book_sorted_def set_bt_insert set_bt_remove)

lemma positive_put_all:
  "book_sorted b \<Longrightarrow> levels_positive b \<Longrightarrow> (\<And>k x. (k, Some x) \<in> set kvs \<Longrightarrow> 0 < x) \<Longrightarrow>
     levels_positive (put_all level_put kvs b)"
proof (induction kvs arbitrary: b)
  case (Cons kv kvs)
  obtain k q where kv: "kv = (k, q)" by (cases kv)
  have "levels_positive (level_put k q b)"
    using Cons.prems(3) [of k] by (intro positive_level_put Cons.prems(1,2)) (simp add: kv)
  then show ?case
    unfolding kv put_all_simps
    by (intro Cons.IH) (use Cons.prems in \<open>auto simp: levels.sound_put\<close>)
qed simp

lemma trim_depth_sorted: "book_sorted b \<Longrightarrow> book_sorted (trim_depth b)"
  by (simp add: trim_depth_eq) (simp add: book_sorted_def bt_ok_take bt_ok_drop split: option.split)

lemma trim_depth_positive: "book_sorted b \<Longrightarrow> levels_positive b \<Longrightarrow> levels_positive (trim_depth b)"
  by (auto simp: trim_depth_eq levels_positive_def dest: in_set_takeD in_set_dropD split: option.split)

lemma trim_depth_bounds: "book_sorted b \<Longrightarrow> depth_ok (trim_depth b)"
  by (auto simp: trim_depth_eq depth_ok_def split: option.splits)

lemma trim_depth_uncrossed: "book_sorted b \<Longrightarrow> uncrossed b \<Longrightarrow> uncrossed (trim_depth b)"
  by (auto simp: trim_depth_eq uncrossed_def dest!: in_set_takeD in_set_dropD split: option.split)

lemma trim_depth_fields [simp]:
  "price_scale (trim_depth b) = price_scale b" "qty_scale (trim_depth b) = qty_scale b"
  "validity (trim_depth b) = validity b" "depth (trim_depth b) = depth b"
  "sequence (trim_depth b) = sequence b"
  by (simp_all add: trim_depth_def split: option.split)

lemmas trim_depth_keeps = trim_depth_sorted trim_depth_positive trim_depth_bounds trim_depth_uncrossed

lemma delete_inv: "book_inv b \<Longrightarrow> book_inv (delete b side p)"
proof (cases "price_key b p")
  case (Inr pk)
  assume inv: "book_inv b"
  have len: "length (bt_remove pk m) \<le> d" if "length m \<le> d" for m :: levels and d
    using that length_bt_remove_le [of pk m] by linarith
  show ?thesis
    using inv by (cases side)
      (auto simp: delete_eq Inr bt_put_def book_inv_def book_sorted_def levels_positive_def depth_ok_def
        uncrossed_def bt_ok_remove set_bt_remove len)
qed (simp add: delete_eq)

lemma delete_fields [simp]:
  "validity (delete b side p) = validity b" "depth (delete b side p) = depth b"
  "sequence (delete b side p) = sequence b"
  by (cases side; simp add: delete_eq split: sum.split)+

lemma upsert_keeps:
  assumes "upsert b side p q = Inr c" and "book_sorted b" and "levels_positive b"
  shows "book_sorted c \<and> levels_positive c \<and> same_frame b c"
proof -
  obtain pk qk where "0 < qk" and c: "c = level_put (side, pk) (Some qk) b"
    using assms(1) by (auto simp: upsert_Inr_iff intro: scale_coeff_pos)
  then have "levels_positive c" using assms(2,3) by (auto intro: positive_level_put)
  then show ?thesis
    using c assms(2) by (simp add: levels.sound_put levels.frame_put levels.frame_refl)
qed

lemma fill_keeps:
  assumes "try_fold (\<lambda>n (p, q). upsert n side p q) b xs = Inr c"
    and "book_sorted b \<and> levels_positive b \<and> same_frame r b"
  shows "book_sorted c \<and> levels_positive c \<and> same_frame r c"
  by (rule try_fold_invariant [where I = "\<lambda>n. book_sorted n \<and> levels_positive n \<and> same_frame r n", OF assms])
    (auto dest: upsert_keeps simp: same_frame_def split: prod.splits)

lemma apply_snapshot_Inr:
  assumes "apply_snapshot b bs as seq = (Inr (), c)"
  obtains n where "book_sorted n" "levels_positive n" "uncrossed (trim_depth n)"
    "same_frame (book_new (price_scale b) (qty_scale b) (depth b)) n"
    "and_then (try_fold (\<lambda>n (p, q). upsert n Bid p q) (book_new (price_scale b) (qty_scale b) (depth b)) bs)
       (\<lambda>n. try_fold (\<lambda>n (p, q). upsert n Ask p q) n as) = Inr n"
    "c = (trim_depth n)\<lparr>validity := Valid, sequence := seq\<rparr>"
proof -
  let ?new = "book_new (price_scale b) (qty_scale b) (depth b)"
  have new: "?new\<lparr>validity := Synchronizing\<rparr> = ?new" by (simp add: book_new_def)
  obtain m n where m: "try_fold (\<lambda>n (p, q). upsert n Bid p q) ?new bs = Inr m"
    and n: "try_fold (\<lambda>n (p, q). upsert n Ask p q) m as = Inr n"
    and check: "check_not_crossed (trim_depth n) = Inr ()"
    and c: "c = (trim_depth n)\<lparr>validity := Valid, sequence := seq\<rparr>"
    using assms by (auto simp: apply_snapshot_def new Let_def result_iffs split: sum.splits)
  have "book_sorted ?new \<and> levels_positive ?new \<and> same_frame ?new ?new"
    by (simp add: book_new_def book_sorted_def levels_positive_def levels.frame_refl)
  from fill_keeps [OF n fill_keeps [OF m this]]
  have keeps: "book_sorted n" "levels_positive n" "same_frame ?new n" by simp_all
  then have "uncrossed (trim_depth n)"
    using check trim_depth_sorted check_not_crossed_Inr_iff by blast
  with keeps m n c show ?thesis by (intro that) simp_all
qed

section \<open>Atomic batches\<close>

text \<open>
  What the comment on \<^verbatim>\<open>apply_changes_atomic\<close> promises: mutate a candidate copy of the book, validate it
  once and only then commit it.
\<close>

definition candidate_commit :: "order_book \<Rightarrow> book_change list \<Rightarrow> (book_error + unit) \<times> order_book" where
  "candidate_commit b changes =
     (if validity b \<noteq> Valid then (Inl (NotValid (validity b)), b)
      else case prepare_changes b changes of
        Inl e \<Rightarrow> (Inl e, b)
      | Inr kvs \<Rightarrow>
        let candidate = put_all level_put kvs b in
        if uncrossed candidate then (Inr (), trim_depth candidate) else (Inl Crossed, b))"

lemma apply_changes_atomic_eq:
  assumes "book_sorted b" shows "apply_changes_atomic b changes = candidate_commit b changes"
proof (cases "prepare_changes b changes")
  case (Inr kvs)
  obtain t log seen where run: "fold (journal_step level_get level_put) kvs (b, [], {}) = (t, log, seen)"
    by (cases "fold (journal_step level_get level_put) kvs (b, [], {})") auto
  have t: "t = put_all level_put kvs b"
    using levels.journal_state [of kvs b "[]" "{}"] run by simp
  have "book_sorted t" unfolding t using assms by (rule levels.sound_put_all)
  then have "check_not_crossed t = (if uncrossed t then Inr () else Inl Crossed)"
    by (rule check_not_crossed_eq)
  then show ?thesis
    using levels.rollback [OF assms run] t run
    by (simp add: apply_changes_atomic_def candidate_commit_def Inr)
qed (simp add: apply_changes_atomic_def candidate_commit_def)

lemma prepare_change_positive: "prepare_change b c = Inr (Some (k, Some x)) \<Longrightarrow> 0 < x"
  by (auto simp: prepare_change_def Let_def result_iffs intro: scale_coeff_pos
      split: book_operation.splits sum.splits if_splits)

lemma prepare_changes_positive:
  assumes "prepare_changes b cs = Inr kvs" and "(k, Some x) \<in> set kvs" shows "0 < x"
proof -
  obtain ms where ms: "list_all2 (\<lambda>c m. prepare_change b c = Inr m) cs ms" "kvs = List.map_filter id ms"
    using assms(1) by (auto simp: prepare_changes_def result_iffs try_map_Inr_iff)
  with assms(2) have "Some (k, Some x) \<in> set ms" by (auto simp: map_filter_def)
  with ms(1) obtain c where "prepare_change b c = Inr (Some (k, Some x))"
    by (auto simp: list_all2_conv_all_nth in_set_conv_nth)
  then show ?thesis by (rule prepare_change_positive)
qed

lemma candidate_keeps:
  assumes "prepare_changes b cs = Inr kvs" and "book_sorted b" and "levels_positive b"
  shows "book_sorted (put_all level_put kvs b)" and "levels_positive (put_all level_put kvs b)"
    and "same_frame b (put_all level_put kvs b)"
  using assms prepare_changes_positive [OF assms(1)]
  by (auto intro: levels.sound_put_all positive_put_all levels.frame_put_all levels.frame_refl)

lemma atomic_inv:
  assumes inv: "book_inv b" and run: "apply_changes_atomic b cs = (r, c)"
  shows "book_inv c"
proof (cases "c = b")
  case False
  have sorted: "book_sorted b" and pos: "levels_positive b" using inv by (auto simp: book_inv_def)
  from run False obtain kvs where kvs: "prepare_changes b cs = Inr kvs"
    and c: "c = trim_depth (put_all level_put kvs b)" and un: "uncrossed (put_all level_put kvs b)"
    unfolding apply_changes_atomic_eq [OF sorted] candidate_commit_def
    by (auto simp: Let_def split: if_splits sum.splits)
  show ?thesis
    using candidate_keeps [OF kvs sorted pos] un by (simp add: c book_inv_def trim_depth_keeps)
qed (use inv in simp)

lemma apply_change_inv:
  assumes inv: "book_inv b" and run: "apply_change b side opn p q = (r, c)"
  shows "book_inv c"
proof -
  from run consider "c = b" | "c = delete b side p"
    | n b1 where "upsert b side p n = Inr b1" "c = trim_depth b1" "check_not_crossed c = Inr ()"
    | n b1 where "upsert b side p n = Inr b1" "c = (trim_depth b1)\<lparr>validity := Invalid\<rparr>"
    by (auto simp: apply_change_def Let_def split: if_splits book_operation.splits option.splits sum.splits)
  then show ?thesis
  proof cases
    case 3
    with inv upsert_keeps [OF 3(1)] have "book_sorted b1" "levels_positive b1" by (auto simp: book_inv_def)
    with 3 show ?thesis by (auto simp: book_inv_def trim_depth_keeps check_not_crossed_Inr_iff)
  next
    case 4
    with inv upsert_keeps [OF 4(1)] have b1: "book_sorted b1" "levels_positive b1" by (auto simp: book_inv_def)
    have "book_inv (trim_depth b1\<lparr>validity := Invalid\<rparr>)"
      using trim_depth_keeps(1-3) [OF b1(1)] b1
      by (simp add: book_inv_def book_sorted_def levels_positive_def depth_ok_def)
    with 4 show ?thesis by simp
  qed (use inv in \<open>auto intro: delete_inv\<close>)
qed

lemma apply_snapshot_error: "apply_snapshot b bs as seq = (Inl e, c) \<Longrightarrow> c = b"
  by (auto simp: apply_snapshot_def Let_def split: sum.splits)

lemma apply_snapshot_inv:
  assumes "book_inv b" and run: "apply_snapshot b bs as seq = (r, c)"
  shows "book_inv c"
proof (cases r)
  case (Inr u)
  with run have "apply_snapshot b bs as seq = (Inr (), c)" by simp
  then show ?thesis
  proof (rule apply_snapshot_Inr)
    fix n
    assume n: "book_sorted n" "levels_positive n" "uncrossed (trim_depth n)"
      and c: "c = trim_depth n\<lparr>validity := Valid, sequence := seq\<rparr>"
    show ?thesis
      using n(3) trim_depth_keeps(1-3) [OF n(1)] n(2)
      by (simp add: c book_inv_def book_sorted_def levels_positive_def depth_ok_def uncrossed_def)
  qed
qed (use assms in \<open>auto dest: apply_snapshot_error\<close>)

section \<open>Reachable books\<close>

text \<open>
  A client step is one call of a public mutator.  \<^verbatim>\<open>set_validity(Valid)\<close> is the one call that could
  declare a crossed book valid; its guard is what the only caller (the synchroniser) ensures.
\<close>

inductive book_step :: "order_book \<Rightarrow> order_book \<Rightarrow> bool" where
  snapshot: "apply_snapshot b bs as seq = (r, c) \<Longrightarrow> book_step b c"
| change: "apply_change b side opn p q = (r, c) \<Longrightarrow> book_step b c"
| batch: "apply_changes_atomic b cs = (r, c) \<Longrightarrow> book_step b c"
| cleared: "book_step b (clear b)"
| numbered: "book_step b (set_sequence b n)"
| validated: "v = Valid \<longrightarrow> uncrossed b \<Longrightarrow> book_step b (set_validity b v)"

inductive book_reachable :: "order_book \<Rightarrow> bool" where
  start: "book_reachable (book_new ps qs d)"
| step: "book_reachable b \<Longrightarrow> book_step b c \<Longrightarrow> book_reachable c"

lemma book_step_inv: "book_step b c \<Longrightarrow> book_inv b \<Longrightarrow> book_inv c"
proof (induction rule: book_step.induct)
  case (cleared b)
  then show ?case
    by (simp add: book_inv_def clear_def book_sorted_def levels_positive_def depth_ok_def uncrossed_def)
next
  case (numbered b n)
  then show ?case
    by (simp add: book_inv_def set_sequence_def book_sorted_def levels_positive_def depth_ok_def uncrossed_def)
next
  case (validated v b)
  then show ?case
    by (simp add: book_inv_def set_validity_def book_sorted_def levels_positive_def depth_ok_def uncrossed_def)
qed (auto intro: apply_snapshot_inv apply_change_inv atomic_inv)

lemma book_reachable_inv: "book_reachable b \<Longrightarrow> book_inv b"
  by (induction rule: book_reachable.induct) (auto intro: book_inv_new book_step_inv)

section \<open>Changes one by one and in a batch\<close>

lemma trim_depth_id: "book_sorted b \<Longrightarrow> depth_ok b \<Longrightarrow> trim_depth b = b"
  by (cases b) (auto simp: trim_depth_eq depth_ok_def split: option.split)

lemma uncrossed_removal: "book_sorted b \<Longrightarrow> uncrossed b \<Longrightarrow> uncrossed (level_put k None b)"
  by (cases k rule: level_put_cases) (auto simp: uncrossed_def bt_put_def set_bt_remove)

text \<open>\<^verbatim>\<open>apply_change\<close> in terms of the normalised change that the batch operation computes.\<close>

lemma apply_change_eq:
  assumes "book_sorted b" and "validity b = Valid"
  shows "apply_change b (bc_side c) (bc_operation c) (bc_price c) (bc_quantity c) =
    (case prepare_change b c of
       Inl e \<Rightarrow> (Inl e, b)
     | Inr None \<Rightarrow> (Inr (), b)
     | Inr (Some (k, None)) \<Rightarrow> (Inr (), level_put k None b)
     | Inr (Some (k, Some q)) \<Rightarrow>
       let n = trim_depth (level_put k (Some q) b) in
       if uncrossed n then (Inr (), n) else (Inl Crossed, n\<lparr>validity := Invalid\<rparr>))"
proof -
  have check: "check_not_crossed (trim_depth (level_put k q b)) =
      (if uncrossed (trim_depth (level_put k q b)) then Inr () else Inl Crossed)" for k q
    using assms(1) by (intro check_not_crossed_eq trim_depth_sorted levels.sound_put)
  show ?thesis
  proof (cases "bc_operation c")
    case Delete
    with assms show ?thesis
      by (simp add: apply_change_def prepare_change_def delete_eq split: sum.split)
  next
    case Upsert
    show ?thesis
    proof (cases "bc_quantity c")
      case None
      with Upsert assms show ?thesis by (simp add: apply_change_def prepare_change_def)
    next
      case (Some q)
      then show ?thesis
        using Upsert assms
        by (cases "price_key b (bc_price c)"; cases "scale_coeff (quantity_fixed q) (qty_scale b)")
          (auto simp: apply_change_def prepare_change_def delete_eq upsert_def set_levels_insert
            check Let_def)
    qed
  qed
qed

lemma prepare_changes_single:
  "prepare_changes b [c] = map_ok (\<lambda>m. case m of None \<Rightarrow> [] | Some kv \<Rightarrow> [kv]) (prepare_change b c)"
  by (cases "prepare_change b c") (auto simp: prepare_changes_def map_filter_def split: option.split)

lemma price_key_frame: "same_frame b n \<Longrightarrow> price_key n = price_key b"
  using frame_fields [of b n] by (simp add: price_key_def fun_eq_iff)

lemma prepare_change_frame: "same_frame b n \<Longrightarrow> prepare_change n = prepare_change b"
proof -
  assume "same_frame b n"
  then have eqs: "price_key n = price_key b" "qty_scale n = qty_scale b"
    using frame_fields [of b n] by (simp_all add: price_key_frame)
  show "prepare_change n = prepare_change b"
    unfolding prepare_change_def fun_eq_iff eqs by (rule allI refl)+
qed

lemma prepare_changes_Cons:
  "prepare_changes b (c # cs) = and_then (prepare_change b c)
     (\<lambda>m. map_ok (\<lambda>kvs. (case m of None \<Rightarrow> [] | Some kv \<Rightarrow> [kv]) @ kvs) (prepare_changes b cs))"
  by (cases "prepare_change b c"; cases "try_map (prepare_change b) cs")
    (auto simp: prepare_changes_def map_filter_def split: option.split)

text \<open>The client loop that applies changes one by one, stopping at the first error.\<close>

primrec apply_each :: "order_book \<Rightarrow> book_change list \<Rightarrow> (book_error + unit) \<times> order_book" where
  "apply_each b [] = (Inr (), b)"
| "apply_each b (c # cs) =
     sthen (apply_change b (bc_side c) (bc_operation c) (bc_price c) (bc_quantity c))
       (\<lambda>_ b'. apply_each b' cs)"

lemma apply_change_put:
  assumes "book_inv b" and "depth b = None" and "validity b = Valid"
    and "apply_change b (bc_side c) (bc_operation c) (bc_price c) (bc_quantity c) = (Inr (), n)"
  shows "\<exists>m. prepare_change b c = Inr m \<and>
    n = put_all level_put (case m of None \<Rightarrow> [] | Some kv \<Rightarrow> [kv]) b"
proof -
  have sorted: "book_sorted b" using assms(1) by (simp add: book_inv_def)
  from assms(4) show ?thesis
    unfolding apply_change_eq [OF sorted assms(3)]
    by (auto simp: Let_def trim_depth_def frame_fields [OF frame_level_put] assms(2)
        split: sum.splits option.splits if_splits)
qed

lemma apply_each_put:
  assumes "book_inv b" and "depth b = None" and "validity b = Valid"
    and "apply_each b cs = (Inr (), n)"
  shows "\<exists>kvs. prepare_changes b cs = Inr kvs \<and> n = put_all level_put kvs b \<and> uncrossed n"
  using assms
proof (induction cs arbitrary: b)
  case Nil
  then show ?case by (simp add: prepare_changes_def map_filter_def book_inv_def)
next
  case (Cons c cs)
  from Cons.prems(4) obtain b1
    where b1: "apply_change b (bc_side c) (bc_operation c) (bc_price c) (bc_quantity c) = (Inr (), b1)"
      and rest: "apply_each b1 cs = (Inr (), n)"
    by (auto simp: result_iffs)
  from apply_change_put [OF Cons.prems(1-3) b1] obtain m where m: "prepare_change b c = Inr m"
    and put: "b1 = put_all level_put (case m of None \<Rightarrow> [] | Some kv \<Rightarrow> [kv]) b" by blast
  have frame: "same_frame b b1" unfolding put by (intro levels.frame_put_all levels.frame_refl)
  have "prepare_changes b1 cs = prepare_changes b cs"
    using frame by (simp add: prepare_changes_def prepare_change_frame [of b b1])
  moreover have "book_inv b1" using Cons.prems(1) b1 by (rule apply_change_inv)
  ultimately show ?case
    using Cons.IH [OF _ _ _ rest] frame_fields [OF frame] Cons.prems(2,3) m put
    by (auto simp: prepare_changes_Cons)
qed

section \<open>Contents of a snapshot\<close>

text \<open>A level of the wire message at the catalogue scales.\<close>

definition scaled_level :: "order_book \<Rightarrow> price \<times> quantity \<Rightarrow> book_error + i128 \<times> i128" where
  "scaled_level b = (\<lambda>(p, q).
     if coefficient (quantity_fixed q) \<le> 0 then Inl NonPositiveQuantity
     else and_then (price_key b p) (\<lambda>pk.
          map_ok (Pair pk) (scale_coeff (quantity_fixed q) (qty_scale b))))"

definition best_bids :: "u32 option \<Rightarrow> levels \<Rightarrow> levels" where
  "best_bids d m = (case d of None \<Rightarrow> m | Some n \<Rightarrow> drop (length m - n) m)"

definition best_asks :: "u32 option \<Rightarrow> levels \<Rightarrow> levels" where
  "best_asks d m = (case d of None \<Rightarrow> m | Some n \<Rightarrow> take n m)"

lemma upsert_scaled:
  "upsert b side p q = map_ok (\<lambda>(pk, qk). level_put (side, pk) (Some qk) b) (scaled_level b (p, q))"
  by (cases "price_key b p"; cases "scale_coeff (quantity_fixed q) (qty_scale b)")
    (auto simp: upsert_def scaled_level_def set_levels_insert)

lemma scaled_level_frame: "same_frame b n \<Longrightarrow> scaled_level n = scaled_level b"
  using frame_fields [of b n] by (simp add: scaled_level_def price_key_def fun_eq_iff)

lemma fill_contents:
  assumes "try_fold (\<lambda>n (p, q). upsert n side p q) b xs = Inr c"
  shows "\<exists>ks. try_map (scaled_level b) xs = Inr ks \<and>
    c = put_all level_put (map (\<lambda>(k, q). ((side, k), Some q)) ks) b"
  using assms
proof (induction xs arbitrary: b)
  case (Cons x xs)
  obtain p q where x: "x = (p, q)" by (cases x)
  from Cons.prems obtain n where n: "upsert b side p q = Inr n"
    and rest: "try_fold (\<lambda>n (p, q). upsert n side p q) n xs = Inr c"
    by (auto simp: x result_iffs)
  from n obtain pk qk where l: "scaled_level b (p, q) = Inr (pk, qk)"
    and n: "n = level_put (side, pk) (Some qk) b"
    by (auto simp: upsert_scaled result_iffs)
  have "scaled_level n = scaled_level b"
    unfolding n by (intro scaled_level_frame frame_level_put)
  with Cons.IH [OF rest] l n show ?case by (auto simp: x)
qed simp

lemma put_side_contents:
  "book_sorted b \<Longrightarrow>
     level_get (put_all level_put (map (\<lambda>(k, q). ((side, k), Some q)) ks) b) (s, k) =
     (if s = side then (bt_get (levels_of side b) ++ map_of (rev ks)) k else level_get b (s, k))"
proof (induction ks arbitrary: b)
  case (Cons kq ks)
  obtain j q where kq: "kq = (j, q)" by (cases kq)
  let ?n = "level_put (side, j) (Some q) b"
  have "level_get (put_all level_put (map (\<lambda>(k, q). ((side, k), Some q)) (kq # ks)) b) (s, k) =
      (if s = side then (bt_get (levels_of side ?n) ++ map_of (rev ks)) k else level_get ?n (s, k))"
    using Cons.IH [of ?n] Cons.prems by (simp add: kq levels.sound_put)
  also have "bt_get (levels_of side ?n) = (bt_get (levels_of side b))(j \<mapsto> q)"
    by (cases side) (simp_all add: bt_get_put)
  finally show ?case
    using Cons.prems by (auto simp: kq levels.get_put map_add_def split: option.split)
qed (cases s; cases side; simp add: level_get_def)

section \<open>Prices as decimals\<close>

text \<open>A level's price and quantity as rationals; the scale of the book is common to all of them.\<close>

definition level_price :: "book_level \<Rightarrow> rat" where
  "level_price l = fixed_value (price_fixed (bl_price l))"

definition level_quantity :: "book_level \<Rightarrow> rat" where
  "level_quantity l = fixed_value (quantity_fixed (bl_quantity l))"

definition top_level :: "book_level list \<Rightarrow> (price \<times> quantity) option" where
  "top_level ls = (case ls of [] \<Rightarrow> None | l # _ \<Rightarrow> Some (bl_price l, bl_quantity l))"

lemma level_price_at: "level_price (book_level_at b p) = of_int (fst p) / 10 ^ price_scale b"
  by (simp add: level_price_def book_level_at_def book_price_def fixed_new_def fixed_value_def split: prod.split)

lemma level_quantity_at: "level_quantity (book_level_at b p) = of_int (snd p) / 10 ^ qty_scale b"
  by (simp add: level_quantity_def book_level_at_def book_qty_def fixed_new_def fixed_value_def split: prod.split)

lemma level_quantity_pos: "0 < level_quantity (book_level_at b p) \<longleftrightarrow> 0 < snd p"
  by (simp add: level_quantity_at zero_less_divide_iff)

lemma level_price_less:
  "level_price (book_level_at b p) < level_price (book_level_at b q) \<longleftrightarrow> fst p < fst q"
  by (simp add: level_price_at divide_less_cancel)

lemma bids_descending:
  assumes "bt_ok m"
  shows "sorted_wrt (\<lambda>x y. level_price y < level_price x) (map (book_level_at b) (take n (rev m)))"
proof -
  have "sorted_wrt (\<lambda>x y. fst y < fst x) (rev m)"
    using assms by (simp add: bt_ok_def sorted_wrt_rev sorted_wrt_map)
  then have "sorted_wrt (\<lambda>x y. fst y < fst x) (take n (rev m))" by (rule sorted_wrt_take)
  then show ?thesis by (simp add: sorted_wrt_map level_price_less)
qed

lemma asks_ascending:
  assumes "bt_ok m"
  shows "sorted_wrt (\<lambda>x y. level_price x < level_price y) (map (book_level_at b) (take n m))"
proof -
  have "sorted_wrt (\<lambda>x y. fst x < fst y) (take n m)"
    using assms by (simp add: bt_ok_def sorted_wrt_map sorted_wrt_take)
  then show ?thesis by (simp add: sorted_wrt_map level_price_less)
qed

section \<open>Properties\<close>


definition sample_px :: "int \<Rightarrow> price" where
  "sample_px c = Price \<lparr>coefficient = c, scale = 2\<rparr>"

definition sample_qty :: "int \<Rightarrow> quantity" where
  "sample_qty c = Quantity \<lparr>coefficient = c, scale = 3\<rparr>"

definition sample_book :: order_book where
  "sample_book = \<lparr>price_scale = 2, qty_scale = 3, bids = [(9900, 2000), (10000, 1000)],
     asks = [(10100, 1500), (10200, 2500)], validity = Valid, depth = Some 2, sequence = Some 1\<rparr>"

lemmas sample_defs = sample_px_def sample_qty_def sample_book_def

lemma sample_snapshot:
  "apply_snapshot (book_new 2 3 (Some 2))
     [(sample_px 10000, sample_qty 1000), (sample_px 9900, sample_qty 2000), (sample_px 9800, sample_qty 3000)]
     [(sample_px 10100, sample_qty 1500), (sample_px 10200, sample_qty 2500)] (Some 1) = (Inr (), sample_book)"
  unfolding sample_defs by code_simp

lemma sample_reachable: "book_reachable sample_book"
  by (rule book_reachable.step [OF book_reachable.start book_step.snapshot [OF sample_snapshot]])

definition open_book :: order_book where
  "open_book = \<lparr>price_scale = 2, qty_scale = 3, bids = [(10000, 1000)], asks = [(10100, 1000)],
     validity = Valid, depth = None, sequence = Some 1\<rparr>"

lemma open_reachable: "book_reachable open_book"
proof -
  have "apply_snapshot (book_new 2 3 None) [(sample_px 10000, sample_qty 1000)]
      [(sample_px 10100, sample_qty 1000)] (Some 1) = (Inr (), open_book)"
    unfolding sample_defs open_book_def by code_simp
  then show ?thesis by (rule book_reachable.step [OF book_reachable.start book_step.snapshot])
qed


text \<open>
  C1: \<^verbatim>\<open>apply_changes_atomic\<close>, which mutates the book in place under a journal, behaves exactly as its
  comment promises: as if it built a candidate copy, checked the finished candidate once, and either
  committed it or left the book as it was.  In particular every error (a bad scale, a non-positive or
  missing quantity, a crossed result) leaves the book untouched, although intermediate states of the
  message may be crossed.
\<close>

theorem atomic_is_candidate_commit:
  assumes "book_reachable b"
  shows "apply_changes_atomic b changes = candidate_commit b changes"
  using book_reachable_inv [OF assms] by (intro apply_changes_atomic_eq) (simp add: book_inv_def)

definition sample_change :: "book_side \<Rightarrow> int \<Rightarrow> int \<Rightarrow> book_change" where
  "sample_change side p q =
     \<lparr>bc_side = side, bc_operation = Upsert, bc_price = sample_px p, bc_quantity = Some (sample_qty q)\<rparr>"

theorem atomic_is_candidate_commit_witness:
  "apply_changes_atomic sample_book [sample_change Bid 10000 0, sample_change Bid 10100 5] =
     (Inl Crossed, sample_book)"
proof -
  have "candidate_commit sample_book [sample_change Bid 10000 0, sample_change Bid 10100 5] =
      (Inl Crossed, sample_book)"
    unfolding sample_defs sample_change_def by code_simp
  then show ?thesis unfolding atomic_is_candidate_commit [OF sample_reachable] .
qed

text \<open>
  C9: A committed batch stores, for every level it touches, the last change of that level in message
  order and keeps every other level; a change is a deletion when it says so or when its quantity is
  zero.  With a depth limit the result is the best levels of that table on each side.
\<close>

theorem atomic_commit_contents:
  assumes "book_reachable b" and "apply_changes_atomic b changes = (Inr (), c)"
  shows "\<exists>kvs n. prepare_changes b changes = Inr kvs \<and> book_sorted n \<and>
    level_get n = fold (\<lambda>(k, q) m. m(k := q)) kvs (level_get b) \<and>
    bids c = best_bids (depth b) (bids n) \<and> asks c = best_asks (depth b) (asks n) \<and>
    validity c = Valid \<and> sequence c = sequence b"
proof -
  have sorted: "book_sorted b" and pos: "levels_positive b"
    using book_reachable_inv [OF assms(1)] by (auto simp: book_inv_def)
  obtain kvs where kvs: "prepare_changes b changes = Inr kvs" and v: "validity b = Valid"
    and c: "c = trim_depth (put_all level_put kvs b)"
    using assms(2) unfolding apply_changes_atomic_eq [OF sorted] candidate_commit_def
    by (auto simp: Let_def split: if_splits sum.splits)
  let ?n = "put_all level_put kvs b"
  have n: "book_sorted ?n" "same_frame b ?n" using candidate_keeps [OF kvs sorted pos] by simp_all
  have "bids c = best_bids (depth b) (bids ?n)" "asks c = best_asks (depth b) (asks ?n)"
    using frame_fields [OF n(2)]
    by (simp_all add: c trim_depth_eq n(1) best_bids_def best_asks_def split: option.split)
  with kvs n v c frame_fields [OF n(2)] levels.get_put_all [OF sorted, of kvs] show ?thesis
    by (intro exI [of _ kvs] exI [of _ ?n]) simp
qed

theorem atomic_commit_contents_witness:
  "apply_changes_atomic sample_book [sample_change Bid 10200 5, sample_change Ask 10100 0,
      sample_change Ask 10200 0, sample_change Ask 10300 7] =
     (Inr (), sample_book\<lparr>bids := [(10000, 1000), (10200, 5)], asks := [(10300, 7)]\<rparr>) \<and>
   (\<exists>kvs n. prepare_changes sample_book [sample_change Bid 10200 5, sample_change Ask 10100 0,
      sample_change Ask 10200 0, sample_change Ask 10300 7] = Inr kvs \<and> book_sorted n \<and>
      level_get n = fold (\<lambda>(k, q) m. m(k := q)) kvs (level_get sample_book) \<and>
      [(10000, 1000), (10200, 5)] = best_bids (Some 2) (bids n))"
proof -
  have run: "apply_changes_atomic sample_book [sample_change Bid 10200 5, sample_change Ask 10100 0,
      sample_change Ask 10200 0, sample_change Ask 10300 7] =
     (Inr (), sample_book\<lparr>bids := [(10000, 1000), (10200, 5)], asks := [(10300, 7)]\<rparr>)"
    unfolding sample_defs sample_change_def by code_simp
  from run atomic_commit_contents [OF sample_reachable run] show ?thesis
    by (auto simp: sample_book_def)
qed

text \<open>
  For a book without a depth limit, a batch whose changes succeed one by one through
  \<^verbatim>\<open>apply_change\<close> gives the same book when it is applied as one atomic message.
\<close>

theorem batch_matches_sequence:
  assumes "book_reachable b" and "depth b = None" and "validity b = Valid"
    and "apply_each b changes = (Inr (), c)"
  shows "apply_changes_atomic b changes = (Inr (), c)"
proof -
  have inv: "book_inv b" using assms(1) by (rule book_reachable_inv)
  then have sorted: "book_sorted b" by (simp add: book_inv_def)
  from apply_each_put [OF inv assms(2-4)] obtain kvs where kvs: "prepare_changes b changes = Inr kvs"
    and c: "c = put_all level_put kvs b" "uncrossed c" by blast
  have "depth c = None"
    unfolding c(1) using frame_fields [OF levels.frame_put_all [OF levels.frame_refl]] assms(2) by simp
  with kvs c assms(3) show ?thesis
    unfolding apply_changes_atomic_eq [OF sorted]
    by (simp add: candidate_commit_def trim_depth_def)
qed

theorem batch_matches_sequence_witness:
  "apply_changes_atomic open_book [sample_change Bid 9950 4, sample_change Ask 10100 0] =
     (Inr (), open_book\<lparr>bids := [(9950, 4), (10000, 1000)], asks := []\<rparr>)"
proof -
  have each: "apply_each open_book [sample_change Bid 9950 4, sample_change Ask 10100 0] =
      (Inr (), open_book\<lparr>bids := [(9950, 4), (10000, 1000)], asks := []\<rparr>)"
    unfolding sample_defs open_book_def sample_change_def by code_simp
  have "depth open_book = None" "validity open_book = Valid" by (simp_all add: open_book_def)
  from batch_matches_sequence [OF open_reachable this each] show ?thesis .
qed

text \<open>
  For a single change and a depth limit of at least one level, \<^verbatim>\<open>apply_change\<close> and
  \<^verbatim>\<open>apply_changes_atomic\<close> return the same result, and on success the same book, although one trims
  before it checks for a crossed book and the other after.
\<close>

theorem single_change_agrees:
  assumes "book_reachable b" and "depth b \<noteq> Some 0"
    and "apply_change b (bc_side c) (bc_operation c) (bc_price c) (bc_quantity c) = (r, n)"
    and "apply_changes_atomic b [c] = (r', n')"
  shows "r' = r \<and> (r = Inr () \<longrightarrow> n' = n)"
proof (cases "validity b = Valid")
  case False
  with assms(3,4) show ?thesis by (auto simp: apply_change_def apply_changes_atomic_def)
next
  case True
  have inv: "book_inv b" using assms(1) by (rule book_reachable_inv)
  then have sorted: "book_sorted b" and un: "uncrossed b" and id: "trim_depth b = b"
    using True by (simp_all add: book_inv_def trim_depth_id)
  have put: "uncrossed (trim_depth (level_put k q b)) \<longleftrightarrow> uncrossed (level_put k q b)" for k q
    using frame_fields [OF frame_level_put [of b k q]] assms(2) sorted
    by (intro trim_depth_uncrossed_iff levels.sound_put) simp_all
  have rem: "trim_depth (level_put k None b) = level_put k None b" for k
  proof (rule trim_depth_id)
    show "book_sorted (level_put k None b)" using sorted by (rule levels.sound_put)
    show "depth_ok (level_put k None b)"
      using inv by (cases k rule: level_put_cases)
        (auto simp: book_inv_def depth_ok_def bt_put_def intro: order_trans [OF length_bt_remove_le])
  qed
  let ?one = "apply_change b (bc_side c) (bc_operation c) (bc_price c) (bc_quantity c)"
  consider e where "prepare_change b c = Inl e" | "prepare_change b c = Inr None"
    | k where "prepare_change b c = Inr (Some (k, None))"
    | k q where "prepare_change b c = Inr (Some (k, Some q))"
    by (cases "prepare_change b c") (auto, metis not_None_eq surj_pair)
  then have "fst (apply_changes_atomic b [c]) = fst ?one \<and>
      (fst ?one = Inr () \<longrightarrow> snd (apply_changes_atomic b [c]) = snd ?one)"
    unfolding apply_change_eq [OF sorted True] apply_changes_atomic_eq [OF sorted]
      candidate_commit_def prepare_changes_single
    by cases (simp_all add: Let_def True un id rem put uncrossed_removal [OF sorted un])
  with assms(3,4) show ?thesis by simp
qed

theorem single_change_agrees_witness:
  "fst (apply_change sample_book Bid Upsert (sample_px 10100) (Some (sample_qty 1))) = Inl Crossed \<and>
   fst (apply_changes_atomic sample_book [sample_change Bid 10100 1]) = Inl Crossed"
proof -
  let ?c = "sample_change Bid 10100 1"
  have run: "apply_change sample_book (bc_side ?c) (bc_operation ?c) (bc_price ?c) (bc_quantity ?c) =
      (Inl Crossed, sample_book\<lparr>bids := [(10000, 1000), (10100, 1)], validity := Invalid\<rparr>)"
    unfolding sample_defs sample_change_def by code_simp
  have "depth sample_book \<noteq> Some 0" by (simp add: sample_book_def)
  from single_change_agrees [OF sample_reachable this run surjective_pairing] run show ?thesis
    by (simp add: sample_change_def)
qed

text \<open>
  The published snapshot of a valid book lists bids by strictly falling and asks by strictly rising
  decimal price, every bid below every ask, all quantities positive, at most \<open>limit\<close> levels and at most
  the depth limit per side, and its first levels are what \<^verbatim>\<open>best_bid\<close> and \<^verbatim>\<open>best_ask\<close> return.
\<close>

theorem snapshot_levels_sound:
  assumes "book_reachable b" and "snapshot_levels_bounded b limit = Some (bs, as)"
  shows "sorted_wrt (\<lambda>x y. level_price y < level_price x) bs \<and>
    sorted_wrt (\<lambda>x y. level_price x < level_price y) as \<and>
    (\<forall>x \<in> set bs. \<forall>y \<in> set as. level_price x < level_price y) \<and>
    (\<forall>x \<in> set bs \<union> set as. 0 < level_quantity x) \<and>
    length bs \<le> limit \<and> length as \<le> limit \<and>
    (\<forall>d. depth b = Some d \<longrightarrow> length bs \<le> d \<and> length as \<le> d) \<and>
    (0 < limit \<longrightarrow> best_bid b = top_level bs \<and>
       best_ask b = top_level as)"
proof -
  have inv: "book_inv b" using assms(1) by (rule book_reachable_inv)
  have v: "validity b = Valid" and bs: "bs = map (book_level_at b) (take limit (rev (bids b)))"
    and as: "as = map (book_level_at b) (take limit (asks b))"
    using assms(2) by (auto simp: snapshot_levels_bounded_def split: if_splits)
  have ok: "bt_ok (bids b)" "bt_ok (asks b)" and un: "uncrossed b" and pos: "levels_positive b"
    and d: "depth_ok b"
    using inv v by (auto simp: book_inv_def book_sorted_def)
  have "\<forall>x \<in> set bs. \<forall>y \<in> set as. level_price x < level_price y"
    using un by (auto simp: bs as level_price_less uncrossed_def dest!: in_set_takeD)
  moreover have "\<forall>x \<in> set bs \<union> set as. 0 < level_quantity x"
    using pos set_take_subset [of limit "rev (bids b)"] set_take_subset [of limit "asks b"]
    by (simp add: bs as level_quantity_pos levels_positive_def ball_Un) blast
  moreover have "0 < limit \<longrightarrow> best_bid b = top_level bs \<and>
       best_ask b = top_level as"
    using v by (cases limit; cases "bids b" rule: rev_cases; cases "asks b")
      (auto simp: bs as best_bid_def best_ask_def bt_first_def bt_last_def book_level_at_def top_level_def)
  ultimately show ?thesis
    using d bids_descending [OF ok(1)] asks_ascending [OF ok(2)]
    by (auto simp: bs as depth_ok_def min_def)
qed

theorem snapshot_levels_sound_witness:
  "\<exists>bs as. snapshot_levels_bounded sample_book 1 = Some (bs, as) \<and> length bs = 1 \<and>
     list_all (\<lambda>x. list_all (\<lambda>y. level_price x < level_price y) as) bs \<and>
     best_bid sample_book = top_level bs"
proof -
  let ?bs = "[\<lparr>bl_price = sample_px 10000, bl_quantity = sample_qty 1000\<rparr>]"
  let ?as = "[\<lparr>bl_price = sample_px 10100, bl_quantity = sample_qty 1500\<rparr>]"
  have run: "snapshot_levels_bounded sample_book 1 = Some (?bs, ?as)"
    unfolding sample_defs by code_simp
  from run snapshot_levels_sound [OF sample_reachable run] show ?thesis
    by (intro exI [of _ ?bs] exI [of _ ?as]) simp
qed

text \<open>
  C10: A snapshot replaces the book.  When \<^verbatim>\<open>apply_snapshot\<close> succeeds every level fitted the catalogue
  scales exactly with a positive quantity, each side holds the best \<open>depth\<close> levels of the message (a
  price that occurs twice keeps its last quantity), nothing of the old book survives, and the book is
  valid at the given sequence number; when it fails the old book is unchanged.
\<close>

theorem apply_snapshot_contents:
  assumes "apply_snapshot b bs as seq = (r, c)"
  shows "case r of
      Inl e \<Rightarrow> c = b
    | Inr _ \<Rightarrow> \<exists>kb ka mb ma. try_map (scaled_level b) bs = Inr kb \<and> try_map (scaled_level b) as = Inr ka \<and>
        bt_ok mb \<and> bt_get mb = map_of (rev kb) \<and> bids c = best_bids (depth b) mb \<and>
        bt_ok ma \<and> bt_get ma = map_of (rev ka) \<and> asks c = best_asks (depth b) ma \<and>
        validity c = Valid \<and> sequence c = seq"
proof (cases r)
  case (Inr u)
  let ?new = "book_new (price_scale b) (qty_scale b) (depth b)"
  let ?side = "\<lambda>s ks. map (\<lambda>(k, q). ((s, k), Some q)) ks"
  from assms Inr have "apply_snapshot b bs as seq = (Inr (), c)" by simp
  then obtain n where n: "book_sorted n" "same_frame ?new n" "c = trim_depth n\<lparr>validity := Valid, sequence := seq\<rparr>"
    and fill: "and_then (try_fold (\<lambda>n (p, q). upsert n Bid p q) ?new bs)
       (\<lambda>n. try_fold (\<lambda>n (p, q). upsert n Ask p q) n as) = Inr n"
    by (rule apply_snapshot_Inr)
  from fill obtain m where m: "try_fold (\<lambda>n (p, q). upsert n Bid p q) ?new bs = Inr m"
    and "try_fold (\<lambda>n (p, q). upsert n Ask p q) m as = Inr n" by (auto simp: result_iffs)
  with fill_contents [OF m] fill_contents [of Ask m as n] obtain kb ka
    where kb: "try_map (scaled_level ?new) bs = Inr kb" "m = put_all level_put (?side Bid kb) ?new"
      and ka: "try_map (scaled_level m) as = Inr ka" "n = put_all level_put (?side Ask ka) m" by blast
  have sorted: "book_sorted ?new" by (simp add: book_new_def book_sorted_def)
  then have "book_sorted m" unfolding kb(2) by (rule levels.sound_put_all)
  have scl: "scaled_level m = scaled_level ?new" "scaled_level ?new = scaled_level b"
    unfolding kb(2)
    by (rule scaled_level_frame [OF levels.frame_put_all [OF levels.frame_refl]])
      (simp add: scaled_level_def book_new_def price_key_def fun_eq_iff)
  have new: "bids ?new = []" "asks ?new = []" by (simp_all add: book_new_def)
  have "bt_get (bids n) k = map_of (rev kb) k" "bt_get (asks n) k = map_of (rev ka) k" for k
    using put_side_contents [OF \<open>book_sorted m\<close>, of Ask ka Bid k]
      put_side_contents [OF \<open>book_sorted m\<close>, of Ask ka Ask k]
      put_side_contents [OF sorted, of Bid kb Bid k] put_side_contents [OF sorted, of Bid kb Ask k]
    by (auto simp: ka(2) [symmetric] kb(2) [symmetric] new map_add_def split: option.splits)
  then have gets: "bt_get (bids n) = map_of (rev kb)" "bt_get (asks n) = map_of (rev ka)" by auto
  have "depth n = depth b" using frame_fields [OF n(2)] by (simp add: book_new_def)
  then have "bids c = best_bids (depth b) (bids n)" "asks c = best_asks (depth b) (asks n)"
    by (simp_all add: n(3) trim_depth_eq [OF n(1)] best_bids_def best_asks_def split: option.split)
  with Inr n gets kb(1) ka(1) scl show ?thesis
    by (simp add: book_sorted_def) blast
qed (use assms in \<open>auto dest: apply_snapshot_error\<close>)

theorem apply_snapshot_contents_witness:
  "\<exists>kb mb. try_map (scaled_level (book_new 2 3 (Some 2))) [(sample_px 10000, sample_qty 1000),
       (sample_px 9900, sample_qty 2000), (sample_px 9800, sample_qty 3000)] = Inr kb \<and>
     bt_ok mb \<and> bt_get mb = map_of (rev kb) \<and> bids sample_book = best_bids (Some 2) mb"
  using apply_snapshot_contents [OF sample_snapshot] by (auto simp: book_new_def)

end
