(* ===== verification/Sync.thy ===== *)
theory Sync
  imports Book "HOL-Library.Sublist"
begin

text \<open>
  The book synchroniser (\<^verbatim>\<open>crates/book/src/sync.rs\<close>): the life cycle of one instrument's book, from
  buffering deltas, through a snapshot and the replay of the buffer, to live sequenced deltas.  Sequence
  numbers, clock readings and byte counts are \<^typ>\<open>64 word\<close>s, because \<^verbatim>\<open>last + 1\<close>, \<^verbatim>\<open>sequence + 1\<close> and
  the byte count are unchecked additions.  The public methods are the steps of a transition relation,
  and the safety properties are invariants of its reachable states.
\<close>

section \<open>State and operations\<close>

datatype sync_state = Idle | BufferingDeltas | SnapshotRequested | SnapshotReceived
  | ApplyingBufferedDeltas | Live | GapDetected | InvalidSync | Resynchronizing

record sync_limits =
  max_buffered_messages :: usize
  max_buffered_bytes :: w64
  max_buffered_span_ns :: w64

definition default_sync_limits :: sync_limits where
  "default_sync_limits =
     \<lparr>max_buffered_messages = 10000, max_buffered_bytes = 4 * 1024 * 1024,
      max_buffered_span_ns = 5000000000\<rparr>"

record buffered_delta =
  dl_sequence :: w64
  dl_bytes_len :: w64
  dl_received_mono_ns :: w64
  dl_side :: book_side
  dl_operation :: book_operation
  dl_price :: price
  dl_quantity :: "quantity option"

record book_synchronizer =
  sy_instrument :: instrument_id
  sy_state :: sync_state
  sy_book :: order_book
  sy_limits :: sync_limits
  sy_buffer :: "buffered_delta list"
  sy_buffered_bytes :: w64
  sy_mono_min :: "w64 option"
  sy_mono_max :: "w64 option"
  sy_expected_sequence :: "w64 option"

definition sync_new :: "instrument_id \<Rightarrow> order_book \<Rightarrow> sync_limits \<Rightarrow> book_synchronizer" where
  "sync_new i b l =
     \<lparr>sy_instrument = i, sy_state = Idle, sy_book = b, sy_limits = l, sy_buffer = [],
      sy_buffered_bytes = 0, sy_mono_min = None, sy_mono_max = None, sy_expected_sequence = None\<rparr>"

definition begin_resync :: "book_synchronizer \<Rightarrow> book_synchronizer" where
  "begin_resync s =
     s\<lparr>sy_state := Resynchronizing, sy_book := clear (set_validity (sy_book s) Synchronizing),
       sy_buffer := [], sy_buffered_bytes := 0, sy_mono_min := None, sy_mono_max := None,
       sy_expected_sequence := None\<rparr>"

definition invalidate :: "book_synchronizer \<Rightarrow> book_synchronizer" where
  "invalidate s =
     s\<lparr>sy_state := InvalidSync, sy_book := set_validity (sy_book s) Invalid,
       sy_buffer := [], sy_buffered_bytes := 0, sy_mono_min := None, sy_mono_max := None\<rparr>"

definition request_snapshot :: "book_synchronizer \<Rightarrow> book_synchronizer" where
  "request_snapshot s =
     s\<lparr>sy_state := SnapshotRequested, sy_book := set_validity (sy_book s) Synchronizing\<rparr>"

definition note_gap :: "book_synchronizer \<Rightarrow> book_synchronizer" where
  "note_gap s =
     s\<lparr>sy_state := GapDetected, sy_book := set_validity (sy_book s) Invalid,
       sy_buffer := [], sy_buffered_bytes := 0, sy_mono_min := None, sy_mono_max := None\<rparr>"

definition saturating_sub_u64 :: "w64 \<Rightarrow> w64 \<Rightarrow> w64" where
  "saturating_sub_u64 a b = (if b \<le> a then a - b else 0)"

definition buffer_delta ::
    "book_synchronizer \<Rightarrow> buffered_delta \<Rightarrow> (book_error + unit) \<times> book_synchronizer" where
  "buffer_delta s d =
     (let mono_min = (case sy_mono_min s of
                        None \<Rightarrow> dl_received_mono_ns d | Some v \<Rightarrow> min v (dl_received_mono_ns d));
          mono_max = (case sy_mono_max s of
                        None \<Rightarrow> dl_received_mono_ns d | Some v \<Rightarrow> max v (dl_received_mono_ns d))
      in if max_buffered_messages (sy_limits s) \<le> length (sy_buffer s)
            \<or> max_buffered_bytes (sy_limits s) < sy_buffered_bytes s + dl_bytes_len d
            \<or> max_buffered_span_ns (sy_limits s) < saturating_sub_u64 mono_max mono_min
         then (Inl (NotValid Invalid), invalidate s)
         else
           let s1 = s\<lparr>sy_buffered_bytes := sy_buffered_bytes s + dl_bytes_len d,
                      sy_mono_min := Some mono_min, sy_mono_max := Some mono_max,
                      sy_buffer := sy_buffer s @ [d]\<rparr>
           in (Inr (), if sy_state s = Idle \<or> sy_state s = SnapshotRequested
                       then s1\<lparr>sy_state := BufferingDeltas\<rparr> else s1))"

definition apply_delta :: "order_book \<Rightarrow> buffered_delta \<Rightarrow> (book_error + unit) \<times> order_book" where
  "apply_delta b d = apply_change b (dl_side d) (dl_operation d) (dl_price d) (dl_quantity d)"

text \<open>The replay loop; its result is the last sequence number applied.\<close>

primrec drain_pending ::
    "w64 \<Rightarrow> buffered_delta list \<Rightarrow> book_synchronizer \<Rightarrow> (book_error + w64) \<times> book_synchronizer" where
  "drain_pending lst [] s = (Inr lst, s)"
| "drain_pending lst (d # ds) s =
     (if dl_sequence d \<le> lst then drain_pending lst ds s
      else if dl_sequence d \<noteq> lst + 1 then (Inl (NotValid Invalid), note_gap s)
      else case apply_delta (sy_book s) d of
        (Inl e, b) \<Rightarrow> (Inl e, s\<lparr>sy_book := b\<rparr>)
      | (Inr _, b) \<Rightarrow> drain_pending (dl_sequence d) ds (s\<lparr>sy_book := b\<rparr>))"

definition apply_snapshot_and_drain ::
    "book_synchronizer \<Rightarrow> (price \<times> quantity) list \<Rightarrow> (price \<times> quantity) list \<Rightarrow> w64 \<Rightarrow>
     (book_error + unit) \<times> book_synchronizer" where
  "apply_snapshot_and_drain s0 bs as seq =
     (let s = s0\<lparr>sy_state := SnapshotReceived\<rparr> in
      case apply_snapshot (sy_book s) bs as (Some seq) of
        (Inl e, b) \<Rightarrow> (Inl e, s\<lparr>sy_book := b\<rparr>)
      | (Inr _, b) \<Rightarrow>
        let pending = filter (\<lambda>d. seq < dl_sequence d) (sy_buffer s);
            s1 = s\<lparr>sy_book := b, sy_state := ApplyingBufferedDeltas, sy_buffer := [],
                   sy_buffered_bytes := 0, sy_mono_min := None, sy_mono_max := None\<rparr>
        in sthen (drain_pending seq pending s1) (\<lambda>lst s2.
             (Inr (), s2\<lparr>sy_expected_sequence := Some (lst + 1),
                         sy_book := set_validity (set_sequence (sy_book s2) lst) Valid,
                         sy_state := Live\<rparr>)))"

definition on_live_delta ::
    "book_synchronizer \<Rightarrow> w64 \<Rightarrow> book_side \<Rightarrow> book_operation \<Rightarrow> price \<Rightarrow> quantity option \<Rightarrow>
     (book_error + unit) \<times> book_synchronizer" where
  "on_live_delta s seq side opn p q =
     (if sy_state s \<noteq> Live then (Inl (NotValid (validity (sy_book s))), s)
      else
        let expected = (case sy_expected_sequence s of None \<Rightarrow> seq | Some n \<Rightarrow> n) in
        if seq < expected then (Inr (), s)
        else if expected < seq then (Inl (NotValid Invalid), note_gap s)
        else case apply_change (sy_book s) side opn p q of
          (Inl e, b) \<Rightarrow> (Inl e, s\<lparr>sy_book := b\<rparr>)
        | (Inr _, b) \<Rightarrow>
          (Inr (), s\<lparr>sy_book := set_sequence b seq, sy_expected_sequence := Some (seq + 1)\<rparr>))"

section \<open>The transition relation\<close>

inductive sync_step :: "book_synchronizer \<Rightarrow> book_synchronizer \<Rightarrow> bool" where
  resync: "sync_step s (begin_resync s)"
| invalidated: "sync_step s (invalidate s)"
| requested: "sync_step s (request_snapshot s)"
| gap: "sync_step s (note_gap s)"
| buffered: "buffer_delta s d = (r, t) \<Longrightarrow> sync_step s t"
| drained: "apply_snapshot_and_drain s bs as seq = (r, t) \<Longrightarrow> sync_step s t"
| delivered: "on_live_delta s seq side opn p q = (r, t) \<Longrightarrow> sync_step s t"

inductive sync_reachable :: "book_synchronizer \<Rightarrow> bool" where
  start: "book_reachable b \<Longrightarrow> sync_reachable (sync_new i b l)"
| step: "sync_reachable s \<Longrightarrow> sync_step s t \<Longrightarrow> sync_reachable t"

inductive_cases sync_stepE: "sync_step s t"

section \<open>The book under the synchroniser\<close>

text \<open>A change reads and keeps every field but the levels and the validity.\<close>

lemma upsert_fields:
  "upsert b side p q = Inr c \<Longrightarrow> validity c = validity b \<and> sequence c = sequence b"
  using frame_fields [OF frame_level_put] by (auto simp: upsert_Inr_iff)

lemma apply_change_fields:
  assumes "apply_change b side opn p q = (r, c)"
  shows "sequence c = sequence b" and "r = Inr u \<Longrightarrow> validity b = Valid \<and> validity c = Valid"
    and "validity b \<noteq> Valid \<Longrightarrow> c = b"
  using assms
  by (auto simp: apply_change_def Let_def dest!: upsert_fields
      split: if_splits book_operation.splits option.splits sum.splits)

lemma apply_change_error:
  "apply_change b side opn p q = (Inl e, c) \<Longrightarrow> c = b \<or> validity c = Invalid"
  by (auto simp: apply_change_def Let_def
      split: if_splits book_operation.splits option.splits sum.splits)

lemma upsert_sequence:
  "upsert (b\<lparr>sequence := n\<rparr>) side p q = map_ok (\<lambda>c. c\<lparr>sequence := n\<rparr>) (upsert b side p q)"
  by (cases side; cases "price_key b p"; cases "scale_coeff (quantity_fixed q) (qty_scale b)")
    (simp_all add: upsert_def price_key_def)

lemma apply_change_sequence:
  "apply_change (b\<lparr>sequence := n\<rparr>) side opn p q = apsnd (\<lambda>c. c\<lparr>sequence := n\<rparr>) (apply_change b side opn p q)"
proof -
  have del: "delete (b\<lparr>sequence := n\<rparr>) side p = (delete b side p)\<lparr>sequence := n\<rparr>"
    by (cases side) (simp_all add: delete_def price_key_def split: sum.split)
  have trim: "trim_depth (c\<lparr>sequence := n\<rparr>) = (trim_depth c)\<lparr>sequence := n\<rparr>" for c :: order_book
    by (simp add: trim_depth_def split: option.split)
  have check: "check_not_crossed (c\<lparr>sequence := n\<rparr>) = check_not_crossed c" for c :: order_book
    by (simp add: check_not_crossed_def split: option.split)
  show ?thesis
    by (cases opn; cases q)
      (auto simp: apply_change_def del trim check upsert_sequence Let_def split: sum.split)
qed

lemma not_valid_no_quotes: "validity b \<noteq> Valid \<Longrightarrow> best_bid b = None \<and> best_ask b = None"
  by (simp add: best_bid_def best_ask_def)

section \<open>The replay loop\<close>

definition delta_change :: "buffered_delta \<Rightarrow> book_change" where
  "delta_change d = \<lparr>bc_side = dl_side d, bc_operation = dl_operation d, bc_price = dl_price d,
     bc_quantity = dl_quantity d\<rparr>"

lemma apply_delta_each:
  "apply_each b (map delta_change (d # ds)) = sthen (apply_delta b d) (\<lambda>_ c. apply_each c (map delta_change ds))"
  by (simp add: delta_change_def apply_delta_def)

lemma word_next: "lst < d \<Longrightarrow> d = lst + 1 \<Longrightarrow> unat d = Suc (unat lst)" for lst d :: w64
  using unatSuc [of lst] by (cases "lst + 1 = 0") (auto simp: add.commute [of 1])

text \<open>
  What a completed replay applied: a subsequence of the pending deltas numbered without gap from the
  snapshot on, leaving nothing pending above the last number.
\<close>

lemma drain_pending_Inr:
  assumes "drain_pending lst ds s = (Inr m, t)"
  shows "\<exists>es. subseq es ds \<and> map (\<lambda>d. unat (dl_sequence d)) es = [Suc (unat lst)..<Suc (unat m)] \<and> lst \<le> m \<and>
    apply_each (sy_book s) (map delta_change es) = (Inr (), sy_book t) \<and>
    t = s\<lparr>sy_book := sy_book t\<rparr> \<and> (\<forall>d \<in> set ds. dl_sequence d \<le> m)"
  using assms
proof (induction ds arbitrary: lst s)
  case Nil
  then show ?case by (intro exI [of _ "[]"]) simp
next
  case (Cons d ds)
  show ?case
  proof (cases "dl_sequence d \<le> lst")
    case True
    with Cons.prems have "drain_pending lst ds s = (Inr m, t)" by simp
    from Cons.IH [OF this] obtain es where es: "subseq es ds"
      "map (\<lambda>d. unat (dl_sequence d)) es = [Suc (unat lst)..<Suc (unat m)]" "lst \<le> m"
      "apply_each (sy_book s) (map delta_change es) = (Inr (), sy_book t)"
      "t = s\<lparr>sy_book := sy_book t\<rparr>" "\<forall>d \<in> set ds. dl_sequence d \<le> m" by blast
    moreover have "dl_sequence d \<le> m" using True es(3) by (rule order_trans)
    ultimately show ?thesis by (intro exI [of _ es]) auto
  next
    case False
    with Cons.prems obtain b where nxt: "dl_sequence d = lst + 1"
      and b: "apply_delta (sy_book s) d = (Inr (), b)"
      and rest: "drain_pending (dl_sequence d) ds (s\<lparr>sy_book := b\<rparr>) = (Inr m, t)"
      by (auto split: if_splits prod.splits sum.splits)
    have unat: "unat (dl_sequence d) = Suc (unat lst)" using False nxt by (intro word_next) auto
    from Cons.IH [OF rest] obtain es where es: "subseq es ds"
      "map (\<lambda>d. unat (dl_sequence d)) es = [Suc (unat (dl_sequence d))..<Suc (unat m)]" "dl_sequence d \<le> m"
      "apply_each b (map delta_change es) = (Inr (), sy_book t)"
      "t = s\<lparr>sy_book := b, sy_book := sy_book t\<rparr>" "\<forall>d \<in> set ds. dl_sequence d \<le> m" by simp blast
    have "Suc (unat lst) \<le> unat m" using es(3) unat by (simp add: word_le_nat_alt)
    then have "map (\<lambda>d. unat (dl_sequence d)) (d # es) = [Suc (unat lst)..<Suc (unat m)]"
      using es(2) unat by (simp add: upt_conv_Cons)
    moreover have "apply_each (sy_book s) (map delta_change (d # es)) = (Inr (), sy_book t)"
      unfolding apply_delta_each using b es(4) by simp
    moreover have "lst \<le> m" using False es(3) by (meson le_cases order_trans)
    ultimately show ?thesis
      using es by (intro exI [of _ "d # es"]) simp
  qed
qed

section \<open>Invariants of reachable synchronisers\<close>

lemma drain_pending_reachable:
  "drain_pending lst ds s = (r, t) \<Longrightarrow> book_reachable (sy_book s) \<Longrightarrow> book_reachable (sy_book t)"
proof (induction ds arbitrary: lst s)
  case (Cons d ds)
  have change: "book_reachable b" if "apply_delta (sy_book s) d = (r', b)" for r' b
    using that Cons.prems(2) unfolding apply_delta_def
    by (blast intro: book_reachable.step book_step.change)
  show ?case
  proof (cases "dl_sequence d \<le> lst \<or> dl_sequence d \<noteq> lst + 1")
    case True
    with Cons show ?thesis
      by (auto simp: note_gap_def split: if_splits intro!: book_reachable.step [OF _ book_step.validated])
  next
    case False
    obtain r' b where b: "apply_delta (sy_book s) d = (r', b)" by fastforce
    from change [OF b] False b Cons.prems(1) show ?thesis
      by (cases r') (auto dest!: Cons.IH)
  qed
qed simp

lemma self_book: "\<exists>b. s = s\<lparr>sy_book := b\<rparr>"
  by (rule exI [of _ "sy_book s"]) simp

lemma drain_pending_frame:
  "drain_pending lst ds s = (r, t) \<Longrightarrow>
     (\<exists>b. t = s\<lparr>sy_book := b\<rparr>) \<or> (\<exists>b. t = note_gap (s\<lparr>sy_book := b\<rparr>))"
proof (induction ds arbitrary: lst s)
  case (Cons d ds)
  show ?case
  proof (cases "dl_sequence d \<le> lst \<or> dl_sequence d \<noteq> lst + 1")
    case True
    with Cons show ?thesis by (auto split: if_splits intro: exI [of _ "sy_book s"] self_book)
  next
    case False
    obtain r' b where b: "apply_delta (sy_book s) d = (r', b)" by fastforce
    show ?thesis
    proof (cases r')
      case (Inr u)
      with False b Cons.prems have "drain_pending (dl_sequence d) ds (s\<lparr>sy_book := b\<rparr>) = (r, t)" by auto
      from Cons.IH [OF this] show ?thesis by simp
    qed (use False b Cons.prems in auto)
  qed
qed (auto intro: self_book)

text \<open>
  The invariant: the bounds of the buffer, its byte count and time span, and the numbering of a live
  book.
\<close>

definition buffer_ok :: "book_synchronizer \<Rightarrow> bool" where
  "buffer_ok s \<longleftrightarrow>
     length (sy_buffer s) \<le> max_buffered_messages (sy_limits s) \<and>
     sy_buffered_bytes s = sum_list (map dl_bytes_len (sy_buffer s)) \<and>
     sy_buffered_bytes s \<le> max_buffered_bytes (sy_limits s) \<and>
     (if sy_buffer s = [] then sy_mono_min s = None \<and> sy_mono_max s = None
      else \<exists>lo hi. sy_mono_min s = Some lo \<and> sy_mono_max s = Some hi \<and> lo \<le> hi \<and>
        hi - lo \<le> max_buffered_span_ns (sy_limits s) \<and>
        (\<forall>d \<in> set (sy_buffer s). lo \<le> dl_received_mono_ns d \<and> dl_received_mono_ns d \<le> hi))"

definition numbering_ok :: "book_synchronizer \<Rightarrow> bool" where
  "numbering_ok s \<longleftrightarrow> (sy_state s = Live \<longrightarrow>
     (\<exists>n. sequence (sy_book s) = Some n \<and> sy_expected_sequence s = Some (n + 1)))"

definition sync_inv :: "book_synchronizer \<Rightarrow> bool" where
  "sync_inv s \<longleftrightarrow> book_reachable (sy_book s) \<and> buffer_ok s \<and> numbering_ok s"

lemma buffer_ok_empty:
  "sy_buffer s = [] \<Longrightarrow> sy_buffered_bytes s = 0 \<Longrightarrow> sy_mono_min s = None \<Longrightarrow> sy_mono_max s = None \<Longrightarrow> buffer_ok s"
  by (simp add: buffer_ok_def)

lemma buffer_ok_update [simp]:
  "buffer_ok (s\<lparr>sy_state := x\<rparr>) = buffer_ok s" "buffer_ok (s\<lparr>sy_book := b\<rparr>) = buffer_ok s"
  "buffer_ok (s\<lparr>sy_expected_sequence := e\<rparr>) = buffer_ok s"
  by (simp_all add: buffer_ok_def)

lemma reachable_set_validity: "book_reachable b \<Longrightarrow> v \<noteq> Valid \<Longrightarrow> book_reachable (set_validity b v)"
  by (rule book_reachable.step [OF _ book_step.validated]) simp_all

lemma reset_inv: "sync_inv s \<Longrightarrow> sync_inv (begin_resync s)"
  "sync_inv s \<Longrightarrow> sync_inv (invalidate s)" "sync_inv s \<Longrightarrow> sync_inv (note_gap s)"
  by (auto simp: sync_inv_def numbering_ok_def begin_resync_def invalidate_def note_gap_def
      intro!: buffer_ok_empty reachable_set_validity book_reachable.step [OF _ book_step.cleared])

lemma request_snapshot_inv: "sync_inv s \<Longrightarrow> sync_inv (request_snapshot s)"
  by (simp add: sync_inv_def numbering_ok_def request_snapshot_def reachable_set_validity)

lemma saturating_sub_le: "b \<le> a \<Longrightarrow> saturating_sub_u64 a b = a - b"
  by (simp add: saturating_sub_u64_def)

lemma buffer_delta_ok:
  assumes "buffer_ok s" and "buffer_delta s d = (Inr (), t)" shows "buffer_ok t"
proof (cases "sy_buffer s = []")
  case True
  with assms show ?thesis
    by (auto simp: buffer_delta_def Let_def buffer_ok_def saturating_sub_le split: if_splits)
next
  case False
  with assms(1) obtain lo hi where span: "sy_mono_min s = Some lo" "sy_mono_max s = Some hi" "lo \<le> hi"
    "\<forall>d \<in> set (sy_buffer s). lo \<le> dl_received_mono_ns d \<and> dl_received_mono_ns d \<le> hi"
    by (auto simp: buffer_ok_def)
  let ?lo = "min lo (dl_received_mono_ns d)" and ?hi = "max hi (dl_received_mono_ns d)"
  have le: "?lo \<le> ?hi" using span(3) by (auto simp: min_def max_def)
  have bound: "\<forall>e \<in> set (sy_buffer s @ [d]). ?lo \<le> dl_received_mono_ns e \<and> dl_received_mono_ns e \<le> ?hi"
    using span(4) by (auto simp: min.coboundedI1 max.coboundedI1)
  show ?thesis
    using assms le bound span(1,2) saturating_sub_le [OF le]
    by (auto simp: buffer_delta_def Let_def buffer_ok_def split: if_splits)
qed

lemma buffer_delta_inv:
  assumes inv: "sync_inv s" and run: "buffer_delta s d = (r, t)" shows "sync_inv t"
proof (cases r)
  case (Inl e)
  with run have "t = invalidate s" by (auto simp: buffer_delta_def Let_def split: if_splits)
  with inv show ?thesis by (simp add: reset_inv)
next
  case (Inr u)
  with run inv have "buffer_ok t" by (auto simp: sync_inv_def intro: buffer_delta_ok)
  moreover from run Inr inv have "book_reachable (sy_book t)" "numbering_ok t"
    by (auto simp: buffer_delta_def Let_def sync_inv_def numbering_ok_def split: if_splits)
  ultimately show ?thesis by (simp add: sync_inv_def)
qed

lemma apply_each_valid: "apply_each b cs = (Inr (), c) \<Longrightarrow> validity b = Valid \<Longrightarrow> validity c = Valid"
  by (induction cs arbitrary: b) (auto simp: result_iffs dest: apply_change_fields(2))

lemma drain_pending_valid:
  "drain_pending lst ds s = (Inr m, t) \<Longrightarrow> validity (sy_book s) = Valid \<Longrightarrow> validity (sy_book t) = Valid"
  using drain_pending_Inr [of lst ds s m t] apply_each_valid by blast

lemma apply_snapshot_valid: "apply_snapshot b bs as seq = (Inr u, c) \<Longrightarrow> validity c = Valid"
  by (auto simp: apply_snapshot_def Let_def split: sum.splits)

text \<open>The three ways \<^verbatim>\<open>apply_snapshot_and_drain\<close> can end.\<close>

definition draining :: "book_synchronizer \<Rightarrow> order_book \<Rightarrow> book_synchronizer" where
  "draining s b = s\<lparr>sy_book := b, sy_state := ApplyingBufferedDeltas, sy_buffer := [],
     sy_buffered_bytes := 0, sy_mono_min := None, sy_mono_max := None\<rparr>"

definition pending :: "book_synchronizer \<Rightarrow> w64 \<Rightarrow> buffered_delta list" where
  "pending s seq = filter (\<lambda>d. seq < dl_sequence d) (sy_buffer s)"

lemma apply_snapshot_and_drain_cases:
  assumes "apply_snapshot_and_drain s bs as seq = (r, t)"
  obtains (rejected) e b where "apply_snapshot (sy_book s) bs as (Some seq) = (Inl e, b)" "r = Inl e"
      "t = s\<lparr>sy_state := SnapshotReceived, sy_book := b\<rparr>"
  | (interrupted) b e where "apply_snapshot (sy_book s) bs as (Some seq) = (Inr (), b)" "r = Inl e"
      "drain_pending seq (pending s seq) (draining s b) = (Inl e, t)"
  | (live) b m u where "apply_snapshot (sy_book s) bs as (Some seq) = (Inr (), b)" "r = Inr ()"
      "drain_pending seq (pending s seq) (draining s b) = (Inr m, u)"
      "t = u\<lparr>sy_expected_sequence := Some (m + 1),
         sy_book := set_validity (set_sequence (sy_book u) m) Valid, sy_state := Live\<rparr>"
proof -
  obtain r0 b where snap: "apply_snapshot (sy_book s) bs as (Some seq) = (r0, b)" by fastforce
  show ?thesis
  proof (cases r0)
    case (Inl e)
    with assms snap show ?thesis by (intro rejected) (auto simp: apply_snapshot_and_drain_def)
  next
    case (Inr u)
    obtain r1 s2 where d: "drain_pending seq (pending s seq) (draining s b) = (r1, s2)" by fastforce
    with assms snap Inr have "(r, t) = sthen (r1, s2) (\<lambda>lst s2. (Inr (), s2\<lparr>sy_expected_sequence := Some (lst + 1),
        sy_book := set_validity (set_sequence (sy_book s2) lst) Valid, sy_state := Live\<rparr>))"
      by (simp add: apply_snapshot_and_drain_def draining_def pending_def)
    with snap Inr d show ?thesis by (cases r1) (auto intro: interrupted live)
  qed
qed

lemma drain_inv:
  assumes inv: "sync_inv s" and run: "apply_snapshot_and_drain s bs as seq = (r, t)" shows "sync_inv t"
  using run
proof (cases rule: apply_snapshot_and_drain_cases)
  case (rejected e b)
  then have "b = sy_book s" by (simp add: apply_snapshot_error)
  with rejected inv show ?thesis by (simp add: sync_inv_def numbering_ok_def)
next
  case (interrupted b e)
  have "book_reachable b"
    using inv interrupted(1) by (auto simp: sync_inv_def intro: book_reachable.step book_step.snapshot)
  with drain_pending_reachable [OF interrupted(3)] have "book_reachable (sy_book t)" by (simp add: draining_def)
  moreover have "buffer_ok t \<and> sy_state t \<noteq> Live"
    using drain_pending_frame [OF interrupted(3)]
    by (auto simp: draining_def note_gap_def intro!: buffer_ok_empty)
  ultimately show ?thesis by (simp add: sync_inv_def numbering_ok_def)
next
  case (live b m u)
  have "book_reachable b"
    using inv live(1) by (auto simp: sync_inv_def intro: book_reachable.step book_step.snapshot)
  with drain_pending_reachable [OF live(3)] have reach: "book_reachable (sy_book u)" by (simp add: draining_def)
  have v: "validity (sy_book u) = Valid"
    using drain_pending_valid [OF live(3)] live(1) by (simp add: apply_snapshot_valid draining_def)
  have "book_reachable (set_validity (set_sequence (sy_book u) m) Valid)"
  proof (rule book_reachable.step [OF book_reachable.step [OF reach book_step.numbered] book_step.validated])
    show "Valid = Valid \<longrightarrow> uncrossed (set_sequence (sy_book u) m)"
      using book_reachable_inv [OF reach] v by (simp add: book_inv_def set_sequence_def uncrossed_def)
  qed
  moreover have "u = draining s b\<lparr>sy_book := sy_book u\<rparr>" using drain_pending_Inr [OF live(3)] by blast
  then have "buffer_ok u = buffer_ok (draining s b)" by (metis buffer_ok_update(2))
  then have "buffer_ok u" by (simp add: buffer_ok_empty draining_def)
  ultimately show ?thesis
    by (simp add: live(4) sync_inv_def numbering_ok_def set_validity_def set_sequence_def)
qed

lemma live_inv:
  assumes inv: "sync_inv s" and run: "on_live_delta s seq side opn p q = (r, t)" shows "sync_inv t"
proof -
  obtain r0 b where change: "apply_change (sy_book s) side opn p q = (r0, b)" by fastforce
  have b: "book_reachable b"
    using inv change by (auto simp: sync_inv_def intro: book_reachable.step book_step.change)
  from run change consider "t = s" | "t = note_gap s" | "r0 = r" "t = s\<lparr>sy_book := b\<rparr>"
    | "t = s\<lparr>sy_book := set_sequence b seq, sy_expected_sequence := Some (seq + 1)\<rparr>"
    by (cases r0) (auto simp: on_live_delta_def Let_def split: if_splits)
  then show ?thesis
  proof cases
    case 3
    with inv b apply_change_fields(1) [OF change] show ?thesis by (simp add: sync_inv_def numbering_ok_def)
  next
    case 4
    with inv b show ?thesis
      by (auto simp: sync_inv_def numbering_ok_def intro: book_reachable.step [OF _ book_step.numbered])
        (simp_all add: set_sequence_def)
  qed (use inv in \<open>simp_all add: reset_inv\<close>)
qed

lemma sync_step_inv: "sync_step s t \<Longrightarrow> sync_inv s \<Longrightarrow> sync_inv t"
  by (elim sync_stepE) (auto intro: reset_inv request_snapshot_inv buffer_delta_inv drain_inv live_inv)

lemma sync_reachable_inv: "sync_reachable s \<Longrightarrow> sync_inv s"
proof (induction rule: sync_reachable.induct)
  case (start b i l)
  then show ?case by (simp add: sync_inv_def sync_new_def numbering_ok_def buffer_ok_empty)
qed (rule sync_step_inv)

section \<open>Live delivery\<close>

text \<open>The client loop that hands received deltas to \<^verbatim>\<open>on_live_delta\<close>, stopping at the first error.\<close>

primrec deliver :: "book_synchronizer \<Rightarrow> buffered_delta list \<Rightarrow> (book_error + unit) \<times> book_synchronizer" where
  "deliver s [] = (Inr (), s)"
| "deliver s (d # ds) =
     sthen (on_live_delta s (dl_sequence d) (dl_side d) (dl_operation d) (dl_price d) (dl_quantity d))
       (\<lambda>_ s'. deliver s' ds)"

lemma on_live_delta_Inr:
  assumes "on_live_delta s seq side opn p q = (Inr u, t)" and "sy_expected_sequence s = Some x"
  shows "sy_state s = Live \<and> (seq < x \<and> t = s \<or>
    seq = x \<and> (\<exists>b. apply_change (sy_book s) side opn p q = (Inr (), b) \<and>
      t = s\<lparr>sy_book := set_sequence b x, sy_expected_sequence := Some (x + 1)\<rparr>))"
  using assms
  by (cases "apply_change (sy_book s) side opn p q"; cases "fst (apply_change (sy_book s) side opn p q)")
    (auto simp: on_live_delta_def Let_def split: if_splits)

lemma apply_each_sequence:
  "apply_each (b\<lparr>sequence := n\<rparr>) cs = apsnd (\<lambda>c. c\<lparr>sequence := n\<rparr>) (apply_each b cs)"
proof (induction cs arbitrary: b)
  case (Cons c cs)
  obtain r b' where run: "apply_change b (bc_side c) (bc_operation c) (bc_price c) (bc_quantity c) = (r, b')"
    by fastforce
  with Cons.IH [of b'] show ?case by (cases r) (simp_all add: apply_change_sequence)
qed simp

lemma deliver_Inr:
  assumes "deliver s ds = (Inr (), t)" and "sy_expected_sequence s = Some x" and "unat x + length ds < 2 ^ 64"
  shows "\<exists>es b. subseq es ds \<and> map (\<lambda>d. unat (dl_sequence d)) es = [unat x..<unat x + length es] \<and>
    (\<forall>d \<in> set ds. unat (dl_sequence d) < unat x + length es) \<and>
    apply_each (sy_book s) (map delta_change es) = (Inr (), b) \<and>
    sy_book t = b\<lparr>sequence := sequence (sy_book t)\<rparr> \<and>
    sy_expected_sequence t = Some (x + of_nat (length es))"
  using assms
proof (induction ds arbitrary: s x)
  case Nil
  then show ?case by (intro exI [of _ "[]"]) simp
next
  case (Cons d ds)
  from Cons.prems(1) obtain s1 where
    one: "on_live_delta s (dl_sequence d) (dl_side d) (dl_operation d) (dl_price d) (dl_quantity d) = (Inr (), s1)"
    and rest: "deliver s1 ds = (Inr (), t)"
    by (auto simp: result_iffs)
  show ?case
  proof (cases "dl_sequence d < x")
    case True
    with on_live_delta_Inr [OF one Cons.prems(2)] have "s1 = s" by auto
    with rest have "deliver s ds = (Inr (), t)" by simp
    from Cons.IH [OF this Cons.prems(2)] Cons.prems(3) obtain es b where es: "subseq es ds"
      "map (\<lambda>d. unat (dl_sequence d)) es = [unat x..<unat x + length es]"
      "\<forall>d \<in> set ds. unat (dl_sequence d) < unat x + length es"
      "apply_each (sy_book s) (map delta_change es) = (Inr (), b)"
      "sy_book t = b\<lparr>sequence := sequence (sy_book t)\<rparr>"
      "sy_expected_sequence t = Some (x + of_nat (length es))"
      by auto
    moreover have "unat (dl_sequence d) < unat x" using True by (simp add: word_less_nat_alt)
    ultimately show ?thesis by (intro exI [of _ es] exI [of _ b]) auto
  next
    case False
    with on_live_delta_Inr [OF one Cons.prems(2)] obtain b1 where eq: "dl_sequence d = x"
      and b1: "apply_change (sy_book s) (dl_side d) (dl_operation d) (dl_price d) (dl_quantity d) = (Inr (), b1)"
      and s1: "s1 = s\<lparr>sy_book := set_sequence b1 x, sy_expected_sequence := Some (x + 1)\<rparr>"
      by auto
    have x1: "unat (x + 1) = Suc (unat x)"
      using Cons.prems(3) by (simp add: unat_word_ariths)
    from Cons.IH [OF rest, of "x + 1"] Cons.prems(3) obtain es b where es: "subseq es ds"
      "map (\<lambda>d. unat (dl_sequence d)) es = [Suc (unat x)..<Suc (unat x) + length es]"
      "\<forall>d \<in> set ds. unat (dl_sequence d) < Suc (unat x) + length es"
      "apply_each (set_sequence b1 x) (map delta_change es) = (Inr (), b)"
      "sy_book t = b\<lparr>sequence := sequence (sy_book t)\<rparr>"
      "sy_expected_sequence t = Some (x + 1 + of_nat (length es))"
      by (auto simp: s1 x1)
    obtain r b2 where b2: "apply_each b1 (map delta_change es) = (r, b2)" by fastforce
    with es(4) have r: "r = Inr ()" and b: "b = b2\<lparr>sequence := Some x\<rparr>"
      by (simp_all add: set_sequence_def apply_each_sequence)
    have "apply_each (sy_book s) (map delta_change (d # es)) = (Inr (), b2)"
      unfolding apply_delta_each by (simp add: apply_delta_def b1 b2 r)
    moreover have "sy_book t = b2\<lparr>sequence := sequence (sy_book t)\<rparr>" using es(5) by (simp add: b)
    moreover have "map (\<lambda>d. unat (dl_sequence d)) (d # es) = [unat x..<unat x + length (d # es)]"
      using es(2) by (simp add: eq upt_conv_Cons del: upt_Suc)
    ultimately show ?thesis
      using es(1,3,6) by (intro exI [of _ "d # es"] exI [of _ b2]) (auto simp: eq algebra_simps)
  qed
qed

section \<open>Properties\<close>


text \<open>
  C3: A successful \<^verbatim>\<open>apply_snapshot_and_drain\<close> replays exactly the gap-free continuation of the
  snapshot.  The deltas applied, in buffer order, are numbered \<open>seq + 1, seq + 2, \<dots>\<close> up to the last
  number \<open>m\<close> without gap or duplicate, no buffered delta above \<open>m\<close> is left out, the book is the
  snapshot with those changes applied one by one, and the synchroniser is live, valid and expects
  \<open>m + 1\<close>.
\<close>

theorem drain_exact:
  assumes "apply_snapshot_and_drain s bs as seq = (Inr (), t)"
  shows "\<exists>b0 es b m. apply_snapshot (sy_book s) bs as (Some seq) = (Inr (), b0) \<and>
    subseq es (sy_buffer s) \<and> map (\<lambda>d. unat (dl_sequence d)) es = [Suc (unat seq)..<Suc (unat m)] \<and>
    seq \<le> m \<and> (\<forall>d \<in> set (sy_buffer s). dl_sequence d \<le> m) \<and>
    apply_each b0 (map delta_change es) = (Inr (), b) \<and>
    sy_book t = b\<lparr>sequence := Some m, validity := Valid\<rparr> \<and>
    sy_state t = Live \<and> sy_expected_sequence t = Some (m + 1) \<and> sy_buffer t = []"
  using assms
proof (cases rule: apply_snapshot_and_drain_cases)
  case (live b0 m u)
  from drain_pending_Inr [OF live(3)] obtain es where es: "subseq es (pending s seq)"
    "map (\<lambda>d. unat (dl_sequence d)) es = [Suc (unat seq)..<Suc (unat m)]" "seq \<le> m"
    "apply_each b0 (map delta_change es) = (Inr (), sy_book u)"
    "u = draining s b0\<lparr>sy_book := sy_book u\<rparr>" "\<forall>d \<in> set (pending s seq). dl_sequence d \<le> m"
    by (auto simp: draining_def)
  have "dl_sequence d \<le> m" if "d \<in> set (sy_buffer s)" for d
    using that es(3,6) by (cases "seq < dl_sequence d") (auto simp: pending_def not_less intro: order_trans)
  moreover have "subseq es (sy_buffer s)"
    using es(1) unfolding pending_def by (rule subseq_order.order_trans) (rule subseq_filter_left)
  moreover have "sy_buffer t = []"
    using arg_cong [OF es(5), of sy_buffer] by (simp add: live(4) draining_def)
  ultimately show ?thesis
    using es live by (intro exI [of _ b0] exI [of _ es] exI [of _ "sy_book u"] exI [of _ m])
      (simp add: set_validity_def set_sequence_def)
qed simp_all

definition sample_delta :: "w64 \<Rightarrow> int \<Rightarrow> int \<Rightarrow> buffered_delta" where
  "sample_delta n p q =
     \<lparr>dl_sequence = n, dl_bytes_len = 8, dl_received_mono_ns = 5, dl_side = Bid, dl_operation = Upsert,
      dl_price = sample_px p, dl_quantity = Some (sample_qty q)\<rparr>"

definition sample_sync :: "buffered_delta list \<Rightarrow> book_synchronizer" where
  "sample_sync ds = (sync_new (InstrumentId 1) (book_new 2 3 None) default_sync_limits)\<lparr>sy_buffer := ds\<rparr>"

lemma sample_drain:
  "apply_snapshot_and_drain (sample_sync [sample_delta 1 9000 5, sample_delta 2 9100 6, sample_delta 3 9100 7])
     [(sample_px 9000, sample_qty 1)] [(sample_px 9500, sample_qty 1)] 1 =
   (Inr (), (sample_sync [])\<lparr>sy_state := Live, sy_expected_sequence := Some 4,
      sy_book := \<lparr>price_scale = 2, qty_scale = 3, bids = [(9000, 1), (9100, 7)], asks = [(9500, 1)],
        validity = Valid, depth = None, sequence = Some 3\<rparr>\<rparr>)"
  unfolding sample_sync_def sample_delta_def sample_defs default_sync_limits_def by code_simp

definition live_sync :: book_synchronizer where
  "live_sync = (sample_sync [])\<lparr>sy_state := Live, sy_expected_sequence := Some 4,
      sy_book := \<lparr>price_scale = 2, qty_scale = 3, bids = [(9000, 1), (9100, 7)], asks = [(9500, 1)],
        validity = Valid, depth = None, sequence = Some 3\<rparr>\<rparr>"

lemma live_reachable: "sync_reachable live_sync"
proof -
  have "sync_reachable (sync_new (InstrumentId 1) (book_new 2 3 None) default_sync_limits)"
    by (intro sync_reachable.start book_reachable.start)
  moreover have "buffer_delta (sync_new (InstrumentId 1) (book_new 2 3 None) default_sync_limits)
      (sample_delta 2 9100 6) = (Inr (), (sample_sync [sample_delta 2 9100 6])\<lparr>sy_state := BufferingDeltas,
        sy_buffered_bytes := 8, sy_mono_min := Some 5, sy_mono_max := Some 5\<rparr>)"
    unfolding sample_sync_def sample_delta_def sample_defs default_sync_limits_def by code_simp
  moreover have "buffer_delta ((sample_sync [sample_delta 2 9100 6])\<lparr>sy_state := BufferingDeltas,
        sy_buffered_bytes := 8, sy_mono_min := Some 5, sy_mono_max := Some 5\<rparr>) (sample_delta 3 9100 7) =
      (Inr (), (sample_sync [sample_delta 2 9100 6, sample_delta 3 9100 7])\<lparr>sy_state := BufferingDeltas,
        sy_buffered_bytes := 16, sy_mono_min := Some 5, sy_mono_max := Some 5\<rparr>)"
    unfolding sample_sync_def sample_delta_def sample_defs default_sync_limits_def by code_simp
  moreover have "apply_snapshot_and_drain ((sample_sync [sample_delta 2 9100 6, sample_delta 3 9100 7])
      \<lparr>sy_state := BufferingDeltas, sy_buffered_bytes := 16, sy_mono_min := Some 5, sy_mono_max := Some 5\<rparr>)
      [(sample_px 9000, sample_qty 1)] [(sample_px 9500, sample_qty 1)] 1 = (Inr (), live_sync)"
    unfolding sample_sync_def sample_delta_def sample_defs default_sync_limits_def live_sync_def by code_simp
  ultimately show ?thesis
    by (meson sync_reachable.step sync_step.buffered sync_step.drained)
qed


theorem drain_exact_witness:
  "\<exists>es. subseq es [sample_delta 1 9000 5, sample_delta 2 9100 6, sample_delta 3 9100 7] \<and>
     (\<exists>m. map (\<lambda>d. unat (dl_sequence d)) es = [2..<Suc (unat m)] \<and> Some (m + 1) = Some (4 :: w64))"
  using drain_exact [OF sample_drain] by (auto simp: sample_sync_def numeral_2_eq_2)

text \<open>
  C6: Live deltas are applied exactly once and in order.  When a live synchroniser that expects number
  \<open>x\<close> accepts a list of deltas, the ones it applied are numbered \<open>x, x + 1, \<dots>\<close> without gap or
  duplicate, every other one was an older duplicate, the levels of its book are those of applying these
  changes one by one, and it expects the next number.
\<close>

theorem live_stream_exact:
  assumes "sync_reachable s" and "sy_expected_sequence s = Some x" and "deliver s ds = (Inr (), t)"
    and "unat x + length ds < 2 ^ 64"
  shows "\<exists>es b. subseq es ds \<and> map (\<lambda>d. unat (dl_sequence d)) es = [unat x..<unat x + length es] \<and>
    (\<forall>d \<in> set ds. unat (dl_sequence d) < unat x + length es) \<and>
    apply_each (sy_book s) (map delta_change es) = (Inr (), b) \<and>
    bids (sy_book t) = bids b \<and> asks (sy_book t) = asks b \<and>
    sy_expected_sequence t = Some (x + of_nat (length es))"
proof -
  from deliver_Inr [OF assms(3,2,4)] obtain es b where es: "subseq es ds"
    "map (\<lambda>d. unat (dl_sequence d)) es = [unat x..<unat x + length es]"
    "\<forall>d \<in> set ds. unat (dl_sequence d) < unat x + length es"
    "apply_each (sy_book s) (map delta_change es) = (Inr (), b)"
    "sy_book t = b\<lparr>sequence := sequence (sy_book t)\<rparr>"
    "sy_expected_sequence t = Some (x + of_nat (length es))" by blast
  moreover have "bids (sy_book t) = bids b" "asks (sy_book t) = asks b"
    using arg_cong [OF es(5), of bids] arg_cong [OF es(5), of asks] by simp_all
  ultimately show ?thesis by blast
qed

theorem live_stream_exact_witness:
  "\<exists>es t. subseq es [sample_delta 3 9100 7, sample_delta 4 9200 1, sample_delta 5 9200 0] \<and>
     map (\<lambda>d. unat (dl_sequence d)) es = [4..<4 + length es] \<and>
     deliver live_sync [sample_delta 3 9100 7, sample_delta 4 9200 1, sample_delta 5 9200 0] = (Inr (), t)"
proof -
  have run: "deliver live_sync [sample_delta 3 9100 7, sample_delta 4 9200 1, sample_delta 5 9200 0] =
      (Inr (), live_sync\<lparr>sy_expected_sequence := Some 6,
        sy_book := (sy_book live_sync)\<lparr>sequence := Some 5\<rparr>\<rparr>)"
    unfolding sample_sync_def sample_delta_def sample_defs default_sync_limits_def live_sync_def by code_simp
  have "sy_expected_sequence live_sync = Some 4" by (simp add: live_sync_def)
  from live_stream_exact [OF live_reachable this run] run show ?thesis by auto
qed

text \<open>
  C7: Live processing fails closed.  When \<^verbatim>\<open>on_live_delta\<close> returns an error, either the book is left
  exactly as it was, or it no longer answers queries at all; a gap always does the latter and moves the
  synchroniser to \<open>GapDetected\<close> with an empty buffer.
\<close>

theorem live_error_fails_closed:
  assumes "on_live_delta s seq side opn p q = (Inl e, t)"
  shows "(sy_book t = sy_book s \<or> best_bid (sy_book t) = None \<and> best_ask (sy_book t) = None \<and>
      snapshot_levels (sy_book t) = None) \<and>
    (sy_state s = Live \<and> (\<exists>x. sy_expected_sequence s = Some x \<and> x < seq) \<longrightarrow>
      sy_state t = GapDetected \<and> validity (sy_book t) = Invalid \<and> sy_buffer t = [])"
proof -
  have "sy_book t = sy_book s \<or> validity (sy_book t) = Invalid"
    using assms by (cases "apply_change (sy_book s) side opn p q")
      (auto simp: on_live_delta_def Let_def note_gap_def set_validity_def dest: apply_change_error
        split: if_splits sum.splits)
  moreover have "sy_state t = GapDetected \<and> validity (sy_book t) = Invalid \<and> sy_buffer t = []"
    if "sy_state s = Live" "sy_expected_sequence s = Some x" "x < seq" for x
    using assms that by (auto simp: on_live_delta_def note_gap_def set_validity_def split: if_splits)
  ultimately show ?thesis
    by (auto simp: not_valid_no_quotes snapshot_levels_def snapshot_levels_bounded_def)
qed

theorem live_error_fails_closed_witness:
  "on_live_delta live_sync 6 Bid Upsert (sample_px 9200) (Some (sample_qty 1)) =
     (Inl (NotValid Invalid), note_gap live_sync) \<and>
   sy_state (note_gap live_sync) = GapDetected \<and> validity (sy_book (note_gap live_sync)) = Invalid"
proof -
  have run: "on_live_delta live_sync 6 Bid Upsert (sample_px 9200) (Some (sample_qty 1)) =
      (Inl (NotValid Invalid), note_gap live_sync)"
    unfolding on_live_delta_def by (simp add: live_sync_def)
  from run live_error_fails_closed [OF run] show ?thesis by (simp add: live_sync_def)
qed

text \<open>
  C8: Once a book has lost its validity (a gap, an overflow, a crossed update, an explicit
  invalidation), the only synchroniser call after which it is valid again is
  \<^verbatim>\<open>apply_snapshot_and_drain\<close> with a snapshot that the book accepted.
\<close>

theorem only_snapshot_validates:
  assumes "sync_step s t" and "validity (sy_book s) \<noteq> Valid" and "validity (sy_book t) = Valid"
  shows "\<exists>bs as seq r b. apply_snapshot_and_drain s bs as seq = (r, t) \<and>
    apply_snapshot (sy_book s) bs as (Some seq) = (Inr (), b)"
  using assms(1)
proof cases
  case (buffered d r)
  with assms(2,3) show ?thesis
    by (auto simp: buffer_delta_def Let_def invalidate_def set_validity_def split: if_splits)
next
  case (drained bs as seq r)
  from drained show ?thesis
  proof (cases rule: apply_snapshot_and_drain_cases)
    case (rejected e b)
    with apply_snapshot_error [OF rejected(1)] assms(2,3) show ?thesis by simp
  qed (use drained in blast)+
next
  case (delivered seq side opn p q r)
  with assms(2,3) show ?thesis
    by (cases "apply_change (sy_book s) side opn p q")
      (auto simp: on_live_delta_def Let_def note_gap_def set_validity_def dest: apply_change_fields
        split: if_splits sum.splits)
qed (use assms(2,3) in \<open>simp_all add: begin_resync_def invalidate_def request_snapshot_def note_gap_def
      clear_def set_validity_def\<close>)

theorem only_snapshot_validates_witness:
  "\<exists>t bs as seq r b. validity (sy_book (note_gap live_sync)) \<noteq> Valid \<and> validity (sy_book t) = Valid \<and>
     apply_snapshot_and_drain (note_gap live_sync) bs as seq = (r, t) \<and>
     apply_snapshot (sy_book (note_gap live_sync)) bs as (Some seq) = (Inr (), b)"
proof -
  let ?t = "live_sync\<lparr>sy_expected_sequence := Some 8, sy_book := \<lparr>price_scale = 2, qty_scale = 3,
      bids = [(9000, 1)], asks = [], validity = Valid, depth = None, sequence = Some 7\<rparr>\<rparr>"
  have "apply_snapshot_and_drain (note_gap live_sync) [(sample_px 9000, sample_qty 1)] [] 7 = (Inr (), ?t)"
    unfolding sample_sync_def sample_defs default_sync_limits_def live_sync_def by code_simp
  then have step: "sync_step (note_gap live_sync) ?t" by (rule sync_step.drained)
  have "validity (sy_book (note_gap live_sync)) \<noteq> Valid" "validity (sy_book ?t) = Valid"
    by (simp_all add: note_gap_def set_validity_def)
  with only_snapshot_validates [OF step] show ?thesis by blast
qed


end
