(* ===== verification/Adapter_Api.thy ===== *)
theory Adapter_Api
  imports Model
begin

text \<open>
  The actions a venue session asks the engine to execute, and the bounded sink that collects them
  (\<^verbatim>\<open>crates/adapter-api/src/session.rs\<close>).  The contract of a sink that drops the newest item when it is
  full is the locale \<open>drop_newest_sink\<close>; the sink of this crate and the dispatcher queue under its
  \<^verbatim>\<open>DropNewest\<close> policy are its two instances.
\<close>

section \<open>Session inputs and actions\<close>

type_synonym bytes = "char list"

datatype disconnect_reason = RemoteClose | TransportError | HeartbeatTimeout | LocalStop
  | ReconnectRequested

datatype session_command = Subscribe "string list" | Unsubscribe "string list" | Replace "string list"
  | Resync instrument_id | Stop

datatype http_method = HttpGet | HttpPost | HttpPut | HttpDelete

record http_request_spec =
  hq_id :: w64
  hq_method :: http_method
  hq_url :: string
  hq_headers :: "(string \<times> string) list"
  hq_body :: "bytes option"

record http_response =
  hr_status :: u16
  hr_headers :: "(string \<times> string) list"
  hr_body :: bytes

record timer_spec =
  tm_timer_id :: w64
  tm_fire_at :: timestamp_ns

datatype session_input =
    Connected timestamp_ns
  | Disconnected disconnect_reason timestamp_ns
  | TextFrame bytes frame_stamp
  | BinaryFrame bytes frame_stamp
  | Pong bytes frame_stamp
  | HttpResponseInput w64 http_response frame_stamp
  | Timer w64 timestamp_ns
  | Control session_command

datatype subscription_wire_action = WireText bytes | WireBinary bytes | WirePing bytes

datatype reconnect_reason = ReconnectProtocol | ReconnectSequenceGap | ReconnectChecksumMismatch
  | ReconnectHeartbeat | ReconnectControl

datatype stop_reason = StopControl | StopFatalProtocol | StopUnsupported

datatype sensitive_bytes = SensitiveBytes (expose: bytes)

record event_batch =
  eb_session :: session_id
  eb_frame_seq :: w64
  eb_events :: "event_envelope list"

datatype session_action =
    SendText bytes
  | SendSensitiveText sensitive_bytes
  | SendBinary bytes
  | SendPing bytes
  | RequestHttp http_request_spec
  | ScheduleTimer timer_spec
  | CancelTimer w64
  | EmitBatch event_batch
  | EmitSystem system_event
  | MarkLive
  | MarkDegraded
  | ResyncInstrument instrument_id
  | Reconnect reconnect_reason
  | DisableSubscription subscription_id
  | StopSession stop_reason

section \<open>The action buffer\<close>

record action_buffer =
  ab_actions :: "session_action list"
  ab_capacity :: usize
  ab_dropped :: w64

definition DEFAULT_ACTION_BUFFER_CAPACITY :: usize where
  "DEFAULT_ACTION_BUFFER_CAPACITY = 1024"

definition action_buffer_with_capacity :: "usize \<Rightarrow> action_buffer" where
  "action_buffer_with_capacity c = \<lparr>ab_actions = [], ab_capacity = max c 1, ab_dropped = 0\<rparr>"

definition action_buffer_new :: action_buffer where
  "action_buffer_new = action_buffer_with_capacity DEFAULT_ACTION_BUFFER_CAPACITY"

definition action_push :: "session_action \<Rightarrow> action_buffer \<Rightarrow> action_buffer" where
  "action_push a b =
     (if ab_capacity b \<le> length (ab_actions b) then b\<lparr>ab_dropped := ab_dropped b + 1\<rparr>
      else b\<lparr>ab_actions := ab_actions b @ [a]\<rparr>)"

definition action_extend :: "session_action list \<Rightarrow> action_buffer \<Rightarrow> action_buffer" where
  "action_extend as b = fold action_push as b"

definition action_drain :: "action_buffer \<Rightarrow> session_action list \<times> action_buffer" where
  "action_drain b = (ab_actions b, b\<lparr>ab_actions := []\<rparr>)"

definition take_dropped :: "action_buffer \<Rightarrow> w64 \<times> action_buffer" where
  "take_dropped b = (ab_dropped b, b\<lparr>ab_dropped := 0\<rparr>)"

definition action_clear :: "action_buffer \<Rightarrow> action_buffer" where
  "action_clear b = b\<lparr>ab_actions := []\<rparr>"

section \<open>Sinks that drop the newest item\<close>

locale drop_newest_sink =
  fixes content :: "'q \<Rightarrow> 'a list"
    and bound :: "'q \<Rightarrow> nat"
    and lost :: "'q \<Rightarrow> w64"
    and push :: "'a \<Rightarrow> 'q \<Rightarrow> 'q"
    and eligible :: "'q \<Rightarrow> bool"
  assumes push_room: "eligible q \<Longrightarrow> length (content q) < bound q \<Longrightarrow>
      content (push x q) = content q @ [x] \<and> lost (push x q) = lost q"
    and push_full: "eligible q \<Longrightarrow> bound q \<le> length (content q) \<Longrightarrow>
      content (push x q) = content q \<and> lost (push x q) = lost q + 1"
    and push_keeps: "eligible q \<Longrightarrow> eligible (push x q) \<and> bound (push x q) = bound q"
begin

text \<open>Pushing a list keeps the first items up to the bound and counts the rest.\<close>

lemma push_all:
  assumes "eligible q" and "length (content q) \<le> bound q"
  shows "content (fold push xs q) = take (bound q) (content q @ xs) \<and>
    lost (fold push xs q) = lost q + of_nat (length (content q) + length xs - bound q)"
  using assms
proof (induction xs arbitrary: q)
  case (Cons x xs)
  show ?case
  proof (cases "length (content q) < bound q")
    case True
    with Cons.prems Cons.IH [of "push x q"] show ?thesis by (simp add: push_room push_keeps)
  next
    case False
    with Cons.prems have full: "length (content q) = bound q" by simp
    with Cons.prems Cons.IH [of "push x q"] show ?thesis by (simp add: push_full push_keeps)
  qed
qed simp

end

interpretation action_sink: drop_newest_sink ab_actions ab_capacity ab_dropped action_push "\<lambda>_. True"
  by unfold_locales (simp_all add: action_push_def)

text \<open>
  The action buffer never holds more than its capacity, which is at least one: from an empty
  buffer, extending it with any actions keeps the first ones in order up to the capacity and counts
  exactly the others as dropped.
\<close>

theorem action_buffer_keeps_first:
  "ab_actions (action_extend as (action_buffer_with_capacity c)) = take (max c 1) as \<and>
   fst (take_dropped (action_extend as (action_buffer_with_capacity c))) =
     of_nat (length as - max c 1)"
  using action_sink.push_all [of "action_buffer_with_capacity c" as]
  by (simp add: action_extend_def action_buffer_with_capacity_def take_dropped_def)

end
