(* ===== verification/Dispatch.thy ===== *)
theory Dispatch
  imports Adapter_Api "HOL-Library.Sublist"
begin

text \<open>
  The bounded dispatcher queues (\<^verbatim>\<open>crates/dispatch/src/queue.rs\<close>).  A queue is its items in order, its
  capacity, its overflow policy and a \<^verbatim>\<open>u64\<close> count of dropped items (a \<^typ>\<open>64 word\<close>: the increment is
  unchecked).  \<^verbatim>\<open>Instant::now()\<close> is a parameter, the sequence of the readings of a clock, and the busy
  wait of \<^verbatim>\<open>push_with_deadline\<close> is a partial function of it whose termination is a theorem.
\<close>

section \<open>State and operations\<close>

datatype dispatch_error = FailEngineError | DeadlineExceeded | UnsupportedPolicy overflow_policy

datatype push_outcome = Accepted | DroppedNewest | DroppedOldest usize

record 'a bounded_queue =
  q_capacity :: usize
  q_policy :: overflow_policy
  q_items :: "'a list"
  q_dropped_total :: w64

text \<open>\<^verbatim>\<open>new\<close> panics (\<open>None\<close>) on a zero capacity.\<close>

definition queue_new :: "usize \<Rightarrow> overflow_policy \<Rightarrow> 'a bounded_queue option" where
  "queue_new c p =
     (if c > 0 then Some \<lparr>q_capacity = c, q_policy = p, q_items = [], q_dropped_total = 0\<rparr> else None)"

definition pop_front :: "'a bounded_queue \<Rightarrow> 'a option \<times> 'a bounded_queue" where
  "pop_front q = (case q_items q of [] \<Rightarrow> (None, q) | x # xs \<Rightarrow> (Some x, q\<lparr>q_items := xs\<rparr>))"

definition front :: "'a bounded_queue \<Rightarrow> 'a option" where
  "front q = (case q_items q of [] \<Rightarrow> None | x # _ \<Rightarrow> Some x)"

definition try_push :: "'a bounded_queue \<Rightarrow> 'a \<Rightarrow> (dispatch_error + push_outcome) \<times> 'a bounded_queue" where
  "try_push q x =
     (if length (q_items q) < q_capacity q then (Inr Accepted, q\<lparr>q_items := q_items q @ [x]\<rparr>)
      else case q_policy q of
        DropNewest \<Rightarrow> (Inr DroppedNewest, q\<lparr>q_dropped_total := q_dropped_total q + 1\<rparr>)
      | DropOldest \<Rightarrow>
        (Inr (DroppedOldest 1),
         q\<lparr>q_items := q_items (snd (pop_front q)) @ [x], q_dropped_total := q_dropped_total q + 1\<rparr>)
      | FailEngine \<Rightarrow> (Inl FailEngineError, q)
      | BlockWithDeadline \<Rightarrow> (Inl DeadlineExceeded, q)
      | other \<Rightarrow> (Inl (UnsupportedPolicy other), q))"

text \<open>
  The wait loop; \<open>now n\<close> is the clock's \<open>n\<close>-th reading.  The loop holds \<^verbatim>\<open>&mut self\<close>, so no other call
  changes the queue between two iterations.
\<close>

partial_function (option) push_wait ::
    "(nat \<Rightarrow> nat) \<Rightarrow> nat \<Rightarrow> nat \<Rightarrow> 'a bounded_queue \<Rightarrow> 'a \<Rightarrow>
     ((dispatch_error + push_outcome) \<times> 'a bounded_queue) option" where
  "push_wait now n deadline q x =
     (if length (q_items q) < q_capacity q then Some (Inr Accepted, q\<lparr>q_items := q_items q @ [x]\<rparr>)
      else if deadline \<le> now n then Some (Inl DeadlineExceeded, q)
      else push_wait now (Suc n) deadline q x)"

definition push_with_deadline ::
    "(nat \<Rightarrow> nat) \<Rightarrow> 'a bounded_queue \<Rightarrow> 'a \<Rightarrow> nat \<Rightarrow>
     ((dispatch_error + push_outcome) \<times> 'a bounded_queue) option" where
  "push_with_deadline now q x deadline =
     (if q_policy q \<noteq> BlockWithDeadline then Some (try_push q x) else push_wait now 0 deadline q x)"

text \<open>The two lanes of the dispatcher and their drains, which pop until the queue is empty.\<close>

record event_dispatcher =
  batches :: "event_batch bounded_queue"
  systems :: "system_event bounded_queue"

definition dispatcher_new :: "usize \<Rightarrow> usize \<Rightarrow> overflow_policy \<Rightarrow> event_dispatcher option" where
  "dispatcher_new bc sc p =
     (case queue_new bc p of
        None \<Rightarrow> None
      | Some b \<Rightarrow> map_option (\<lambda>s. \<lparr>batches = b, systems = s\<rparr>) (queue_new sc p))"

definition push_batch ::
    "event_dispatcher \<Rightarrow> event_batch \<Rightarrow> (dispatch_error + push_outcome) \<times> event_dispatcher" where
  "push_batch d b = apsnd (\<lambda>q. d\<lparr>batches := q\<rparr>) (try_push (batches d) b)"

definition push_system ::
    "event_dispatcher \<Rightarrow> system_event \<Rightarrow> (dispatch_error + push_outcome) \<times> event_dispatcher" where
  "push_system d e = apsnd (\<lambda>q. d\<lparr>systems := q\<rparr>) (try_push (systems d) e)"

definition pop_batch :: "event_dispatcher \<Rightarrow> event_batch option \<times> event_dispatcher" where
  "pop_batch d = apsnd (\<lambda>q. d\<lparr>batches := q\<rparr>) (pop_front (batches d))"

definition pop_system :: "event_dispatcher \<Rightarrow> system_event option \<times> event_dispatcher" where
  "pop_system d = apsnd (\<lambda>q. d\<lparr>systems := q\<rparr>) (pop_front (systems d))"

function drain_queue :: "'a bounded_queue \<Rightarrow> 'a list \<times> 'a bounded_queue" where
  "drain_queue q =
     (case pop_front q of
        (None, q') \<Rightarrow> ([], q')
      | (Some x, q') \<Rightarrow> apfst ((#) x) (drain_queue q'))"
  by pat_completeness auto

termination drain_queue
  by (relation "measure (\<lambda>q. length (q_items q))") (auto simp: pop_front_def split: list.splits)

declare drain_queue.simps [simp del]

definition drain_batches :: "event_dispatcher \<Rightarrow> event_batch list \<times> event_dispatcher" where
  "drain_batches d = apsnd (\<lambda>q. d\<lparr>batches := q\<rparr>) (drain_queue (batches d))"

definition drain_systems :: "event_dispatcher \<Rightarrow> system_event list \<times> event_dispatcher" where
  "drain_systems d = apsnd (\<lambda>q. d\<lparr>systems := q\<rparr>) (drain_queue (systems d))"

section \<open>Laws of the queue\<close>

lemma drain_queue_eq: "drain_queue q = (q_items q, q\<lparr>q_items := []\<rparr>)"
proof (induction q rule: drain_queue.induct)
  case (1 q)
  show ?case
  proof (cases "q_items q")
    case (Cons x xs)
    then have pop: "pop_front q = (Some x, q\<lparr>q_items := xs\<rparr>)" by (simp add: pop_front_def)
    with 1 [OF pop [symmetric] refl] Cons show ?thesis by (subst drain_queue.simps) simp
  qed (subst drain_queue.simps, simp add: pop_front_def)
qed

interpretation queue_sink: drop_newest_sink q_items q_capacity q_dropped_total
    "\<lambda>x q. snd (try_push q x)" "\<lambda>q. q_policy q = DropNewest"
  by unfold_locales (simp_all add: try_push_def)

lemma try_push_fields [simp]:
  "q_capacity (snd (try_push q x)) = q_capacity q" "q_policy (snd (try_push q x)) = q_policy q"
  by (simp_all add: try_push_def split: overflow_policy.split)

lemma try_push_bound:
  "length (q_items q) \<le> q_capacity q \<Longrightarrow> 0 < q_capacity q \<Longrightarrow>
     length (q_items (snd (try_push q x))) \<le> q_capacity q"
  by (cases "q_items q") (auto simp: try_push_def pop_front_def split: overflow_policy.split)

lemma try_push_room:
  "length (q_items q) < q_capacity q \<Longrightarrow> try_push q x = (Inr Accepted, q\<lparr>q_items := q_items q @ [x]\<rparr>)"
  by (simp add: try_push_def)

lemma push_all_room:
  "length (q_items q) + length xs \<le> q_capacity q \<Longrightarrow>
     fold (\<lambda>x q. snd (try_push q x)) xs q = q\<lparr>q_items := q_items q @ xs\<rparr>"
  by (induction xs arbitrary: q) (simp_all add: try_push_room)

lemma drop_oldest_push_all:
  assumes "q_policy q = DropOldest" and "length (q_items q) \<le> q_capacity q" and "0 < q_capacity q"
  shows "q_items (fold (\<lambda>x q. snd (try_push q x)) xs q) =
      drop (length (q_items q) + length xs - q_capacity q) (q_items q @ xs) \<and>
    q_dropped_total (fold (\<lambda>x q. snd (try_push q x)) xs q) =
      q_dropped_total q + of_nat (length (q_items q) + length xs - q_capacity q)"
  using assms
proof (induction xs arbitrary: q)
  case (Cons x xs)
  show ?case
  proof (cases "length (q_items q) < q_capacity q")
    case True
    with Cons.prems Cons.IH [of "snd (try_push q x)"] show ?thesis by (simp add: try_push_room)
  next
    case False
    with Cons.prems have full: "length (q_items q) = q_capacity q" by simp
    with Cons.prems obtain y ys where items: "q_items q = y # ys" by (cases "q_items q") auto
    have push: "snd (try_push q x) = q\<lparr>q_items := ys @ [x], q_dropped_total := q_dropped_total q + 1\<rparr>"
      using Cons.prems full items by (simp add: try_push_def pop_front_def)
    have len: "q_capacity q = Suc (length ys)" using full items by simp
    with Cons.prems Cons.IH [of "snd (try_push q x)"] show ?thesis
      by (simp add: push items)
  qed
qed simp

section \<open>Runs of pushes and pops\<close>

datatype 'a queue_call = PushCall 'a | PopCall

primrec run_calls :: "'a bounded_queue \<Rightarrow> 'a queue_call list \<Rightarrow> 'a list \<times> 'a bounded_queue" where
  "run_calls q [] = ([], q)"
| "run_calls q (c # cs) =
     (case c of
        PushCall x \<Rightarrow> run_calls (snd (try_push q x)) cs
      | PopCall \<Rightarrow>
        (case pop_front q of
           (None, q') \<Rightarrow> run_calls q' cs
         | (Some x, q') \<Rightarrow> apfst ((#) x) (run_calls q' cs)))"

primrec pushed :: "'a queue_call list \<Rightarrow> 'a list" where
  "pushed [] = []"
| "pushed (c # cs) = (case c of PushCall x \<Rightarrow> x # pushed cs | PopCall \<Rightarrow> pushed cs)"

lemma subseq_insert: "subseq (xs @ zs) (xs @ y # zs)"
  by (induction xs) auto

lemma try_push_subseq: "subseq (q_items (snd (try_push q x)) @ ys) (q_items q @ x # ys)"
  by (cases "q_items q") (auto simp: try_push_def pop_front_def subseq_insert split: overflow_policy.split)

lemma run_calls_fifo:
  assumes "run_calls q cs = (out, q')" and "length (q_items q) \<le> q_capacity q" and "0 < q_capacity q"
  shows "subseq (out @ q_items q') (q_items q @ pushed cs) \<and> length (q_items q') \<le> q_capacity q"
  using assms
proof (induction cs arbitrary: q out)
  case (Cons c cs)
  show ?case
  proof (cases c)
    case (PushCall x)
    with Cons.prems have "run_calls (snd (try_push q x)) cs = (out, q')" by simp
    from Cons.IH [OF this] Cons.prems
    have "subseq (out @ q_items q') (q_items (snd (try_push q x)) @ pushed cs)"
      "length (q_items q') \<le> q_capacity q" by (simp_all add: try_push_bound)
    with try_push_subseq [of q x "pushed cs"] show ?thesis
      by (auto simp: PushCall intro: subseq_order.order_trans)
  next
    case PopCall
    with Cons show ?thesis
      by (cases "q_items q"; cases "run_calls (snd (pop_front q)) cs")
        (auto simp: pop_front_def dest!: Cons.IH)
  qed
qed auto

lemma run_calls_count:
  assumes "run_calls q cs = (out, q')" and "q_policy q \<in> {DropNewest, DropOldest}"
    and "length (q_items q) \<le> q_capacity q" and "0 < q_capacity q"
  shows "q_dropped_total q + of_nat (length (q_items q) + length (pushed cs)) =
    q_dropped_total q' + of_nat (length out + length (q_items q'))"
  using assms
proof (induction cs arbitrary: q out)
  case (Cons c cs)
  show ?case
  proof (cases c)
    case (PushCall x)
    let ?q = "snd (try_push q x)"
    have step: "q_dropped_total ?q + of_nat (length (q_items ?q)) =
        q_dropped_total q + of_nat (Suc (length (q_items q)))"
    proof (cases "length (q_items q) < q_capacity q")
      case False
      with Cons.prems have "q_capacity q = length (q_items q)" by simp
      with Cons.prems(2,4) show ?thesis
        by (cases "q_items q") (auto simp: try_push_def pop_front_def algebra_simps)
    qed (simp add: try_push_room)
    from PushCall Cons.prems(1) have "run_calls ?q cs = (out, q')" by simp
    from Cons.IH [OF this] Cons.prems step show ?thesis
      by (simp add: PushCall try_push_bound algebra_simps)
  next
    case PopCall
    with Cons show ?thesis
      by (cases "q_items q"; cases "run_calls (snd (pop_front q)) cs")
        (auto simp: pop_front_def algebra_simps dest!: Cons.IH)
  qed
qed auto

section \<open>The busy wait\<close>

lemma push_wait_full:
  assumes "q_capacity q \<le> length (q_items q)" and "deadline \<le> now (n + k)"
  shows "push_wait now n deadline q x = Some (Inl DeadlineExceeded, q)"
  using assms
proof (induction k arbitrary: n)
  case 0
  then show ?case by (subst push_wait.simps) simp
next
  case (Suc k)
  then have "push_wait now (Suc n) deadline q x = Some (Inl DeadlineExceeded, q)" by simp
  with Suc.prems(1) show ?case by (subst push_wait.simps) simp
qed

section \<open>Properties\<close>

text \<open>
  C12: Under any sequence of pushes and pops a queue never exceeds its capacity and is first in, first
  out: what was popped, followed by what is still queued, is a subsequence of what was pushed, in push
  order.  Under the two dropping policies nothing is lost without being counted: pushes equal pops plus
  queued plus dropped, modulo the width of the counter.
\<close>

theorem queue_fifo_conserves:
  assumes "queue_new c p = Some q" and "run_calls q cs = (out, q')"
  shows "length (q_items q') \<le> c \<and> subseq (out @ q_items q') (pushed cs) \<and>
    (p \<in> {DropNewest, DropOldest} \<longrightarrow>
       of_nat (length (pushed cs)) = of_nat (length out + length (q_items q')) + q_dropped_total q')"
proof -
  from assms(1) have q: "q = \<lparr>q_capacity = c, q_policy = p, q_items = [], q_dropped_total = 0\<rparr>" "0 < c"
    by (auto simp: queue_new_def split: if_splits)
  from run_calls_fifo [OF assms(2)] run_calls_count [OF assms(2)] show ?thesis
    by (simp add: q algebra_simps)
qed

theorem queue_fifo_conserves_witness:
  "\<exists>q q'. queue_new 2 DropOldest = Some q \<and>
     run_calls q [PushCall (1::nat), PushCall 2, PushCall 3, PopCall, PushCall 4] = ([2], q') \<and>
     of_nat (length [1::nat, 2, 3, 4]) = of_nat (length [2::nat] + length (q_items q')) + q_dropped_total q'"
proof -
  let ?cs = "[PushCall (1::nat), PushCall 2, PushCall 3, PopCall, PushCall 4]"
  let ?q = "\<lparr>q_capacity = 2, q_policy = DropOldest, q_items = [], q_dropped_total = 0\<rparr> :: nat bounded_queue"
  let ?q' = "\<lparr>q_capacity = 2, q_policy = DropOldest, q_items = [3, 4], q_dropped_total = 1\<rparr> :: nat bounded_queue"
  have new: "queue_new 2 DropOldest = Some ?q" by (simp add: queue_new_def)
  have run: "run_calls ?q ?cs = ([2], ?q')" by (simp add: try_push_def pop_front_def)
  from new run queue_fifo_conserves [OF new run] show ?thesis by (intro exI [of _ ?q] exI [of _ ?q']) simp
qed

text \<open>
  What each policy keeps under a burst of pushes: \<open>DropNewest\<close> the first items, \<open>DropOldest\<close> the last
  ones, in both cases as many as fit and with every other item counted as dropped.
\<close>

theorem burst_keeps:
  assumes "queue_new c p = Some q"
  shows "(p = DropNewest \<longrightarrow>
      q_items (fold (\<lambda>x q. snd (try_push q x)) xs q) = take c xs \<and>
      q_dropped_total (fold (\<lambda>x q. snd (try_push q x)) xs q) = of_nat (length xs - c)) \<and>
    (p = DropOldest \<longrightarrow>
      q_items (fold (\<lambda>x q. snd (try_push q x)) xs q) = drop (length xs - c) xs \<and>
      q_dropped_total (fold (\<lambda>x q. snd (try_push q x)) xs q) = of_nat (length xs - c))"
  using assms queue_sink.push_all [of q xs] drop_oldest_push_all [of q xs]
  by (auto simp: queue_new_def split: if_splits)

theorem burst_keeps_witness:
  "\<exists>q. queue_new 2 DropOldest = Some q \<and>
     q_items (fold (\<lambda>x q. snd (try_push q x)) [1::nat, 2, 3] q) = drop (length [1::nat, 2, 3] - 2) [1, 2, 3]"
  using burst_keeps [of 2 DropOldest _ "[1::nat, 2, 3]"] by (simp add: queue_new_def)

text \<open>
  C13: \<^verbatim>\<open>push_with_deadline\<close> returns as soon as the clock reaches the deadline, and its result is the one
  \<^verbatim>\<open>try_push\<close> gives at once: because the loop owns the queue, no space can appear while it waits, so a
  push onto a full queue never succeeds late.
\<close>

theorem push_with_deadline_is_try_push:
  assumes "deadline \<le> now n"
  shows "push_with_deadline now q x deadline = Some (try_push q x)"
proof (cases "q_policy q = BlockWithDeadline \<and> q_capacity q \<le> length (q_items q)")
  case True
  with push_wait_full [of q deadline now 0 n x] assms show ?thesis
    by (simp add: push_with_deadline_def try_push_def)
next
  case False
  show ?thesis
  proof (cases "q_policy q = BlockWithDeadline")
    case True
    with False have "length (q_items q) < q_capacity q" by simp
    with True show ?thesis
      by (simp add: push_with_deadline_def try_push_room) (subst push_wait.simps, simp)
  qed (simp add: push_with_deadline_def)
qed

theorem push_with_deadline_is_try_push_witness:
  "push_with_deadline (\<lambda>n. 10 * n) \<lparr>q_capacity = 1, q_policy = BlockWithDeadline, q_items = [7::nat],
     q_dropped_total = 0\<rparr> 8 95 = Some (Inl DeadlineExceeded, \<lparr>q_capacity = 1,
     q_policy = BlockWithDeadline, q_items = [7], q_dropped_total = 0\<rparr>)"
proof -
  let ?q = "\<lparr>q_capacity = 1, q_policy = BlockWithDeadline, q_items = [7::nat], q_dropped_total = 0\<rparr>"
  show ?thesis
    using push_with_deadline_is_try_push [of 95 "\<lambda>n. 10 * n" 10 ?q 8] by (simp add: try_push_def)
qed

text \<open>
  The dispatcher's lanes are independent and lossless within capacity: batches pushed up to the
  capacity are drained in order, the drained lane is left empty and the system lane is untouched.
\<close>

theorem dispatcher_round_trip:
  assumes "dispatcher_new bc sc p = Some d" and "length bs \<le> bc"
  shows "drain_batches (fold (\<lambda>b d. snd (push_batch d b)) bs d) = (bs, d)"
proof -
  have lane: "fold (\<lambda>b d. snd (push_batch d b)) bs e =
      e\<lparr>batches := fold (\<lambda>x q. snd (try_push q x)) bs (batches e)\<rparr>" for e bs
    by (induction bs arbitrary: e) (simp_all add: push_batch_def)
  from assms have d: "q_items (batches d) = []" "q_capacity (batches d) = bc"
    by (auto simp: dispatcher_new_def queue_new_def split: if_splits)
  with assms(2) have "fold (\<lambda>x q. snd (try_push q x)) bs (batches d) = (batches d)\<lparr>q_items := bs\<rparr>"
    by (subst push_all_room) simp_all
  with d(1) show ?thesis
    by (simp add: lane drain_batches_def drain_queue_eq)
qed

theorem dispatcher_round_trip_witness:
  "\<exists>d. dispatcher_new 2 2 FailEngine = Some d \<and>
     drain_batches (snd (push_batch d \<lparr>eb_session = SessionId 1, eb_frame_seq = 5, eb_events = []\<rparr>)) =
       ([\<lparr>eb_session = SessionId 1, eb_frame_seq = 5, eb_events = []\<rparr>], d)"
proof -
  obtain d where d: "dispatcher_new 2 2 FailEngine = Some d"
    by (simp add: dispatcher_new_def queue_new_def)
  from dispatcher_round_trip [OF d, of "[\<lparr>eb_session = SessionId 1, eb_frame_seq = 5, eb_events = []\<rparr>]"] d
  show ?thesis by auto
qed

end
