(* ===== verification/Grid.thy ===== *)
theory Grid
  imports Model
begin

text \<open>
  The analytics configuration (\<^verbatim>\<open>crates/analytics/src/{error,grid,config}.rs\<close>): the error type, the
  exact price and quantity grid, the source selector and the event-time periods.  The transparent
  newtypes over \<^verbatim>\<open>i128\<close> (\<^verbatim>\<open>PriceBucket\<close>, \<^verbatim>\<open>PriceTick\<close>, \<^verbatim>\<open>QuantityUnits\<close>) are their integers.
\<close>

section \<open>Errors\<close>

datatype analytics_error =
    InvalidConfig string string
  | FixedError string fixed_error
  | NonPositive string
  | MisalignedPrice
  | ArithmeticOverflow string
  | LateTrade i64 i64
  | MissingInstrument
  | NonTradeEvent
  | InstrumentMismatch u32 u32
  | CapacityExceeded string usize
  | UnsupportedSnapshotVersion u16 u16
  | SnapshotConfigMismatch
  | CorruptSnapshot string

section \<open>The grid\<close>

type_synonym price_bucket = i128
type_synonym price_tick = i128
type_synonym quantity_units = i128

record grid_spec =
  g_price_scale :: u8
  g_quantity_scale :: u8
  g_tick_size :: fixed
  g_levels_per_bucket :: u32

text \<open>\<^verbatim>\<open>compare_price\<close> compares coefficients; the grid gives all its prices the same scale.\<close>

definition min_price :: "price \<Rightarrow> price \<Rightarrow> price" where
  "min_price l r = (if coefficient (price_fixed r) < coefficient (price_fixed l) then r else l)"

definition max_price :: "price \<Rightarrow> price \<Rightarrow> price" where
  "max_price l r = (if coefficient (price_fixed l) < coefficient (price_fixed r) then r else l)"

definition grid_new :: "u8 \<Rightarrow> u8 \<Rightarrow> fixed \<Rightarrow> u32 \<Rightarrow> analytics_error + grid_spec" where
  "grid_new ps qs tick lpb =
     (if lpb = 0 then Inl (InvalidConfig ''levels_per_bucket'' ''must be greater than zero'')
      else and_then (map_err (FixedError ''tick_size'') (rescale tick ps ExactOnly)) (\<lambda>tick.
        if coefficient tick \<le> 0 then Inl (NonPositive ''tick_size'')
        else and_then (ok_or (checked_i128 (coefficient tick * int lpb))
                         (ArithmeticOverflow ''calculating bucket size'')) (\<lambda>_.
          Inr \<lparr>g_price_scale = ps, g_quantity_scale = qs, g_tick_size = tick,
               g_levels_per_bucket = lpb\<rparr>)))"

definition grid_validate :: "grid_spec \<Rightarrow> analytics_error + unit" where
  "grid_validate g =
     map_ok (\<lambda>_. ()) (grid_new (g_price_scale g) (g_quantity_scale g) (g_tick_size g) (g_levels_per_bucket g))"

definition bucket_size_coefficient :: "grid_spec \<Rightarrow> analytics_error + i128" where
  "bucket_size_coefficient g =
     ok_or (checked_i128 (coefficient (g_tick_size g) * int (g_levels_per_bucket g)))
       (ArithmeticOverflow ''calculating bucket size'')"

definition price_tick_of :: "grid_spec \<Rightarrow> price \<Rightarrow> analytics_error + price_tick" where
  "price_tick_of g p =
     and_then (map_err (FixedError ''price'') (rescale (price_fixed p) (g_price_scale g) ExactOnly)) (\<lambda>p.
       if coefficient p \<le> 0 then Inl (NonPositive ''price'')
       else if coefficient p smod coefficient (g_tick_size g) \<noteq> 0 then Inl MisalignedPrice
       else Inr (coefficient p sdiv coefficient (g_tick_size g)))"

definition price_bucket_of :: "grid_spec \<Rightarrow> price \<Rightarrow> analytics_error + price_bucket" where
  "price_bucket_of g p =
     map_ok (\<lambda>tick. div_euclid tick (int (g_levels_per_bucket g))) (price_tick_of g p)"

definition price_at_tick :: "grid_spec \<Rightarrow> price_tick \<Rightarrow> analytics_error + price" where
  "price_at_tick g t =
     (if t \<le> 0 then Inl (NonPositive ''price tick'')
      else map_ok (\<lambda>c. Price (fixed_new c (g_price_scale g)))
        (ok_or (checked_i128 (t * coefficient (g_tick_size g)))
          (ArithmeticOverflow ''converting a price tick'')))"

definition price_at :: "grid_spec \<Rightarrow> price_bucket \<Rightarrow> analytics_error + price" where
  "price_at g k =
     (if k \<le> 0 then Inl (NonPositive ''price bucket'')
      else and_then (bucket_size_coefficient g) (\<lambda>size.
        map_ok (\<lambda>c. Price (fixed_new c (g_price_scale g)))
          (ok_or (checked_i128 (k * size)) (ArithmeticOverflow ''converting a price bucket''))))"

definition non_negative_quantity_units :: "grid_spec \<Rightarrow> quantity \<Rightarrow> analytics_error + quantity_units" where
  "non_negative_quantity_units g q =
     and_then (map_err (FixedError ''quantity'') (rescale (quantity_fixed q) (g_quantity_scale g) ExactOnly))
       (\<lambda>q. if coefficient q < 0 then Inl (NonPositive ''quantity'') else Inr (coefficient q))"

definition quantity_units_of :: "grid_spec \<Rightarrow> quantity \<Rightarrow> analytics_error + quantity_units" where
  "quantity_units_of g q =
     and_then (non_negative_quantity_units g q)
       (\<lambda>units. if units = 0 then Inl (NonPositive ''quantity'') else Inr units)"

definition quantity_at :: "grid_spec \<Rightarrow> quantity_units \<Rightarrow> analytics_error + quantity" where
  "quantity_at g units =
     (if units < 0 then Inl (InvalidConfig ''quantity units'' ''must not be negative'')
      else Inr (Quantity (fixed_new units (g_quantity_scale g))))"

definition signed_quantity_at :: "grid_spec \<Rightarrow> i128 \<Rightarrow> fixed" where
  "signed_quantity_at g units = fixed_new units (g_quantity_scale g)"

section \<open>Segments and source selection\<close>

datatype market_segment = SpotSegment | LinearPerpetual | InversePerpetual | LinearFuture
  | InverseFuture | OptionSegment | UnknownSegment

fun segment_of_kind :: "instrument_kind \<Rightarrow> market_segment" where
  "segment_of_kind Spot = SpotSegment"
| "segment_of_kind PerpetualLinear = LinearPerpetual"
| "segment_of_kind PerpetualInverse = InversePerpetual"
| "segment_of_kind FutureLinear = LinearFuture"
| "segment_of_kind FutureInverse = InverseFuture"
| "segment_of_kind OptionKind = OptionSegment"

datatype flow_source = FlowSource (fs_venue: venue_id) (fs_segment: market_segment)

text \<open>The derived orders: by declaration order for the enum, field by field for the structs.\<close>

fun segment_index :: "market_segment \<Rightarrow> nat" where
  "segment_index SpotSegment = 0"
| "segment_index LinearPerpetual = 1"
| "segment_index InversePerpetual = 2"
| "segment_index LinearFuture = 3"
| "segment_index InverseFuture = 4"
| "segment_index OptionSegment = 5"
| "segment_index UnknownSegment = 6"

fun venue_number :: "venue_id \<Rightarrow> nat" where
  "venue_number (VenueId n) = n"

lemma segment_index_inject: "segment_index a = segment_index b \<longleftrightarrow> a = b"
  by (cases a; cases b) simp_all

lemma venue_number_inject: "venue_number a = venue_number b \<longleftrightarrow> a = b"
  by (cases a; cases b) simp

instantiation market_segment :: linorder
begin

definition less_eq_market_segment :: "market_segment \<Rightarrow> market_segment \<Rightarrow> bool" where
  "less_eq_market_segment a b \<longleftrightarrow> segment_index a \<le> segment_index b"

definition less_market_segment :: "market_segment \<Rightarrow> market_segment \<Rightarrow> bool" where
  "less_market_segment a b \<longleftrightarrow> segment_index a < segment_index b"

instance
  by standard (auto simp: less_eq_market_segment_def less_market_segment_def segment_index_inject)

end

instantiation venue_id :: linorder
begin

definition less_eq_venue_id :: "venue_id \<Rightarrow> venue_id \<Rightarrow> bool" where
  "less_eq_venue_id a b \<longleftrightarrow> venue_number a \<le> venue_number b"

definition less_venue_id :: "venue_id \<Rightarrow> venue_id \<Rightarrow> bool" where
  "less_venue_id a b \<longleftrightarrow> venue_number a < venue_number b"

instance
  by standard (auto simp: less_eq_venue_id_def less_venue_id_def venue_number_inject)

end

instantiation flow_source :: linorder
begin

definition less_eq_flow_source :: "flow_source \<Rightarrow> flow_source \<Rightarrow> bool" where
  "less_eq_flow_source a b \<longleftrightarrow>
     fs_venue a < fs_venue b \<or> fs_venue a = fs_venue b \<and> fs_segment a \<le> fs_segment b"

definition less_flow_source :: "flow_source \<Rightarrow> flow_source \<Rightarrow> bool" where
  "less_flow_source a b \<longleftrightarrow>
     fs_venue a < fs_venue b \<or> fs_venue a = fs_venue b \<and> fs_segment a < fs_segment b"

instance
  by standard (auto simp: less_eq_flow_source_def less_flow_source_def intro: flow_source.expand)

end

definition MAX_SELECTOR_VENUES :: usize where "MAX_SELECTOR_VENUES = 1024"
definition MAX_SELECTOR_SEGMENTS :: usize where "MAX_SELECTOR_SEGMENTS = 16"

record source_selector =
  sel_venues :: "venue_id list"
  sel_segments :: "market_segment list"

text \<open>\<^verbatim>\<open>sort_unstable\<close> then \<^verbatim>\<open>dedup\<close> (equal elements are indistinguishable).\<close>

definition selector_new ::
    "venue_id list \<Rightarrow> market_segment list \<Rightarrow> analytics_error + source_selector" where
  "selector_new venues segments =
     (if MAX_SELECTOR_VENUES < length venues then
        Inl (InvalidConfig ''source selector venues'' ''must contain at most 1024 entries'')
      else if MAX_SELECTOR_SEGMENTS < length segments then
        Inl (InvalidConfig ''source selector segments'' ''must contain at most 16 entries'')
      else Inr \<lparr>sel_venues = remdups_adj (sort venues), sel_segments = remdups_adj (sort segments)\<rparr>)"

definition selector_all :: source_selector where
  "selector_all = \<lparr>sel_venues = [], sel_segments = []\<rparr>"

definition selector_validate :: "source_selector \<Rightarrow> analytics_error + unit" where
  "selector_validate s = map_ok (\<lambda>_. ()) (selector_new (sel_venues s) (sel_segments s))"

definition selector_matches :: "source_selector \<Rightarrow> venue_id \<Rightarrow> market_segment \<Rightarrow> bool" where
  "selector_matches s v seg \<longleftrightarrow>
     (sel_venues s = [] \<or> v \<in> set (sel_venues s)) \<and> (sel_segments s = [] \<or> seg \<in> set (sel_segments s))"

section \<open>Event-time periods\<close>

record timeframe_spec =
  tf_candle_ns :: i64
  tf_tpo_ns :: i64
  tf_session_ns :: i64
  tf_anchor_ns :: i64
  tf_top_zone_window_ns :: i64

definition timeframe_new :: "i64 \<Rightarrow> i64 \<Rightarrow> i64 \<Rightarrow> i64 \<Rightarrow> i64 \<Rightarrow> analytics_error + timeframe_spec" where
  "timeframe_new candle tpo session anchor window =
     (case find (\<lambda>(field, v). v \<le> 0)
        [(''candle_ns'', candle), (''tpo_ns'', tpo), (''session_ns'', session),
         (''top_zone_window_ns'', window)] of
        Some (field, _) \<Rightarrow> Inl (NonPositive field)
      | None \<Rightarrow>
        if session < candle \<or> session smod candle \<noteq> 0 then
          Inl (InvalidConfig ''candle_ns'' ''must evenly divide session_ns'')
        else if session < tpo \<or> session smod tpo \<noteq> 0 then
          Inl (InvalidConfig ''tpo_ns'' ''must evenly divide session_ns'')
        else Inr \<lparr>tf_candle_ns = candle, tf_tpo_ns = tpo, tf_session_ns = session,
                  tf_anchor_ns = anchor, tf_top_zone_window_ns = window\<rparr>)"

definition timeframe_validate :: "timeframe_spec \<Rightarrow> analytics_error + unit" where
  "timeframe_validate t =
     map_ok (\<lambda>_. ()) (timeframe_new (tf_candle_ns t) (tf_tpo_ns t) (tf_session_ns t) (tf_anchor_ns t)
       (tf_top_zone_window_ns t))"

definition period_start_i128 :: "i64 \<Rightarrow> i64 \<Rightarrow> i64 \<Rightarrow> i128" where
  "period_start_i128 timestamp anchor duration =
     div_euclid (timestamp - anchor) duration * duration + anchor"

definition period_start_saturating :: "i64 \<Rightarrow> i64 \<Rightarrow> i64 \<Rightarrow> i64" where
  "period_start_saturating timestamp anchor duration =
     saturate_i64 (period_start_i128 timestamp anchor duration)"

definition period_start_checked :: "i64 \<Rightarrow> i64 \<Rightarrow> i64 \<Rightarrow> analytics_error + i64" where
  "period_start_checked timestamp anchor duration =
     ok_or (checked_i64 (period_start_i128 timestamp anchor duration))
       (ArithmeticOverflow ''calculating an event-time period boundary'')"

definition candle_start :: "timeframe_spec \<Rightarrow> i64 \<Rightarrow> i64" where
  "candle_start t ts = period_start_saturating ts (tf_anchor_ns t) (tf_candle_ns t)"

definition tpo_start :: "timeframe_spec \<Rightarrow> i64 \<Rightarrow> i64" where
  "tpo_start t ts = period_start_saturating ts (tf_anchor_ns t) (tf_tpo_ns t)"

definition session_start :: "timeframe_spec \<Rightarrow> i64 \<Rightarrow> i64" where
  "session_start t ts = period_start_saturating ts (tf_anchor_ns t) (tf_session_ns t)"

definition checked_candle_start :: "timeframe_spec \<Rightarrow> i64 \<Rightarrow> analytics_error + i64" where
  "checked_candle_start t ts = period_start_checked ts (tf_anchor_ns t) (tf_candle_ns t)"

definition checked_tpo_start :: "timeframe_spec \<Rightarrow> i64 \<Rightarrow> analytics_error + i64" where
  "checked_tpo_start t ts = period_start_checked ts (tf_anchor_ns t) (tf_tpo_ns t)"

definition checked_session_start :: "timeframe_spec \<Rightarrow> i64 \<Rightarrow> analytics_error + i64" where
  "checked_session_start t ts = period_start_checked ts (tf_anchor_ns t) (tf_session_ns t)"

lemma fixed_new_simps [simp]:
  "coefficient (fixed_new c n) = c" "scale (fixed_new c n) = n"
  "fixed_value (fixed_new c n) = of_int c / 10 ^ n"
  by (simp_all add: fixed_new_def fixed_value_def)

section \<open>Laws of the grid\<close>

lemma grid_new_Inr:
  assumes "grid_new ps qs tick lpb = Inr g"
  shows "g_price_scale g = ps" and "g_quantity_scale g = qs" and "g_levels_per_bucket g = lpb"
    and "rescale tick ps ExactOnly = Inr (g_tick_size g)" and "scale (g_tick_size g) = ps"
    and "0 < coefficient (g_tick_size g)" and "0 < lpb"
    and "in_i128 (coefficient (g_tick_size g) * int lpb)"
  using assms rescale_exact(1) [of tick ps]
  by (auto simp: grid_new_def result_iffs split: if_splits)

lemma grid_validate_Inr:
  assumes "grid_validate g = Inr ()"
  shows "0 < coefficient (g_tick_size g)" and "0 < g_levels_per_bucket g"
  using assms rescale_exact_pos [of "g_tick_size g" "g_price_scale g"]
  by (auto simp: grid_validate_def grid_new_def result_iffs split: if_splits)

text \<open>The tick of a price is its value in ticks; the bucket is that count in buckets, rounded down.\<close>

lemma price_tick_of_Inr:
  assumes "price_tick_of g p = Inr t" and "0 < coefficient (g_tick_size g)"
  shows "\<exists>w. rescale (price_fixed p) (g_price_scale g) ExactOnly = Inr w \<and>
    coefficient w = t * coefficient (g_tick_size g) \<and> 0 < t"
proof -
  let ?d = "coefficient (g_tick_size g)"
  obtain w where w: "rescale (price_fixed p) (g_price_scale g) ExactOnly = Inr w" "0 < coefficient w"
    "coefficient w smod ?d = 0" "t = coefficient w sdiv ?d"
    using assms(1) by (auto simp: price_tick_of_def result_iffs split: if_splits)
  then obtain k where k: "coefficient w = ?d * k" using assms(2) by (auto simp: smod_zero_iff)
  with w(4) assms(2) have "t = k" by (simp add: sdiv_mult)
  moreover have "0 < k" using k w(2) assms(2) by (simp add: zero_less_mult_iff)
  ultimately show ?thesis using w(1) k by (intro exI [of _ w]) (simp add: mult.commute)
qed

lemma price_tick_of_self:
  assumes "0 < t" and "0 < coefficient (g_tick_size g)"
  shows "price_tick_of g (Price (fixed_new (t * coefficient (g_tick_size g)) (g_price_scale g))) = Inr t"
  using assms sdiv_mult [OF assms(2), of t] smod_zero_iff [OF assms(2), of "t * coefficient (g_tick_size g)"]
  by (simp add: price_tick_of_def rescale_def mult.commute zero_less_mult_iff not_le)

lemma price_at_tick_Inr:
  "price_at_tick g t = Inr p \<Longrightarrow>
     p = Price (fixed_new (t * coefficient (g_tick_size g)) (g_price_scale g)) \<and> 0 < t"
  by (auto simp: price_at_tick_def result_iffs split: if_splits)

lemma price_bucket_of_Inr:
  assumes "price_bucket_of g p = Inr k" and "0 < g_levels_per_bucket g"
  shows "\<exists>t. price_tick_of g p = Inr t \<and> k = t div int (g_levels_per_bucket g)"
  using assms by (auto simp: price_bucket_of_def result_iffs div_euclid_pos)

lemma period_start_i128_eq: "0 < d \<Longrightarrow> period_start_i128 t a d = t - (t - a) mod d"
  using minus_mod_eq_div_mult [of "t - a" d] by (simp add: period_start_i128_def div_euclid_pos)

lemma timeframe_new_Inr:
  assumes "timeframe_new candle tpo session anchor window = Inr tf"
  shows "tf = \<lparr>tf_candle_ns = candle, tf_tpo_ns = tpo, tf_session_ns = session, tf_anchor_ns = anchor,
      tf_top_zone_window_ns = window\<rparr>"
    and "0 < candle" and "0 < tpo" and "0 < session" and "0 < window"
    and "candle dvd session" and "tpo dvd session"
  using assms by (auto simp: timeframe_new_def smod_zero_iff not_le split: if_splits)

text \<open>A finer period of the same anchor nests in a coarser one that it divides.\<close>

lemma mod_nested:
  fixes x c s :: int
  assumes "0 < c" and "c dvd s" and "0 < s"
  shows "x mod c \<le> x mod s" and "x mod s - x mod c \<le> s - c"
proof -
  obtain k where k: "s = c * k" using assms(2) by blast
  have kpos: "0 < k" using assms k by (simp add: zero_less_mult_iff)
  have split: "x mod s = x mod c + c * (x div c mod k)"
    unfolding k using assms(1) kpos by (simp add: zmod_zmult2_eq)
  have "0 \<le> x div c mod k" using kpos by simp
  then show "x mod c \<le> x mod s" using assms(1) split by simp
  have "x div c mod k \<le> k - 1" using kpos pos_mod_bound [of k "x div c"] by linarith
  then have "c * (x div c mod k) \<le> c * (k - 1)" using assms(1) by (intro mult_left_mono) auto
  then show "x mod s - x mod c \<le> s - c" using split k by (simp add: algebra_simps)
qed

section \<open>Properties\<close>

text \<open>
  On a grid the constructor accepted, the tick of a price is exact: the price is that many ticks,
  converting the tick back gives the same decimal value at the grid's scale, and reading that price
  again gives the same tick.
\<close>

theorem price_tick_round_trip:
  assumes "grid_new ps qs tick lpb = Inr g" and "fixed_ok (price_fixed p)" and "price_tick_of g p = Inr t"
  shows "\<exists>p'. price_at_tick g t = Inr p' \<and> fixed_value (price_fixed p') = fixed_value (price_fixed p) \<and>
    scale (price_fixed p') = ps \<and> price_tick_of g p' = Inr t \<and>
    fixed_value (price_fixed p) = of_int t * fixed_value tick"
proof -
  let ?d = "coefficient (g_tick_size g)"
  note g = grid_new_Inr [OF assms(1)]
  obtain w where w: "rescale (price_fixed p) ps ExactOnly = Inr w" "coefficient w = t * ?d" "0 < t"
    using price_tick_of_Inr [OF assms(3) g(6)] g(1) by auto
  have range: "in_i128 (t * ?d)"
    using rescale_exact_range [OF w(1)] w(2) assms(2) by (simp add: fixed_ok_def)
  let ?p = "Price (fixed_new (t * ?d) ps)"
  have "price_at_tick g t = Inr ?p"
    using w(3) range g(1) by (simp add: price_at_tick_def checked_defs)
  moreover have "price_tick_of g ?p = Inr t" using price_tick_of_self [OF w(3) g(6)] g(1) by simp
  moreover have "fixed_value (price_fixed p) = of_int (t * ?d) / 10 ^ ps"
    using rescale_exact(2) [OF w(1)] w(2) by (simp add: field_simps)
  moreover have "of_int ?d = fixed_value tick * 10 ^ ps" using rescale_exact(2) [OF g(4)] .
  ultimately show ?thesis by (intro exI [of _ ?p]) simp
qed

theorem price_tick_round_trip_witness:
  "\<exists>g p'. grid_new 2 3 \<lparr>coefficient = 5, scale = 1\<rparr> 4 = Inr g \<and>
     price_tick_of g (Price \<lparr>coefficient = 45, scale = 1\<rparr>) = Inr 9 \<and>
     price_at_tick g 9 = Inr p' \<and> fixed_value (price_fixed p') = fixed_value \<lparr>coefficient = 45, scale = 1\<rparr>"
proof -
  let ?g = "\<lparr>g_price_scale = 2, g_quantity_scale = 3, g_tick_size = \<lparr>coefficient = 50, scale = 2\<rparr>,
    g_levels_per_bucket = 4\<rparr>"
  let ?p = "Price \<lparr>coefficient = 45, scale = 1\<rparr>"
  have g: "grid_new 2 3 \<lparr>coefficient = 5, scale = 1\<rparr> 4 = Inr ?g" by code_simp
  have t: "price_tick_of ?g ?p = Inr 9" by code_simp
  have "fixed_ok (price_fixed ?p)" by (simp add: fixed_ok_def in_i128_def)
  from price_tick_round_trip [OF g this t] g t show ?thesis by auto
qed

text \<open>
  The bucket of a price brackets it: on a grid the constructor accepted, a price in bucket \<open>k\<close> is at
  least \<open>k\<close> and less than \<open>k + 1\<close> bucket sizes, and for a positive \<open>k\<close> \<^verbatim>\<open>price_at\<close> gives the lower
  edge.  Bucket zero, which holds the prices below one bucket size, has no price.
\<close>

theorem price_bucket_brackets:
  assumes "grid_new ps qs tick lpb = Inr g" and "fixed_ok (price_fixed p)" and "price_bucket_of g p = Inr k"
  shows "0 \<le> k \<and> of_int k * (of_nat lpb * fixed_value tick) \<le> fixed_value (price_fixed p) \<and>
    fixed_value (price_fixed p) < (of_int k + 1) * (of_nat lpb * fixed_value tick) \<and>
    (if k = 0 then price_at g k = Inl (NonPositive ''price bucket'')
     else \<exists>p'. price_at g k = Inr p' \<and> fixed_value (price_fixed p') = of_int k * (of_nat lpb * fixed_value tick))"
proof -
  let ?d = "coefficient (g_tick_size g)" and ?n = "int lpb"
  note g = grid_new_Inr [OF assms(1)]
  obtain t where t: "price_tick_of g p = Inr t" and k: "k = t div ?n"
    using price_bucket_of_Inr [OF assms(3)] g(3,7) by auto
  obtain w where w: "rescale (price_fixed p) ps ExactOnly = Inr w" "coefficient w = t * ?d" "0 < t"
    using price_tick_of_Inr [OF t g(6)] g(1) by auto
  have "k * ?n = t - t mod ?n" by (simp add: k minus_mod_eq_div_mult)
  moreover have "0 \<le> t mod ?n" "t mod ?n < ?n" using g(7) by simp_all
  ultimately have lo: "k * ?n \<le> t" and hi: "t < (k + 1) * ?n" by (simp_all add: distrib_right)
  have tick: "fixed_value tick = of_int ?d / 10 ^ ps" using rescale_exact(2) [OF g(4)] by simp
  have "fixed_value (price_fixed p) = of_int (t * ?d) / 10 ^ ps"
    using rescale_exact(2) [OF w(1)] w(2) by (simp add: field_simps)
  then have v: "fixed_value (price_fixed p) = of_int t * fixed_value tick" by (simp add: tick)
  have pos: "0 < fixed_value tick" using g(6) tick by simp
  have "of_int (k * ?n) * fixed_value tick \<le> of_int t * fixed_value tick"
    "of_int t * fixed_value tick < of_int ((k + 1) * ?n) * fixed_value tick"
    using lo hi pos by (simp_all del: of_int_mult of_int_add)
  moreover have nonneg: "0 \<le> k" using w(3) g(7) k by (simp add: pos_imp_zdiv_nonneg_iff)
  moreover have "\<exists>p'. price_at g k = Inr p' \<and> fixed_value (price_fixed p') = of_int k * (of_nat lpb * fixed_value tick)"
    if "k \<noteq> 0"
  proof -
    have "k * (?d * ?n) \<le> t * ?d"
      using mult_right_mono [OF lo, of ?d] g(6) by (simp add: algebra_simps)
    moreover have "in_i128 (t * ?d)"
      using rescale_exact_range [OF w(1)] w(2) assms(2) by (simp add: fixed_ok_def)
    moreover have "0 \<le> k * (?d * ?n)" using nonneg g(6) by simp
    ultimately have "in_i128 (k * (?d * ?n))" by (simp add: in_i128_def)
    then have "price_at g k = Inr (Price (fixed_new (k * (?d * ?n)) ps))"
      using that nonneg g(1,3,8) by (simp add: price_at_def bucket_size_coefficient_def checked_defs)
    then show ?thesis by (simp add: tick)
  qed
  ultimately show ?thesis using v by (auto simp: price_at_def mult.assoc)
qed

theorem price_bucket_brackets_witness:
  "\<exists>g. grid_new 2 3 \<lparr>coefficient = 5, scale = 1\<rparr> 4 = Inr g \<and>
     price_bucket_of g (Price \<lparr>coefficient = 45, scale = 1\<rparr>) = Inr 2 \<and>
     of_int 2 * (of_nat 4 * fixed_value \<lparr>coefficient = 5, scale = 1\<rparr>) \<le> fixed_value \<lparr>coefficient = 45, scale = 1\<rparr>"
proof -
  let ?g = "\<lparr>g_price_scale = 2, g_quantity_scale = 3, g_tick_size = \<lparr>coefficient = 50, scale = 2\<rparr>,
    g_levels_per_bucket = 4\<rparr>"
  let ?p = "Price \<lparr>coefficient = 45, scale = 1\<rparr>"
  have g: "grid_new 2 3 \<lparr>coefficient = 5, scale = 1\<rparr> 4 = Inr ?g" by code_simp
  have k: "price_bucket_of ?g ?p = Inr 2" by code_simp
  have ok: "fixed_ok (price_fixed ?p)" by (simp add: fixed_ok_def in_i128_def)
  from price_bucket_brackets [OF g ok k] g k show ?thesis by (intro exI [of _ ?g]) simp
qed

text \<open>
  The periods of an accepted timeframe tile event time.  A timestamp lies in its candle, TPO and
  session periods, each period starts a whole number of periods from the anchor, and the candle and the
  TPO of a timestamp lie inside its session, so a session boundary is always a candle and a TPO
  boundary.
\<close>

theorem periods_nest:
  assumes "timeframe_new candle tpo session anchor window = Inr tf"
    and "checked_candle_start tf t = Inr c" and "checked_tpo_start tf t = Inr b"
    and "checked_session_start tf t = Inr s"
  shows "c \<le> t \<and> t < c + candle \<and> candle dvd (c - anchor) \<and>
    b \<le> t \<and> t < b + tpo \<and> tpo dvd (b - anchor) \<and>
    s \<le> t \<and> t < s + session \<and> session dvd (s - anchor) \<and>
    s \<le> c \<and> c + candle \<le> s + session \<and> s \<le> b \<and> b + tpo \<le> s + session"
proof -
  note tf = timeframe_new_Inr [OF assms(1)]
  define x where "x = t - anchor"
  have starts: "c = t - x mod candle" "b = t - x mod tpo" "s = t - x mod session"
    using assms(2-4) tf
    by (auto simp: checked_candle_start_def checked_tpo_start_def checked_session_start_def
        period_start_checked_def result_iffs period_start_i128_eq x_def)
  have multiple: "d dvd (t - x mod d - anchor)" for d
  proof -
    have "t - x mod d - anchor = x div d * d" by (simp add: x_def algebra_simps minus_mod_eq_div_mult)
    then show ?thesis by simp
  qed
  have "0 \<le> x mod candle \<and> x mod candle < candle \<and> 0 \<le> x mod tpo \<and> x mod tpo < tpo \<and>
      0 \<le> x mod session \<and> x mod session < session" using tf by simp
  with multiple mod_nested [OF tf(2,6,4), of x] mod_nested [OF tf(3,7,4), of x] show ?thesis
    unfolding starts by simp
qed

theorem periods_nest_witness:
  "\<exists>tf. timeframe_new 60 30 3600 7 100 = Inr tf \<and> checked_candle_start tf 130 = Inr 127 \<and>
     checked_session_start tf 130 = Inr 7 \<and> 127 + 60 \<le> (7 :: int) + 3600"
proof -
  let ?tf = "\<lparr>tf_candle_ns = 60, tf_tpo_ns = 30, tf_session_ns = 3600, tf_anchor_ns = 7, tf_top_zone_window_ns = 100\<rparr>"
  have new: "timeframe_new 60 30 3600 7 100 = Inr ?tf" by code_simp
  have c: "checked_candle_start ?tf 130 = Inr 127" and b: "checked_tpo_start ?tf 130 = Inr 127"
    and s: "checked_session_start ?tf 130 = Inr 7" by code_simp+
  from periods_nest [OF new c b s] new c s show ?thesis by (intro exI [of _ ?tf]) simp
qed

text \<open>
  \<^verbatim>\<open>GridSpec::validate\<close> does not establish what \<^verbatim>\<open>GridSpec::new\<close> does.  It checks the tick size after
  rescaling it to the price scale but leaves the field as it is, so a grid whose tick size is given at
  another scale passes and then reads its coefficient as if it were at the price scale: with a price
  scale of two and a tick of one tenth it accepts the price 0.01, which is not on the grid.
\<close>

theorem validate_accepts_unscaled_tick:
  "\<exists>g. grid_validate g = Inr () \<and> fixed_value (g_tick_size g) = 1 / 10 \<and>
     price_tick_of g (Price \<lparr>coefficient = 1, scale = 2\<rparr>) = Inr 1 \<and>
     fixed_value \<lparr>coefficient = 1, scale = 2\<rparr> = 1 / 100"
proof -
  let ?g = "\<lparr>g_price_scale = 2, g_quantity_scale = 0, g_tick_size = \<lparr>coefficient = 1, scale = 1\<rparr>,
    g_levels_per_bucket = 1\<rparr>"
  have "grid_validate ?g = Inr ()" "price_tick_of ?g (Price \<lparr>coefficient = 1, scale = 2\<rparr>) = Inr 1"
    by code_simp+
  then show ?thesis by (intro exI [of _ ?g]) (simp add: fixed_value_def)
qed

end
