(* ===== verification/Flow.thy ===== *)
theory Flow
  imports Grid Ordered_Map
begin

text \<open>
  Candle flow (\<^verbatim>\<open>crates/analytics/src/flow.rs\<close>): bounded accumulation of traded volume per candle, per
  source and per price bucket.  The accumulators are mutated field by field behind \<^verbatim>\<open>?\<close>, so the
  operations return the state they leave on errors too; that an error leaves the builder unchanged is a
  theorem, not a modelling choice.  Serialisation (\<^verbatim>\<open>serde\<close>) is left out.
\<close>

section \<open>Configuration and input\<close>

record flow_config =
  fc_max_sources :: usize
  fc_max_levels_per_source :: usize
  fc_max_trades_per_candle :: nat

definition flow_config_new :: "usize \<Rightarrow> usize \<Rightarrow> nat \<Rightarrow> analytics_error + flow_config" where
  "flow_config_new sources levels trades =
     (if sources = 0 then Inl (InvalidConfig ''max_sources'' ''must be greater than zero'')
      else if levels = 0 then Inl (InvalidConfig ''max_levels_per_source'' ''must be greater than zero'')
      else if trades = 0 then Inl (InvalidConfig ''max_trades_per_candle'' ''must be greater than zero'')
      else Inr \<lparr>fc_max_sources = sources, fc_max_levels_per_source = levels,
                fc_max_trades_per_candle = trades\<rparr>)"

definition flow_config_validate :: "flow_config \<Rightarrow> analytics_error + unit" where
  "flow_config_validate c =
     map_ok (\<lambda>_. ()) (flow_config_new (fc_max_sources c) (fc_max_levels_per_source c)
       (fc_max_trades_per_candle c))"

record trade_input =
  ti_instrument :: instrument_id
  ti_source :: flow_source
  ti_timestamp_ns :: i64
  ti_price :: price
  ti_quantity :: quantity
  ti_aggressor :: aggressor_side

definition trade_from_envelope :: "event_envelope \<Rightarrow> market_segment \<Rightarrow> analytics_error + trade_input" where
  "trade_from_envelope e segment =
     and_then (ok_or (ev_instrument e) MissingInstrument) (\<lambda>instrument.
       case ev_payload e of
         TradeEvent t \<Rightarrow>
           Inr \<lparr>ti_instrument = instrument, ti_source = FlowSource (ev_venue e) segment,
                ti_timestamp_ns = ts_ns (case ev_exchange_ts e of None \<Rightarrow> ev_receive_ts e | Some x \<Rightarrow> x),
                ti_price = tr_price t, ti_quantity = tr_quantity t, ti_aggressor = tr_aggressor t\<rparr>
       | _ \<Rightarrow> Inl NonTradeEvent)"

section \<open>Accumulators\<close>

datatype flow_state = LiveFlow | FinalFlow

record level_accumulator =
  la_buy_units :: i128
  la_sell_units :: i128
  la_unknown_units :: i128
  la_total_units :: i128
  la_trade_count :: nat
  la_first_timestamp_ns :: i64
  la_last_timestamp_ns :: i64

definition level_accumulator_new :: "i64 \<Rightarrow> level_accumulator" where
  "level_accumulator_new ts =
     \<lparr>la_buy_units = 0, la_sell_units = 0, la_unknown_units = 0, la_total_units = 0, la_trade_count = 0,
      la_first_timestamp_ns = ts, la_last_timestamp_ns = ts\<rparr>"

record source_accumulator =
  sa_high :: "price option"
  sa_low :: "price option"
  sa_buy_units :: i128
  sa_sell_units :: i128
  sa_unknown_units :: i128
  sa_total_units :: i128
  sa_trade_count :: nat
  sa_levels :: "(price_bucket \<times> level_accumulator) list"

definition source_accumulator_new :: source_accumulator where
  "source_accumulator_new =
     \<lparr>sa_high = None, sa_low = None, sa_buy_units = 0, sa_sell_units = 0, sa_unknown_units = 0,
      sa_total_units = 0, sa_trade_count = 0, sa_levels = []\<rparr>"

record candle_flow_builder =
  fb_instrument :: instrument_id
  fb_grid :: grid_spec
  fb_time :: timeframe_spec
  fb_config :: flow_config
  fb_candle_start :: "i64 option"
  fb_last_timestamp_ns :: "i64 option"
  fb_high :: "price option"
  fb_low :: "price option"
  fb_total_units :: i128
  fb_trade_count :: nat
  fb_sources :: "(flow_source \<times> source_accumulator) list"

definition flow_new ::
    "instrument_id \<Rightarrow> grid_spec \<Rightarrow> timeframe_spec \<Rightarrow> flow_config \<Rightarrow> analytics_error + candle_flow_builder" where
  "flow_new i g t c =
     and_then (grid_validate g) (\<lambda>_. and_then (timeframe_validate t) (\<lambda>_. and_then (flow_config_validate c) (\<lambda>_.
       Inr \<lparr>fb_instrument = i, fb_grid = g, fb_time = t, fb_config = c, fb_candle_start = None,
            fb_last_timestamp_ns = None, fb_high = None, fb_low = None, fb_total_units = 0,
            fb_trade_count = 0, fb_sources = []\<rparr>)))"

section \<open>Adding one trade\<close>

abbreviation (input) add_i128 :: "i128 \<Rightarrow> i128 \<Rightarrow> string \<Rightarrow> analytics_error + i128" where
  "add_i128 a b msg \<equiv> ok_or (checked_i128 (a + b)) (ArithmeticOverflow msg)"

abbreviation (input) add_u64 :: "nat \<Rightarrow> nat \<Rightarrow> string \<Rightarrow> analytics_error + nat" where
  "add_u64 a b msg \<equiv> ok_or (checked_uint 64 (a + b)) (ArithmeticOverflow msg)"

fun preflight_side :: "i128 \<Rightarrow> i128 \<Rightarrow> i128 \<Rightarrow> quantity_units \<Rightarrow> aggressor_side \<Rightarrow> analytics_error + unit" where
  "preflight_side buy sell unk q Buy = map_ok (\<lambda>_. ()) (add_i128 buy q ''adding buy volume'')"
| "preflight_side buy sell unk q Sell = map_ok (\<lambda>_. ()) (add_i128 sell q ''adding sell volume'')"
| "preflight_side buy sell unk q Unknown = map_ok (\<lambda>_. ()) (add_i128 unk q ''adding unknown volume'')"

text \<open>\<^verbatim>\<open>apply_side\<close> on the three counters it gets by reference; an error leaves them as they were.\<close>

fun apply_side ::
    "i128 \<times> i128 \<times> i128 \<Rightarrow> quantity_units \<Rightarrow> aggressor_side \<Rightarrow> analytics_error + i128 \<times> i128 \<times> i128" where
  "apply_side (buy, sell, unk) q Buy = map_ok (\<lambda>v. (v, sell, unk)) (add_i128 buy q ''adding buy volume'')"
| "apply_side (buy, sell, unk) q Sell = map_ok (\<lambda>v. (buy, v, unk)) (add_i128 sell q ''adding sell volume'')"
| "apply_side (buy, sell, unk) q Unknown =
     map_ok (\<lambda>v. (buy, sell, v)) (add_i128 unk q ''adding unknown volume'')"

definition preflight_add ::
    "candle_flow_builder \<Rightarrow> flow_source \<Rightarrow> price_bucket \<Rightarrow> quantity_units \<Rightarrow> aggressor_side \<Rightarrow>
     analytics_error + unit" where
  "preflight_add b source bucket q side =
     (if fc_max_trades_per_candle (fb_config b) \<le> fb_trade_count b then
        Inl (CapacityExceeded ''trades per candle'' (fc_max_trades_per_candle (fb_config b)))
      else
        let source_state = bt_get (fb_sources b) source in
        if source_state = None \<and> fc_max_sources (fb_config b) \<le> length (fb_sources b) then
          Inl (CapacityExceeded ''sources per candle'' (fc_max_sources (fb_config b)))
        else if (case source_state of None \<Rightarrow> False
                 | Some st \<Rightarrow> bt_get (sa_levels st) bucket = None
                     \<and> fc_max_levels_per_source (fb_config b) \<le> length (sa_levels st)) then
          Inl (CapacityExceeded ''price levels per source candle'' (fc_max_levels_per_source (fb_config b)))
        else
          and_then (add_u64 (fb_trade_count b) 1 ''adding candle trade count'') (\<lambda>_.
          and_then (add_i128 (fb_total_units b) q ''adding candle volume'') (\<lambda>_.
          case source_state of
            None \<Rightarrow> Inr ()
          | Some st \<Rightarrow>
            and_then (add_u64 (sa_trade_count st) 1 ''adding source trade count'') (\<lambda>_.
            and_then (add_i128 (sa_total_units st) q ''adding source volume'') (\<lambda>_.
            and_then
              (case bt_get (sa_levels st) bucket of
                 None \<Rightarrow> Inr ()
               | Some l \<Rightarrow>
                 and_then (add_u64 (la_trade_count l) 1 ''adding price-level trade count'') (\<lambda>_.
                 and_then (add_i128 (la_total_units l) q ''adding price-level volume'') (\<lambda>_.
                 preflight_side (la_buy_units l) (la_sell_units l) (la_unknown_units l) q side)))
              (\<lambda>_. preflight_side (sa_buy_units st) (sa_sell_units st) (sa_unknown_units st) q side))))))"

definition add_to_level ::
    "level_accumulator \<Rightarrow> quantity_units \<Rightarrow> aggressor_side \<Rightarrow> i64 \<Rightarrow> (analytics_error + unit) \<times> level_accumulator" where
  "add_to_level l q side ts =
     (case add_u64 (la_trade_count l) 1 ''adding price-level trade count'' of
        Inl e \<Rightarrow> (Inl e, l)
      | Inr n \<Rightarrow>
        let l = l\<lparr>la_trade_count := n\<rparr> in
        case add_i128 (la_total_units l) q ''adding price-level volume'' of
          Inl e \<Rightarrow> (Inl e, l)
        | Inr v \<Rightarrow>
          let l = l\<lparr>la_total_units := v\<rparr> in
          case apply_side (la_buy_units l, la_sell_units l, la_unknown_units l) q side of
            Inl e \<Rightarrow> (Inl e, l)
          | Inr (buy, sell, unk) \<Rightarrow>
            (Inr (), l\<lparr>la_buy_units := buy, la_sell_units := sell, la_unknown_units := unk,
                       la_last_timestamp_ns := ts\<rparr>))"

definition add_to_source ::
    "source_accumulator \<Rightarrow> price_bucket \<Rightarrow> price \<Rightarrow> quantity_units \<Rightarrow> aggressor_side \<Rightarrow> i64 \<Rightarrow>
     (analytics_error + unit) \<times> source_accumulator" where
  "add_to_source s bucket price q side ts =
     (case add_u64 (sa_trade_count s) 1 ''adding source trade count'' of
        Inl e \<Rightarrow> (Inl e, s)
      | Inr n \<Rightarrow>
        let s = s\<lparr>sa_trade_count := n\<rparr> in
        case add_i128 (sa_total_units s) q ''adding source volume'' of
          Inl e \<Rightarrow> (Inl e, s)
        | Inr v \<Rightarrow>
          let s = s\<lparr>sa_total_units := v\<rparr> in
          case apply_side (sa_buy_units s, sa_sell_units s, sa_unknown_units s) q side of
            Inl e \<Rightarrow> (Inl e, s)
          | Inr (buy, sell, unk) \<Rightarrow>
            let s = s\<lparr>sa_buy_units := buy, sa_sell_units := sell, sa_unknown_units := unk,
                      sa_high := Some (case sa_high s of None \<Rightarrow> price | Some p \<Rightarrow> max_price p price),
                      sa_low := Some (case sa_low s of None \<Rightarrow> price | Some p \<Rightarrow> min_price p price)\<rparr>;
                l = (case bt_get (sa_levels s) bucket of None \<Rightarrow> level_accumulator_new ts | Some l \<Rightarrow> l);
                (r, l) = add_to_level l q side ts
            in (r, s\<lparr>sa_levels := bt_insert bucket l (sa_levels s)\<rparr>))"

definition apply_add ::
    "candle_flow_builder \<Rightarrow> flow_source \<Rightarrow> price_bucket \<Rightarrow> price \<Rightarrow> quantity_units \<Rightarrow> aggressor_side \<Rightarrow> i64 \<Rightarrow>
     (analytics_error + unit) \<times> candle_flow_builder" where
  "apply_add b source bucket price q side ts =
     (case add_u64 (fb_trade_count b) 1 ''adding candle trade count'' of
        Inl e \<Rightarrow> (Inl e, b)
      | Inr n \<Rightarrow>
        let b = b\<lparr>fb_trade_count := n\<rparr> in
        case add_i128 (fb_total_units b) q ''adding candle volume'' of
          Inl e \<Rightarrow> (Inl e, b)
        | Inr v \<Rightarrow>
          let b = b\<lparr>fb_total_units := v,
                    fb_high := Some (case fb_high b of None \<Rightarrow> price | Some p \<Rightarrow> max_price p price),
                    fb_low := Some (case fb_low b of None \<Rightarrow> price | Some p \<Rightarrow> min_price p price)\<rparr>;
              s = (case bt_get (fb_sources b) source of None \<Rightarrow> source_accumulator_new | Some s \<Rightarrow> s);
              (r, s) = add_to_source s bucket price q side ts
          in (r, b\<lparr>fb_sources := bt_insert source s (fb_sources b)\<rparr>))"

section \<open>Published candles\<close>

record price_level_flow =
  pl_price :: price
  pl_buy_volume :: quantity
  pl_sell_volume :: quantity
  pl_unknown_volume :: quantity
  pl_total_volume :: quantity
  pl_delta :: fixed
  pl_trade_count :: nat
  pl_first_timestamp_ns :: i64
  pl_last_timestamp_ns :: i64

record source_candle_flow =
  sc_source :: flow_source
  sc_high :: "price option"
  sc_low :: "price option"
  sc_buy_volume :: quantity
  sc_sell_volume :: quantity
  sc_unknown_volume :: quantity
  sc_total_volume :: quantity
  sc_delta :: fixed
  sc_trade_count :: nat
  sc_levels :: "price_level_flow list"

record candle_flow =
  cf_schema_version :: u16
  cf_state :: flow_state
  cf_instrument :: instrument_id
  cf_start_ts :: i64
  cf_end_ts :: i64
  cf_high :: "price option"
  cf_low :: "price option"
  cf_total_volume :: quantity
  cf_trade_count :: nat
  cf_sources :: "source_candle_flow list"

definition FLOW_SCHEMA_VERSION :: u16 where "FLOW_SCHEMA_VERSION = 1"

definition level_snapshot ::
    "grid_spec \<Rightarrow> price_bucket \<times> level_accumulator \<Rightarrow> analytics_error + price_level_flow" where
  "level_snapshot g = (\<lambda>(bucket, l).
     and_then (ok_or (checked_i128 (la_buy_units l - la_sell_units l))
                 (ArithmeticOverflow ''calculating price-level delta'')) (\<lambda>delta.
     and_then (price_at g bucket) (\<lambda>price.
     and_then (quantity_at g (la_buy_units l)) (\<lambda>buy.
     and_then (quantity_at g (la_sell_units l)) (\<lambda>sell.
     and_then (quantity_at g (la_unknown_units l)) (\<lambda>unk.
     and_then (quantity_at g (la_total_units l)) (\<lambda>total.
       Inr \<lparr>pl_price = price, pl_buy_volume = buy, pl_sell_volume = sell, pl_unknown_volume = unk,
            pl_total_volume = total, pl_delta = signed_quantity_at g delta,
            pl_trade_count = la_trade_count l, pl_first_timestamp_ns = la_first_timestamp_ns l,
            pl_last_timestamp_ns = la_last_timestamp_ns l\<rparr>)))))))"

definition source_snapshot ::
    "grid_spec \<Rightarrow> flow_source \<times> source_accumulator \<Rightarrow> analytics_error + source_candle_flow" where
  "source_snapshot g = (\<lambda>(source, s).
     and_then (try_map (level_snapshot g) (sa_levels s)) (\<lambda>levels.
     and_then (ok_or (checked_i128 (sa_buy_units s - sa_sell_units s))
                 (ArithmeticOverflow ''calculating source delta'')) (\<lambda>delta.
     and_then (quantity_at g (sa_buy_units s)) (\<lambda>buy.
     and_then (quantity_at g (sa_sell_units s)) (\<lambda>sell.
     and_then (quantity_at g (sa_unknown_units s)) (\<lambda>unk.
     and_then (quantity_at g (sa_total_units s)) (\<lambda>total.
       Inr \<lparr>sc_source = source, sc_high = sa_high s, sc_low = sa_low s, sc_buy_volume = buy,
            sc_sell_volume = sell, sc_unknown_volume = unk, sc_total_volume = total,
            sc_delta = signed_quantity_at g delta, sc_trade_count = sa_trade_count s,
            sc_levels = levels\<rparr>)))))))"

definition flow_snapshot :: "candle_flow_builder \<Rightarrow> flow_state \<Rightarrow> analytics_error + candle_flow" where
  "flow_snapshot b state =
     and_then (ok_or (fb_candle_start b) (CorruptSnapshot ''cannot snapshot an inactive candle'')) (\<lambda>start.
     and_then (ok_or (checked_i64 (start + tf_candle_ns (fb_time b)))
                 (ArithmeticOverflow ''calculating candle end'')) (\<lambda>end_ts.
     and_then (try_map (source_snapshot (fb_grid b)) (fb_sources b)) (\<lambda>sources.
     and_then (quantity_at (fb_grid b) (fb_total_units b)) (\<lambda>total.
       Inr \<lparr>cf_schema_version = FLOW_SCHEMA_VERSION, cf_state = state, cf_instrument = fb_instrument b,
            cf_start_ts = start, cf_end_ts = end_ts, cf_high = fb_high b, cf_low = fb_low b,
            cf_total_volume = total, cf_trade_count = fb_trade_count b, cf_sources = sources\<rparr>))))"

section \<open>The builder's operations\<close>

definition reject_late :: "candle_flow_builder \<Rightarrow> i64 \<Rightarrow> analytics_error + unit" where
  "reject_late b ts =
     (case fb_last_timestamp_ns b of
        None \<Rightarrow> Inr ()
      | Some lst \<Rightarrow> if ts < lst then Inl (LateTrade ts lst) else Inr ())"

definition clear_active :: "candle_flow_builder \<Rightarrow> candle_flow_builder" where
  "clear_active b =
     b\<lparr>fb_candle_start := None, fb_high := None, fb_low := None, fb_total_units := 0,
       fb_trade_count := 0, fb_sources := []\<rparr>"

fun instrument_number :: "instrument_id \<Rightarrow> u32" where
  "instrument_number (InstrumentId n) = n"

text \<open>The reads at the head of \<^verbatim>\<open>ingest\<close>: bucket, normalised price, units and target candle.\<close>

definition ingest_inputs ::
    "candle_flow_builder \<Rightarrow> trade_input \<Rightarrow> analytics_error + price_bucket \<times> price \<times> quantity_units \<times> i64" where
  "ingest_inputs b t =
     (if ti_instrument t \<noteq> fb_instrument b then
        Inl (InstrumentMismatch (instrument_number (fb_instrument b)) (instrument_number (ti_instrument t)))
      else
        and_then (reject_late b (ti_timestamp_ns t)) (\<lambda>_.
        and_then (price_bucket_of (fb_grid b) (ti_price t)) (\<lambda>bucket.
        and_then (price_tick_of (fb_grid b) (ti_price t)) (\<lambda>tick.
        and_then (price_at_tick (fb_grid b) tick) (\<lambda>price.
        and_then (quantity_units_of (fb_grid b) (ti_quantity t)) (\<lambda>q.
        and_then (checked_candle_start (fb_time b) (ti_timestamp_ns t)) (\<lambda>target.
        Inr (bucket, price, q, target))))))))"

text \<open>\<^verbatim>\<open>preflight_add\<close> followed by \<^verbatim>\<open>apply_add\<close> and the timestamp update, as three branches share it.\<close>

definition add_trade ::
    "candle_flow_builder \<Rightarrow> trade_input \<Rightarrow> price_bucket \<Rightarrow> price \<Rightarrow> quantity_units \<Rightarrow> i64 \<Rightarrow>
     (analytics_error + unit) \<times> candle_flow_builder" where
  "add_trade b t bucket price q target =
     (case preflight_add b (ti_source t) bucket q (ti_aggressor t) of
        Inl e \<Rightarrow> (Inl e, b)
      | Inr _ \<Rightarrow>
        sthen (apply_add (b\<lparr>fb_candle_start := Some target\<rparr>) (ti_source t) bucket price q (ti_aggressor t)
                 (ti_timestamp_ns t))
          (\<lambda>_ b'. (Inr (), b'\<lparr>fb_last_timestamp_ns := Some (ti_timestamp_ns t)\<rparr>)))"

definition flow_ingest ::
    "candle_flow_builder \<Rightarrow> trade_input \<Rightarrow> (analytics_error + candle_flow option) \<times> candle_flow_builder" where
  "flow_ingest b t =
     (case ingest_inputs b t of
        Inl e \<Rightarrow> (Inl e, b)
      | Inr (bucket, price, q, target) \<Rightarrow>
        (case fb_candle_start b of
           None \<Rightarrow> apfst (map_ok (\<lambda>_. None)) (add_trade b t bucket price q target)
         | Some current \<Rightarrow>
           if current < target then
             (case and_then (flow_snapshot b FinalFlow) (\<lambda>finalized.
                 and_then (flow_new (fb_instrument b) (fb_grid b) (fb_time b) (fb_config b)) (\<lambda>replacement.
                 case add_trade replacement t bucket price q target of
                   (Inl e, _) \<Rightarrow> Inl e
                 | (Inr _, replacement') \<Rightarrow> Inr (finalized, replacement'))) of
                Inl e \<Rightarrow> (Inl e, b)
              | Inr (finalized, replacement) \<Rightarrow> (Inr (Some finalized), replacement))
           else if target < current then (Inl (LateTrade (ti_timestamp_ns t) current), b)
           else apfst (map_ok (\<lambda>_. None)) (add_trade b t bucket price q current)))"

definition flow_advance_to ::
    "candle_flow_builder \<Rightarrow> i64 \<Rightarrow> (analytics_error + candle_flow option) \<times> candle_flow_builder" where
  "flow_advance_to b ts =
     (case reject_late b ts of
        Inl e \<Rightarrow> (Inl e, b)
      | Inr _ \<Rightarrow>
        (case fb_candle_start b of
           None \<Rightarrow> (Inr None, b\<lparr>fb_last_timestamp_ns := Some ts\<rparr>)
         | Some current \<Rightarrow>
           (case checked_candle_start (fb_time b) ts of
              Inl e \<Rightarrow> (Inl e, b)
            | Inr target \<Rightarrow>
              if current < target then
                (case flow_snapshot b FinalFlow of
                   Inl e \<Rightarrow> (Inl e, b)
                 | Inr finalized \<Rightarrow>
                   (Inr (Some finalized), (clear_active b)\<lparr>fb_last_timestamp_ns := Some ts\<rparr>))
              else (Inr None, b\<lparr>fb_last_timestamp_ns := Some ts\<rparr>))))"

definition flow_live_snapshot :: "candle_flow_builder \<Rightarrow> analytics_error + candle_flow option" where
  "flow_live_snapshot b = transpose_opt (\<lambda>_. flow_snapshot b LiveFlow) (fb_candle_start b)"

definition flow_finish :: "candle_flow_builder \<Rightarrow> (analytics_error + candle_flow option) \<times> candle_flow_builder" where
  "flow_finish b =
     (if fb_candle_start b = None then (Inr None, b)
      else case flow_snapshot b FinalFlow of
        Inl e \<Rightarrow> (Inl e, b)
      | Inr finalized \<Rightarrow> (Inr (Some finalized), clear_active b))"

section \<open>Validation\<close>

definition validate_level :: "i128 \<Rightarrow> price_bucket \<times> level_accumulator \<Rightarrow> analytics_error + i128" where
  "validate_level level_sum = (\<lambda>(_, l).
     if la_total_units l < 0 \<or> la_buy_units l < 0 \<or> la_sell_units l < 0 \<or> la_unknown_units l < 0 then
       Inl (CorruptSnapshot ''negative price-level volume'')
     else
       and_then (and_then (add_i128 (la_buy_units l) (la_sell_units l) ''validating price-level volume'')
                   (\<lambda>v. add_i128 v (la_unknown_units l) ''validating price-level volume'')) (\<lambda>sides.
         if sides \<noteq> la_total_units l then
           Inl (CorruptSnapshot ''price-level total does not equal side sum'')
         else add_i128 level_sum (la_total_units l) ''validating source volume''))"

definition validate_source :: "i128 \<Rightarrow> flow_source \<times> source_accumulator \<Rightarrow> analytics_error + i128" where
  "validate_source acc = (\<lambda>(_, s).
     if sa_total_units s < 0 \<or> sa_buy_units s < 0 \<or> sa_sell_units s < 0 \<or> sa_unknown_units s < 0 then
       Inl (CorruptSnapshot ''negative source volume'')
     else
       and_then (try_fold validate_level 0 (sa_levels s)) (\<lambda>level_total.
         if level_total \<noteq> sa_total_units s then
           Inl (CorruptSnapshot ''source total does not equal level sum'')
         else add_i128 acc (sa_total_units s) ''validating candle volume''))"

definition flow_validate :: "candle_flow_builder \<Rightarrow> analytics_error + unit" where
  "flow_validate b =
     and_then (grid_validate (fb_grid b)) (\<lambda>_. and_then (timeframe_validate (fb_time b)) (\<lambda>_.
     and_then (flow_config_validate (fb_config b)) (\<lambda>_.
       if fc_max_sources (fb_config b) < length (fb_sources b) then
         Inl (CorruptSnapshot ''source count exceeds configured capacity'')
       else if list_ex (\<lambda>(_, s). fc_max_levels_per_source (fb_config b) < length (sa_levels s)) (fb_sources b) then
         Inl (CorruptSnapshot ''source level count exceeds configured capacity'')
       else if fc_max_trades_per_candle (fb_config b) < fb_trade_count b then
         Inl (CorruptSnapshot ''trade count exceeds configured capacity'')
       else if fb_total_units b < 0 then Inl (CorruptSnapshot ''negative candle volume'')
       else
         and_then (try_fold validate_source 0 (fb_sources b)) (\<lambda>source_total.
           if source_total \<noteq> fb_total_units b then
             Inl (CorruptSnapshot ''candle total does not equal source sum'')
           else if fb_candle_start b = None
                   \<and> (fb_sources b \<noteq> [] \<or> fb_trade_count b \<noteq> 0 \<or> fb_total_units b \<noteq> 0) then
             Inl (CorruptSnapshot ''inactive candle retains flow state'')
           else Inr ()))))"

section \<open>Errors change nothing\<close>

lemma preflight_side_apply:
  "preflight_side buy sell unk q side = Inr u \<Longrightarrow> \<exists>v. apply_side (buy, sell, unk) q side = Inr v"
  by (cases side) (auto simp: result_iffs)

lemma apply_side_zero: "in_i128 q \<Longrightarrow> \<exists>v. apply_side (0, 0, 0) q side = Inr v"
  by (cases side) (auto simp: result_iffs)

text \<open>The checks a successful \<^verbatim>\<open>preflight_add\<close> made.\<close>

lemma preflight_add_Inr:
  assumes "preflight_add b source bucket q side = Inr ()"
  shows "fb_trade_count b < fc_max_trades_per_candle (fb_config b)"
    and "fb_trade_count b + 1 < 2 ^ 64" and "in_i128 (fb_total_units b + q)"
    and "bt_get (fb_sources b) source = None \<Longrightarrow> length (fb_sources b) < fc_max_sources (fb_config b)"
    and "bt_get (fb_sources b) source = Some s \<Longrightarrow>
      sa_trade_count s + 1 < 2 ^ 64 \<and> in_i128 (sa_total_units s + q) \<and>
      preflight_side (sa_buy_units s) (sa_sell_units s) (sa_unknown_units s) q side = Inr () \<and>
      (bt_get (sa_levels s) bucket = None \<longrightarrow> length (sa_levels s) < fc_max_levels_per_source (fb_config b)) \<and>
      (\<forall>l. bt_get (sa_levels s) bucket = Some l \<longrightarrow>
        la_trade_count l + 1 < 2 ^ 64 \<and> in_i128 (la_total_units l + q) \<and>
        preflight_side (la_buy_units l) (la_sell_units l) (la_unknown_units l) q side = Inr ())"
  using assms
  by (auto simp: preflight_add_def Let_def result_iffs split: if_splits option.splits)

lemma add_to_level_ok:
  assumes "la_trade_count l + 1 < 2 ^ 64" and "in_i128 (la_total_units l + q)"
    and "\<exists>v. apply_side (la_buy_units l, la_sell_units l, la_unknown_units l) q side = Inr v"
  shows "fst (add_to_level l q side ts) = Inr ()"
  using assms by (auto simp: add_to_level_def checked_defs)

lemma add_to_source_ok:
  assumes "sa_trade_count s + 1 < 2 ^ 64" and "in_i128 (sa_total_units s + q)"
    and "\<exists>v. apply_side (sa_buy_units s, sa_sell_units s, sa_unknown_units s) q side = Inr v"
    and "fst (add_to_level (case bt_get (sa_levels s) bucket of None \<Rightarrow> level_accumulator_new ts | Some l \<Rightarrow> l)
      q side ts) = Inr ()"
  shows "fst (add_to_source s bucket price q side ts) = Inr ()"
  using assms by (auto simp: add_to_source_def checked_defs Let_def split: prod.split)

text \<open>After a successful preflight no step of \<^verbatim>\<open>apply_add\<close> can fail.\<close>

lemma apply_add_ok:
  assumes pre: "preflight_add b source bucket q side = Inr ()" and q: "in_i128 q"
  shows "fst (apply_add b source bucket price q side ts) = Inr ()"
proof -
  note checks = preflight_add_Inr [OF pre]
  have new: "fst (add_to_level (level_accumulator_new ts) q side ts) = Inr ()"
    using apply_side_zero [OF q, of side] q by (intro add_to_level_ok) (simp_all add: level_accumulator_new_def)
  let ?s = "case bt_get (fb_sources b) source of None \<Rightarrow> source_accumulator_new | Some s \<Rightarrow> s"
  have "fst (add_to_source ?s bucket price q side ts) = Inr ()"
  proof (cases "bt_get (fb_sources b) source")
    case None
    then show ?thesis
      using apply_side_zero [OF q, of side] q new
      by (simp, intro add_to_source_ok) (simp_all add: source_accumulator_new_def)
  next
    case (Some s)
    note s = checks(5) [OF Some]
    have "fst (add_to_level (case bt_get (sa_levels s) bucket of None \<Rightarrow> level_accumulator_new ts | Some l \<Rightarrow> l)
        q side ts) = Inr ()"
    proof (cases "bt_get (sa_levels s) bucket")
      case (Some l)
      with s show ?thesis by (auto intro!: add_to_level_ok preflight_side_apply)
    qed (simp add: new)
    with s Some show ?thesis by (auto intro!: add_to_source_ok preflight_side_apply)
  qed
  with checks(2,3) show ?thesis by (auto simp: apply_add_def checked_defs Let_def split: prod.split)
qed

lemma preflight_add_start [simp]:
  "preflight_add (b\<lparr>fb_candle_start := c\<rparr>) source bucket q side = preflight_add b source bucket q side"
proof -
  have fields: "fb_config (b\<lparr>fb_candle_start := c\<rparr>) = fb_config b" "fb_sources (b\<lparr>fb_candle_start := c\<rparr>) = fb_sources b"
    "fb_trade_count (b\<lparr>fb_candle_start := c\<rparr>) = fb_trade_count b" "fb_total_units (b\<lparr>fb_candle_start := c\<rparr>) = fb_total_units b"
    by simp_all
  show ?thesis unfolding preflight_add_def fields ..
qed

lemma add_trade_error:
  assumes "in_i128 q" and "add_trade b t bucket price q target = (Inl e, b')"
  shows "b' = b"
proof (cases "preflight_add b (ti_source t) bucket q (ti_aggressor t)")
  case (Inr u)
  then have pre: "preflight_add (b\<lparr>fb_candle_start := Some target\<rparr>) (ti_source t) bucket q (ti_aggressor t) = Inr ()"
    by simp
  let ?run = "apply_add (b\<lparr>fb_candle_start := Some target\<rparr>) (ti_source t) bucket price q (ti_aggressor t)
       (ti_timestamp_ns t)"
  have "fst ?run = Inr ()" by (rule apply_add_ok [OF pre assms(1)])
  with assms(2) Inr show ?thesis by (cases ?run) (simp add: add_trade_def)
qed (use assms(2) in \<open>simp add: add_trade_def\<close>)

lemma quantity_units_of_Inr:
  assumes "quantity_units_of g q = Inr u" and "fixed_ok (quantity_fixed q)"
  shows "0 < u" and "in_i128 u"
  using assms rescale_exact_range [of "quantity_fixed q" "g_quantity_scale g"]
  by (auto simp: quantity_units_of_def non_negative_quantity_units_def result_iffs fixed_ok_def split: if_splits)

lemma ingest_inputs_Inr:
  assumes "ingest_inputs b t = Inr (bucket, price, q, target)"
  shows "ti_instrument t = fb_instrument b" and "reject_late b (ti_timestamp_ns t) = Inr ()"
    and "price_bucket_of (fb_grid b) (ti_price t) = Inr bucket"
    and "\<exists>tick. price_tick_of (fb_grid b) (ti_price t) = Inr tick \<and> price_at_tick (fb_grid b) tick = Inr price"
    and "quantity_units_of (fb_grid b) (ti_quantity t) = Inr q"
    and "checked_candle_start (fb_time b) (ti_timestamp_ns t) = Inr target"
  using assms by (auto simp: ingest_inputs_def result_iffs split: if_splits)

lemma flow_ingest_error:
  assumes "fixed_ok (quantity_fixed (ti_quantity t))" and "flow_ingest b t = (Inl e, b')"
  shows "b' = b"
proof (cases "ingest_inputs b t")
  case (Inr x)
  obtain bucket price q target where x: "x = (bucket, price, q, target)" by (cases x) auto
  have q: "in_i128 q" using ingest_inputs_Inr(5) [of b t] Inr x assms(1) quantity_units_of_Inr(2) by blast
  have "b' = b" if "apfst (map_ok (\<lambda>_. None)) (add_trade b t bucket price q c) = (Inl e, b')" for c
    using that add_trade_error [OF q, of b t bucket price c]
    by (cases "add_trade b t bucket price q c") (auto simp: map_ok_Inl_iff)
  with assms(2) Inr x show ?thesis
    by (auto simp: flow_ingest_def split: option.splits if_splits sum.splits prod.splits)
qed (use assms(2) in \<open>simp add: flow_ingest_def\<close>)

section \<open>What the accumulators stand for\<close>

text \<open>
  The abstract state of a candle is the list of the trades it accepted, in order, each normalised to
  its bucket, grid price and units.  An accumulator stands for a list of such trades when its counters
  are the sums over the list.
\<close>

record flow_add =
  ad_source :: flow_source
  ad_bucket :: price_bucket
  ad_price :: price
  ad_units :: quantity_units
  ad_side :: aggressor_side
  ad_ts :: i64

definition units :: "flow_add list \<Rightarrow> int" where
  "units as = sum_list (map ad_units as)"

definition side_units :: "aggressor_side \<Rightarrow> flow_add list \<Rightarrow> int" where
  "side_units d as = units (filter (\<lambda>a. ad_side a = d) as)"

definition level_of :: "flow_add list \<Rightarrow> level_accumulator option" where
  "level_of as =
     (if as = [] then None
      else Some \<lparr>la_buy_units = side_units Buy as, la_sell_units = side_units Sell as,
        la_unknown_units = side_units Unknown as, la_total_units = units as, la_trade_count = length as,
        la_first_timestamp_ns = ad_ts (hd as), la_last_timestamp_ns = ad_ts (last as)\<rparr>)"

definition highest :: "price list \<Rightarrow> price option \<Rightarrow> bool" where
  "highest ps h \<longleftrightarrow>
     (case h of None \<Rightarrow> ps = []
      | Some p \<Rightarrow> p \<in> set ps \<and> (\<forall>q \<in> set ps. coefficient (price_fixed q) \<le> coefficient (price_fixed p)))"

definition lowest :: "price list \<Rightarrow> price option \<Rightarrow> bool" where
  "lowest ps l \<longleftrightarrow>
     (case l of None \<Rightarrow> ps = []
      | Some p \<Rightarrow> p \<in> set ps \<and> (\<forall>q \<in> set ps. coefficient (price_fixed p) \<le> coefficient (price_fixed q)))"

definition in_bucket :: "price_bucket \<Rightarrow> flow_add list \<Rightarrow> flow_add list" where
  "in_bucket k as = filter (\<lambda>a. ad_bucket a = k) as"

definition from_source :: "flow_source \<Rightarrow> flow_add list \<Rightarrow> flow_add list" where
  "from_source s as = filter (\<lambda>a. ad_source a = s) as"

definition source_rep :: "flow_add list \<Rightarrow> source_accumulator \<Rightarrow> bool" where
  "source_rep as s \<longleftrightarrow>
     sa_buy_units s = side_units Buy as \<and> sa_sell_units s = side_units Sell as \<and>
     sa_unknown_units s = side_units Unknown as \<and> sa_total_units s = units as \<and>
     sa_trade_count s = length as \<and> highest (map ad_price as) (sa_high s) \<and> lowest (map ad_price as) (sa_low s) \<and>
     bt_ok (sa_levels s) \<and> (\<forall>k. bt_get (sa_levels s) k = level_of (in_bucket k as))"

definition flow_rep :: "flow_add list \<Rightarrow> candle_flow_builder \<Rightarrow> bool" where
  "flow_rep as b \<longleftrightarrow>
     fb_total_units b = units as \<and> fb_trade_count b = length as \<and>
     highest (map ad_price as) (fb_high b) \<and> lowest (map ad_price as) (fb_low b) \<and> bt_ok (fb_sources b) \<and>
     (\<forall>src. case bt_get (fb_sources b) src of
        None \<Rightarrow> from_source src as = []
      | Some s \<Rightarrow> from_source src as \<noteq> [] \<and> source_rep (from_source src as) s)"

lemma units_simps [simp]:
  "units [] = 0" "units (as @ bs) = units as + units bs" "units [a] = ad_units a"
  by (simp_all add: units_def)

lemma side_units_simps [simp]:
  "side_units d [] = 0" "side_units d (as @ bs) = side_units d as + side_units d bs"
  "side_units d [a] = (if ad_side a = d then ad_units a else 0)"
  by (simp_all add: side_units_def)

lemma in_bucket_simps [simp]:
  "in_bucket k [] = []" "in_bucket k (as @ bs) = in_bucket k as @ in_bucket k bs"
  "in_bucket k [a] = (if ad_bucket a = k then [a] else [])"
  by (simp_all add: in_bucket_def)

lemma from_source_simps [simp]:
  "from_source s [] = []" "from_source s (as @ bs) = from_source s as @ from_source s bs"
  "from_source s [a] = (if ad_source a = s then [a] else [])"
  by (simp_all add: from_source_def)

lemma highest_snoc:
  "highest ps h \<Longrightarrow> highest (ps @ [q]) (Some (case h of None \<Rightarrow> q | Some p \<Rightarrow> max_price p q))"
  by (fastforce simp: highest_def max_price_def split: option.splits)

lemma lowest_snoc:
  "lowest ps h \<Longrightarrow> lowest (ps @ [q]) (Some (case h of None \<Rightarrow> q | Some p \<Rightarrow> min_price p q))"
  by (fastforce simp: lowest_def min_price_def split: option.splits)

lemma apply_side_sums:
  "apply_side (side_units Buy as, side_units Sell as, side_units Unknown as) (ad_units a) (ad_side a) = Inr v \<Longrightarrow>
     v = (side_units Buy (as @ [a]), side_units Sell (as @ [a]), side_units Unknown (as @ [a]))"
  by (cases "ad_side a") (auto simp: result_iffs)

text \<open>One step of each accumulator appends the trade to the list it stands for.\<close>

lemma add_to_level_rep:
  assumes "l = (case level_of as of None \<Rightarrow> level_accumulator_new (ad_ts a) | Some l \<Rightarrow> l)"
    and "add_to_level l (ad_units a) (ad_side a) (ad_ts a) = (Inr (), l')"
  shows "level_of (as @ [a]) = Some l'"
proof -
  have l: "(la_buy_units l, la_sell_units l, la_unknown_units l) =
      (side_units Buy as, side_units Sell as, side_units Unknown as)"
    "la_total_units l = units as" "la_trade_count l = length as"
    "la_first_timestamp_ns l = ad_ts (hd (as @ [a]))"
    using assms(1) by (auto simp: level_of_def level_accumulator_new_def split: option.splits if_splits)
  with assms(2) obtain v where
    v: "apply_side (side_units Buy as, side_units Sell as, side_units Unknown as) (ad_units a) (ad_side a) = Inr v"
    and l': "l' = (case v of (buy, sell, unk) \<Rightarrow> l\<lparr>la_trade_count := length as + 1,
      la_total_units := units as + ad_units a, la_buy_units := buy, la_sell_units := sell,
      la_unknown_units := unk, la_last_timestamp_ns := ad_ts a\<rparr>)"
    by (auto simp: add_to_level_def Let_def result_iffs split: sum.splits prod.splits)
  with apply_side_sums [OF v] l(4) show ?thesis
    by (cases l) (simp add: level_of_def)
qed

lemma add_to_source_rep:
  assumes s: "as = [] \<and> s = source_accumulator_new \<or> source_rep as s"
    and run: "add_to_source s (ad_bucket a) (ad_price a) (ad_units a) (ad_side a) (ad_ts a) = (Inr (), s')"
  shows "source_rep (as @ [a]) s'"
proof -
  have rep: "source_rep as s"
    using s by (auto simp: source_rep_def source_accumulator_new_def highest_def lowest_def level_of_def)
  let ?k = "ad_bucket a"
  let ?l = "case bt_get (sa_levels s) ?k of None \<Rightarrow> level_accumulator_new (ad_ts a) | Some l \<Rightarrow> l"
  obtain v l' where
    v: "apply_side (side_units Buy as, side_units Sell as, side_units Unknown as) (ad_units a) (ad_side a) = Inr v"
    and l': "add_to_level ?l (ad_units a) (ad_side a) (ad_ts a) = (Inr (), l')"
    and s': "s' = (case v of (buy, sell, unk) \<Rightarrow> s\<lparr>sa_trade_count := length as + 1,
      sa_total_units := units as + ad_units a, sa_buy_units := buy, sa_sell_units := sell, sa_unknown_units := unk,
      sa_high := Some (case sa_high s of None \<Rightarrow> ad_price a | Some p \<Rightarrow> max_price p (ad_price a)),
      sa_low := Some (case sa_low s of None \<Rightarrow> ad_price a | Some p \<Rightarrow> min_price p (ad_price a)),
      sa_levels := bt_insert ?k l' (sa_levels s)\<rparr>)"
    using run rep
    by (auto simp: add_to_source_def source_rep_def Let_def result_iffs split: sum.splits prod.splits)
  have "level_of (in_bucket ?k as @ [a]) = Some l'"
    by (rule add_to_level_rep [OF _ l']) (use rep in \<open>simp add: source_rep_def\<close>)
  with rep apply_side_sums [OF v] show ?thesis
    by (simp add: source_rep_def s' highest_snoc lowest_snoc bt_ok_insert bt_get_insert)
qed

lemma apply_add_rep:
  assumes rep: "flow_rep as b"
    and run: "apply_add b (ad_source a) (ad_bucket a) (ad_price a) (ad_units a) (ad_side a) (ad_ts a) = (Inr (), c)"
  shows "flow_rep (as @ [a]) c"
proof -
  let ?src = "ad_source a"
  let ?s = "case bt_get (fb_sources b) ?src of None \<Rightarrow> source_accumulator_new | Some s \<Rightarrow> s"
  obtain s' where
    s': "add_to_source ?s (ad_bucket a) (ad_price a) (ad_units a) (ad_side a) (ad_ts a) = (Inr (), s')"
    and c: "c = b\<lparr>fb_trade_count := length as + 1, fb_total_units := units as + ad_units a,
      fb_high := Some (case fb_high b of None \<Rightarrow> ad_price a | Some p \<Rightarrow> max_price p (ad_price a)),
      fb_low := Some (case fb_low b of None \<Rightarrow> ad_price a | Some p \<Rightarrow> min_price p (ad_price a)),
      fb_sources := bt_insert ?src s' (fb_sources b)\<rparr>"
    using run rep
    by (auto simp: apply_add_def flow_rep_def Let_def result_iffs split: sum.splits prod.splits)
  have at: "case bt_get (fb_sources b) src of None \<Rightarrow> from_source src as = []
      | Some s \<Rightarrow> from_source src as \<noteq> [] \<and> source_rep (from_source src as) s" for src
    using rep by (simp add: flow_rep_def)
  have "source_rep (from_source ?src as @ [a]) s'"
    by (rule add_to_source_rep [OF _ s']) (use at [of ?src] in \<open>auto split: option.splits\<close>)
  moreover have "highest (map ad_price as) (fb_high b)" "lowest (map ad_price as) (fb_low b)" "bt_ok (fb_sources b)"
    using rep by (simp_all add: flow_rep_def)
  moreover have "case bt_get (fb_sources b) src of None \<Rightarrow> from_source src (as @ [a]) = []
      | Some s \<Rightarrow> from_source src (as @ [a]) \<noteq> [] \<and> source_rep (from_source src (as @ [a])) s"
    if "src \<noteq> ?src" for src
    using at [of src] that by (simp split: option.splits)
  ultimately show ?thesis
    by (simp add: flow_rep_def c highest_snoc lowest_snoc bt_ok_insert bt_get_insert)
qed

section \<open>Reachable builders\<close>

definition normalise :: "grid_spec \<Rightarrow> trade_input \<Rightarrow> analytics_error + flow_add" where
  "normalise g t =
     and_then (price_bucket_of g (ti_price t)) (\<lambda>bucket. and_then (price_tick_of g (ti_price t)) (\<lambda>tick.
     and_then (price_at_tick g tick) (\<lambda>price. and_then (quantity_units_of g (ti_quantity t)) (\<lambda>q.
     Inr \<lparr>ad_source = ti_source t, ad_bucket = bucket, ad_price = price, ad_units = q,
          ad_side = ti_aggressor t, ad_ts = ti_timestamp_ns t\<rparr>))))"

definition trade_ok :: "trade_input \<Rightarrow> bool" where
  "trade_ok t \<longleftrightarrow> fixed_ok (price_fixed (ti_price t)) \<and> fixed_ok (quantity_fixed (ti_quantity t))"

text \<open>
  \<open>flow_reach as b\<close>: some sequence of calls, failed ones included, leads from a new builder to \<open>b\<close>, and
  \<open>as\<close> are the trades accepted since the current candle was opened.
\<close>

inductive flow_reach :: "flow_add list \<Rightarrow> candle_flow_builder \<Rightarrow> bool" where
  start: "flow_new i g tf c = Inr b \<Longrightarrow> flow_reach [] b"
| accepted: "flow_reach as b \<Longrightarrow> trade_ok t \<Longrightarrow> flow_ingest b t = (Inr None, b') \<Longrightarrow>
    normalise (fb_grid b) t = Inr a \<Longrightarrow> flow_reach (as @ [a]) b'"
| rolled: "flow_reach as b \<Longrightarrow> trade_ok t \<Longrightarrow> flow_ingest b t = (Inr (Some cf), b') \<Longrightarrow>
    normalise (fb_grid b) t = Inr a \<Longrightarrow> flow_reach [a] b'"
| refused: "flow_reach as b \<Longrightarrow> trade_ok t \<Longrightarrow> flow_ingest b t = (Inl e, b') \<Longrightarrow> flow_reach as b'"
| advanced: "flow_reach as b \<Longrightarrow> flow_advance_to b ts = (Inr None, b') \<Longrightarrow> flow_reach as b'"
| closed: "flow_reach as b \<Longrightarrow> flow_advance_to b ts = (Inr (Some cf), b') \<Longrightarrow> flow_reach [] b'"
| late: "flow_reach as b \<Longrightarrow> flow_advance_to b ts = (Inl e, b') \<Longrightarrow> flow_reach as b'"
| finished: "flow_reach as b \<Longrightarrow> flow_finish b = (Inr r, b') \<Longrightarrow> flow_reach [] b'"
| unfinished: "flow_reach as b \<Longrightarrow> flow_finish b = (Inl e, b') \<Longrightarrow> flow_reach as b'"

definition capacity_ok :: "candle_flow_builder \<Rightarrow> bool" where
  "capacity_ok b \<longleftrightarrow>
     length (fb_sources b) \<le> fc_max_sources (fb_config b) \<and>
     (\<forall>(src, s) \<in> set (fb_sources b). length (sa_levels s) \<le> fc_max_levels_per_source (fb_config b)) \<and>
     fb_trade_count b \<le> fc_max_trades_per_candle (fb_config b)"

definition config_ok :: "candle_flow_builder \<Rightarrow> bool" where
  "config_ok b \<longleftrightarrow> grid_validate (fb_grid b) = Inr () \<and> timeframe_validate (fb_time b) = Inr () \<and>
     flow_config_validate (fb_config b) = Inr ()"

definition adds_ok :: "flow_add list \<Rightarrow> candle_flow_builder \<Rightarrow> bool" where
  "adds_ok as b \<longleftrightarrow> (\<forall>a \<in> set as. 0 < ad_units a) \<and> in_i128 (units as) \<and>
     (case fb_candle_start b of None \<Rightarrow> as = []
      | Some c \<Rightarrow> \<forall>a \<in> set as. checked_candle_start (fb_time b) (ad_ts a) = Inr c)"

definition flow_inv :: "flow_add list \<Rightarrow> candle_flow_builder \<Rightarrow> bool" where
  "flow_inv as b \<longleftrightarrow> flow_rep as b \<and> config_ok b \<and> capacity_ok b \<and> adds_ok as b"

lemma apply_add_frame:
  assumes "apply_add b source bucket price q side ts = (r, c)"
  shows "fb_grid c = fb_grid b \<and> fb_time c = fb_time b \<and> fb_config c = fb_config b \<and>
    fb_candle_start c = fb_candle_start b \<and> fb_instrument c = fb_instrument b"
  using assms by (auto simp: apply_add_def Let_def split: sum.splits prod.splits)

lemma add_to_source_levels:
  assumes "add_to_source s bucket price q side ts = (Inr (), s')"
  shows "\<exists>l. sa_levels s' = bt_insert bucket l (sa_levels s)"
  using assms by (auto simp: add_to_source_def Let_def split: sum.splits prod.splits)

lemma apply_add_sources:
  assumes "apply_add b source bucket price q side ts = (Inr (), c)"
  shows "fb_trade_count c = fb_trade_count b + 1 \<and> in_i128 (fb_total_units c) \<and>
    (\<exists>s'. fb_sources c = bt_insert source s' (fb_sources b) \<and>
      (\<exists>l. sa_levels s' = bt_insert bucket l
        (case bt_get (fb_sources b) source of None \<Rightarrow> [] | Some s \<Rightarrow> sa_levels s)))"
proof -
  let ?s = "case bt_get (fb_sources b) source of None \<Rightarrow> source_accumulator_new | Some s \<Rightarrow> s"
  obtain s' where s': "add_to_source ?s bucket price q side ts = (Inr (), s')"
    and c: "fb_trade_count c = fb_trade_count b + 1" "in_i128 (fb_total_units c)"
      "fb_sources c = bt_insert source s' (fb_sources b)"
    using assms by (auto simp: apply_add_def Let_def result_iffs split: sum.splits prod.splits)
  have "sa_levels ?s = (case bt_get (fb_sources b) source of None \<Rightarrow> [] | Some s \<Rightarrow> sa_levels s)"
    by (simp add: source_accumulator_new_def split: option.split)
  with add_to_source_levels [OF s'] c show ?thesis by auto
qed

lemma flow_rep_levels_ok: "flow_rep as b \<Longrightarrow> bt_get (fb_sources b) src = Some s \<Longrightarrow> bt_ok (sa_levels s)"
  by (auto simp: flow_rep_def source_rep_def dest: spec [of _ src])

lemma capacity_step:
  assumes rep: "flow_rep as b" and cap: "capacity_ok b" and conf: "config_ok b"
    and pre: "preflight_add b source bucket q side = Inr ()"
    and run: "apply_add b source bucket price q side ts = (Inr (), c)"
  shows "capacity_ok c"
proof -
  note checks = preflight_add_Inr [OF pre]
  have ok: "bt_ok (fb_sources b)" using rep by (simp add: flow_rep_def)
  obtain s' l where s': "fb_sources c = bt_insert source s' (fb_sources b)"
    and l: "sa_levels s' = bt_insert bucket l (case bt_get (fb_sources b) source of None \<Rightarrow> [] | Some s \<Rightarrow> sa_levels s)"
    and n: "fb_trade_count c = fb_trade_count b + 1"
    using apply_add_sources [OF run] by blast
  have frame: "fb_config c = fb_config b" using apply_add_frame [OF run] by simp
  have lvl: "length (sa_levels s') \<le> fc_max_levels_per_source (fb_config b)"
  proof (cases "bt_get (fb_sources b) source")
    case None
    then have "length (sa_levels s') = 1" by (simp add: l bt_insert_def)
    with conf show ?thesis
      by (auto simp: config_ok_def flow_config_validate_def flow_config_new_def result_iffs split: if_splits)
  next
    case (Some s)
    then have "(source, s) \<in> set (fb_sources b)" using ok by (simp add: bt_get_Some_iff)
    with cap have "length (sa_levels s) \<le> fc_max_levels_per_source (fb_config b)" by (auto simp: capacity_ok_def)
    with checks(5) [OF Some] Some show ?thesis
      by (auto simp: l length_bt_insert [OF flow_rep_levels_ok [OF rep Some]])
  qed
  have "length (fb_sources c) \<le> fc_max_sources (fb_config b)"
    using cap checks(4) by (auto simp: s' length_bt_insert [OF ok] capacity_ok_def)
  moreover have "set (fb_sources c) \<subseteq> insert (source, s') (set (fb_sources b))"
    using ok by (auto simp: s' set_bt_insert)
  ultimately show ?thesis
    using cap checks(1) lvl unfolding capacity_ok_def frame by (auto simp: n)
qed

lemma flow_inv_new: "flow_new i g tf c = Inr b \<Longrightarrow> flow_inv [] b"
  by (auto simp: flow_new_def result_iffs flow_inv_def flow_rep_def config_ok_def capacity_ok_def
      adds_ok_def highest_def lowest_def)

lemma ingest_inputs_normalise:
  assumes "ingest_inputs b t = Inr (bucket, price, q, target)"
  shows "normalise (fb_grid b) t = Inr \<lparr>ad_source = ti_source t, ad_bucket = bucket, ad_price = price,
    ad_units = q, ad_side = ti_aggressor t, ad_ts = ti_timestamp_ns t\<rparr>"
  using assms by (auto simp: ingest_inputs_def normalise_def result_iffs split: if_splits)

lemma flow_rep_update [simp]:
  "flow_rep as (b\<lparr>fb_candle_start := x\<rparr>) = flow_rep as b"
  "flow_rep as (b\<lparr>fb_last_timestamp_ns := y\<rparr>) = flow_rep as b"
  by (simp_all add: flow_rep_def)

lemma config_ok_update [simp]:
  "config_ok (b\<lparr>fb_candle_start := x\<rparr>) = config_ok b"
  "config_ok (b\<lparr>fb_last_timestamp_ns := y\<rparr>) = config_ok b"
  by (simp_all add: config_ok_def)

lemma capacity_ok_update [simp]:
  "capacity_ok (b\<lparr>fb_candle_start := x\<rparr>) = capacity_ok b"
  "capacity_ok (b\<lparr>fb_last_timestamp_ns := y\<rparr>) = capacity_ok b"
  by (simp_all add: capacity_ok_def)

lemma flow_inv_timestamp [simp]: "flow_inv as (b\<lparr>fb_last_timestamp_ns := y\<rparr>) = flow_inv as b"
proof -
  have fields: "fb_candle_start (b\<lparr>fb_last_timestamp_ns := y\<rparr>) = fb_candle_start b"
    "fb_time (b\<lparr>fb_last_timestamp_ns := y\<rparr>) = fb_time b" by simp_all
  show ?thesis unfolding flow_inv_def adds_ok_def fields by simp
qed

text \<open>Adding one normalised trade to a builder that is idle or in the trade's candle.\<close>

lemma add_trade_inv:
  assumes inv: "flow_inv as b" and idle: "fb_candle_start b = None \<or> fb_candle_start b = Some target"
    and inputs: "0 < q" "checked_candle_start (fb_time b) (ti_timestamp_ns t) = Inr target"
    and run: "add_trade b t bucket price q target = (Inr (), c)"
  shows "flow_inv (as @ [\<lparr>ad_source = ti_source t, ad_bucket = bucket, ad_price = price, ad_units = q,
    ad_side = ti_aggressor t, ad_ts = ti_timestamp_ns t\<rparr>]) c"
proof -
  let ?a = "\<lparr>ad_source = ti_source t, ad_bucket = bucket, ad_price = price, ad_units = q,
    ad_side = ti_aggressor t, ad_ts = ti_timestamp_ns t\<rparr>"
  let ?b = "b\<lparr>fb_candle_start := Some target\<rparr>"
  from run obtain d where pre: "preflight_add ?b (ad_source ?a) (ad_bucket ?a) (ad_units ?a) (ad_side ?a) = Inr ()"
    and d: "apply_add ?b (ad_source ?a) (ad_bucket ?a) (ad_price ?a) (ad_units ?a) (ad_side ?a) (ad_ts ?a) = (Inr (), d)"
    and c: "c = d\<lparr>fb_last_timestamp_ns := Some (ti_timestamp_ns t)\<rparr>"
    by (auto simp: add_trade_def result_iffs split: sum.splits)
  have rep: "flow_rep as ?b" and cap: "capacity_ok ?b" and conf: "config_ok ?b" and adds: "adds_ok as b"
    using inv by (simp_all add: flow_inv_def)
  note frame = apply_add_frame [OF d]
  have "flow_rep (as @ [?a]) d" using rep d by (rule apply_add_rep)
  moreover have "capacity_ok d" using rep cap conf pre d by (rule capacity_step)
  moreover have "config_ok d" using conf frame by (simp add: config_ok_def)
  moreover have "in_i128 (units (as @ [?a]))"
    using apply_add_sources [OF d] \<open>flow_rep (as @ [?a]) d\<close> by (simp add: flow_rep_def)
  moreover have "\<forall>a \<in> set as. 0 < ad_units a \<and> checked_candle_start (fb_time b) (ad_ts a) = Inr target"
    using adds idle by (auto simp: adds_ok_def)
  ultimately show ?thesis
    using inputs frame unfolding c flow_inv_timestamp by (auto simp: flow_inv_def adds_ok_def)
qed

lemma replaced_Inr:
  assumes "and_then s (\<lambda>f. and_then w (\<lambda>m. case g m of (Inl e, _) \<Rightarrow> Inl e | (Inr u, k) \<Rightarrow> Inr (f, k))) = Inr (cf, c)"
  shows "s = Inr cf \<and> (\<exists>n u. w = Inr n \<and> g n = (Inr u, c))"
proof -
  obtain f n where s: "s = Inr f" "w = Inr n"
    and "(case g n of (Inl e, _) \<Rightarrow> Inl e | (Inr u, k) \<Rightarrow> Inr (f, k)) = Inr (cf, c)"
    using assms unfolding and_then_Inr_iff by blast
  then show ?thesis by (cases "g n"; cases "fst (g n)") auto
qed

lemma flow_ingest_inv:
  assumes inv: "flow_inv as b" and ok: "trade_ok t" and run: "flow_ingest b t = (Inr r, c)"
    and a: "normalise (fb_grid b) t = Inr a"
  shows "flow_inv (if r = None then as @ [a] else [a]) c"
proof -
  obtain bucket price q target where inputs: "ingest_inputs b t = Inr (bucket, price, q, target)"
    using run by (cases "ingest_inputs b t") (auto simp: flow_ingest_def)
  have a: "a = \<lparr>ad_source = ti_source t, ad_bucket = bucket, ad_price = price, ad_units = q,
    ad_side = ti_aggressor t, ad_ts = ti_timestamp_ns t\<rparr>"
    using a ingest_inputs_normalise [OF inputs] by simp
  have q: "0 < q" using ingest_inputs_Inr(5) [OF inputs] ok quantity_units_of_Inr(1) by (auto simp: trade_ok_def)
  note target = ingest_inputs_Inr(6) [OF inputs]
  have same: "r = None \<and> add_trade b t bucket price q target = (Inr (), c)"
    if "apfst (map_ok (\<lambda>_. None)) (add_trade b t bucket price q target) = (Inr r, c)"
    using that by (cases "add_trade b t bucket price q target") (auto simp: map_ok_Inr_iff)
  show ?thesis
  proof (cases "fb_candle_start b = None \<or> fb_candle_start b = Some target")
    case True
    then have "apfst (map_ok (\<lambda>_. None)) (add_trade b t bucket price q target) = (Inr r, c)"
      using run by (auto simp: flow_ingest_def inputs)
    with same have "r = None" "add_trade b t bucket price q target = (Inr (), c)" by auto
    with add_trade_inv [OF inv True q target] show ?thesis by (simp add: a)
  next
    case False
    then obtain current where cur: "fb_candle_start b = Some current" "current \<noteq> target" by auto
    with run obtain cf n where r: "r = Some cf"
      and n: "flow_new (fb_instrument b) (fb_grid b) (fb_time b) (fb_config b) = Inr n"
      and add: "add_trade n t bucket price q target = (Inr (), c)"
      by (auto simp: flow_ingest_def inputs split: if_splits sum.splits prod.splits dest!: replaced_Inr)
    have "fb_candle_start n = None" "fb_time n = fb_time b"
      using n by (auto simp: flow_new_def result_iffs)
    with add_trade_inv [OF flow_inv_new [OF n] _ q _ add] target show ?thesis by (simp add: a r)
  qed
qed

lemma clear_active_inv: "flow_inv as b \<Longrightarrow> flow_inv [] (clear_active b)"
  by (simp add: flow_inv_def clear_active_def flow_rep_def config_ok_def capacity_ok_def adds_ok_def
      highest_def lowest_def)

lemma flow_inv_idle: "flow_inv as b \<Longrightarrow> fb_candle_start b = None \<Longrightarrow> as = []"
  by (simp add: flow_inv_def adds_ok_def)

lemma flow_reach_inv: "flow_reach as b \<Longrightarrow> flow_inv as b"
proof (induction rule: flow_reach.induct)
  case (start i g tf c b)
  then show ?case by (rule flow_inv_new)
next
  case (accepted as b t b' a)
  from flow_ingest_inv [OF accepted(5,2,3,4)] show ?case by simp
next
  case (rolled as b t cf b' a)
  from flow_ingest_inv [OF rolled(5,2,3,4)] show ?case by simp
next
  case (refused as b t e b')
  then have "b' = b" by (auto simp: trade_ok_def intro: flow_ingest_error)
  with refused show ?case by simp
next
  case (advanced as b ts b')
  then show ?case by (auto simp: flow_advance_to_def split: sum.splits option.splits if_splits)
next
  case (closed as b ts cf b')
  then show ?case
    by (auto simp: flow_advance_to_def clear_active_inv split: sum.splits option.splits if_splits)
next
  case (late as b ts e b')
  then show ?case by (auto simp: flow_advance_to_def split: sum.splits option.splits if_splits)
next
  case (finished as b r b')
  then show ?case using flow_inv_idle [OF finished(3)]
    by (auto simp: flow_finish_def clear_active_inv split: sum.splits if_splits)
next
  case (unfinished as b e b')
  then show ?case by (auto simp: flow_finish_def split: sum.splits if_splits)
qed

section \<open>Totals\<close>

text \<open>A list of trades split by a key: the parts' sums add up, whatever keys are listed.\<close>

lemma sum_units_by_key:
  assumes "distinct ks" and "key ` set as \<subseteq> set ks"
  shows "(\<Sum>k\<leftarrow>ks. units (filter (\<lambda>a. key a = k) as)) = units as"
proof -
  have "(\<Sum>k\<in>set ks. units (filter (\<lambda>a. key a = k) as)) = units as"
    using assms(2)
  proof (induction as)
    case (Cons a as)
    have "units (filter (\<lambda>x. key x = k) (a # as)) =
        (if key a = k then ad_units a else 0) + units (filter (\<lambda>x. key x = k) as)" for k
      by (simp add: units_def)
    with Cons show ?case by (simp add: sum.distrib units_def)
  qed simp
  with assms(1) show ?thesis by (simp add: sum_list_distinct_conv_sum_set)
qed

lemma side_units_sum: "side_units Buy as + side_units Sell as + side_units Unknown as = units as"
proof (induction as rule: rev_induct)
  case (snoc a as)
  then show ?case by (cases "ad_side a") simp_all
qed simp

definition all_positive :: "flow_add list \<Rightarrow> bool" where
  "all_positive as \<longleftrightarrow> (\<forall>a \<in> set as. 0 < ad_units a)"

lemma units_filter_le: "all_positive as \<Longrightarrow> 0 \<le> units (filter P as) \<and> units (filter P as) \<le> units as"
proof (induction as rule: rev_induct)
  case (snoc a as)
  then show ?case by (auto simp: all_positive_def)
qed simp

lemma side_units_le: "all_positive as \<Longrightarrow> 0 \<le> side_units d as \<and> side_units d as \<le> units as"
  unfolding side_units_def by (rule units_filter_le)

lemma all_positive_filter: "all_positive as \<Longrightarrow> all_positive (filter P as)"
  by (simp add: all_positive_def)

lemma try_fold_sum:
  assumes "\<And>x acc. x \<in> set xs \<Longrightarrow> 0 \<le> acc \<Longrightarrow> in_i128 (acc + w x) \<Longrightarrow> f acc x = Inr (acc + w x)"
    and "\<forall>x \<in> set xs. 0 \<le> w x" and "0 \<le> acc" and "in_i128 (acc + (\<Sum>x\<leftarrow>xs. w x))"
  shows "try_fold f acc xs = Inr (acc + (\<Sum>x\<leftarrow>xs. w x))"
  using assms
proof (induction xs arbitrary: acc)
  case (Cons x xs)
  have rest: "0 \<le> (\<Sum>x\<leftarrow>xs. w x)" using Cons.prems(2) by (intro sum_list_map_nonneg) simp
  have "in_i128 (acc + w x)"
    by (rule in_i128_between [OF in_i128_zero Cons.prems(4)]) (use Cons.prems rest in auto)
  with Cons.prems have "f acc x = Inr (acc + w x)" by simp
  with Cons show ?case by (simp add: add.assoc)
qed simp

lemma level_of_fields:
  assumes "level_of as = Some l"
  shows "la_buy_units l = side_units Buy as" "la_sell_units l = side_units Sell as"
    "la_unknown_units l = side_units Unknown as" "la_total_units l = units as"
  using assms by (auto simp: level_of_def split: if_splits)

lemma flow_rep_at:
  "flow_rep as b \<Longrightarrow> bt_get (fb_sources b) src = None \<longleftrightarrow> from_source src as = []"
  "flow_rep as b \<Longrightarrow> bt_get (fb_sources b) src = Some s \<Longrightarrow> source_rep (from_source src as) s"
  by (auto simp: flow_rep_def dest: spec [of _ src] split: option.splits)

lemma source_rep_levels:
  assumes "source_rep as s" and "(k, l) \<in> set (sa_levels s)"
  shows "level_of (in_bucket k as) = Some l"
  using assms by (metis bt_get_Some_iff source_rep_def)

lemma source_rep_level_sum:
  assumes rep: "source_rep as s"
  shows "(\<Sum>p\<leftarrow>sa_levels s. la_total_units (snd p)) = units as"
proof -
  have ok: "bt_ok (sa_levels s)" using rep by (simp add: source_rep_def)
  have keys: "ad_bucket ` set as \<subseteq> set (map fst (sa_levels s))"
  proof
    fix k assume "k \<in> ad_bucket ` set as"
    then have "in_bucket k as \<noteq> []" by (auto simp: in_bucket_def filter_empty_conv)
    then have "bt_get (sa_levels s) k \<noteq> None" using rep by (simp add: source_rep_def level_of_def)
    then show "k \<in> set (map fst (sa_levels s))" by (simp add: bt_get_None_iff)
  qed
  have "la_total_units (snd p) = units (filter (\<lambda>a. ad_bucket a = fst p) as)" if "p \<in> set (sa_levels s)" for p
    using level_of_fields(4) [OF source_rep_levels [OF rep, of "fst p" "snd p"]] that
    by (simp add: in_bucket_def)
  then have "(\<Sum>p\<leftarrow>sa_levels s. la_total_units (snd p)) =
      (\<Sum>k\<leftarrow>map fst (sa_levels s). units (filter (\<lambda>a. ad_bucket a = k) as))"
    by (simp add: comp_def cong: map_cong)
  with sum_units_by_key [OF bt_ok_distinct [OF ok] keys] show ?thesis by simp
qed

lemma flow_rep_source:
  assumes "flow_rep as b" and "(src, s) \<in> set (fb_sources b)"
  shows "source_rep (from_source src as) s"
proof -
  have "bt_get (fb_sources b) src = Some s" using assms by (simp add: flow_rep_def bt_get_Some_iff)
  with assms(1) show ?thesis by (rule flow_rep_at(2))
qed

lemma flow_rep_source_sum:
  assumes rep: "flow_rep as b"
  shows "(\<Sum>p\<leftarrow>fb_sources b. sa_total_units (snd p)) = units as"
proof -
  have ok: "bt_ok (fb_sources b)" using rep by (simp add: flow_rep_def)
  have keys: "ad_source ` set as \<subseteq> set (map fst (fb_sources b))"
  proof
    fix k assume "k \<in> ad_source ` set as"
    then have "from_source k as \<noteq> []" by (auto simp: from_source_def filter_empty_conv)
    then have "bt_get (fb_sources b) k \<noteq> None" by (simp add: flow_rep_at(1) [OF rep])
    then show "k \<in> set (map fst (fb_sources b))" by (simp add: bt_get_None_iff)
  qed
  have "sa_total_units (snd p) = units (filter (\<lambda>a. ad_source a = fst p) as)" if "p \<in> set (fb_sources b)" for p
    using flow_rep_source [OF rep, of "fst p" "snd p"] that by (simp add: source_rep_def from_source_def)
  then have "(\<Sum>p\<leftarrow>fb_sources b. sa_total_units (snd p)) =
      (\<Sum>k\<leftarrow>map fst (fb_sources b). units (filter (\<lambda>a. ad_source a = k) as))"
    by (simp add: comp_def cong: map_cong)
  with sum_units_by_key [OF bt_ok_distinct [OF ok] keys] show ?thesis by simp
qed

section \<open>Reachable builders validate\<close>

lemma validate_level_ok:
  assumes l: "level_of as = Some l" and pos: "all_positive as" and "in_i128 (units as)"
    and "0 \<le> acc" "in_i128 (acc + la_total_units l)"
  shows "validate_level acc (k, l) = Inr (acc + la_total_units l)"
proof -
  note fields = level_of_fields [OF l]
  have nonneg: "0 \<le> units as" "0 \<le> side_units d as" for d
    using units_filter_le [OF pos, of "\<lambda>_. True"] side_units_le [OF pos] by auto
  have "in_i128 (side_units Buy as + side_units Sell as)"
    by (rule in_i128_between [OF in_i128_zero assms(3)])
      (use nonneg(2) [of Buy] nonneg(2) [of Sell] nonneg(2) [of Unknown] side_units_sum [of as] in linarith)+
  then show ?thesis
    using assms nonneg(1) nonneg(2) [of Buy] nonneg(2) [of Sell] nonneg(2) [of Unknown]
    by (simp add: validate_level_def fields side_units_sum checked_defs)
qed

lemma validate_source_ok:
  assumes rep: "source_rep as s" and pos: "all_positive as" and small: "in_i128 (units as)"
    and "0 \<le> acc" "in_i128 (acc + sa_total_units s)"
  shows "validate_source acc (src, s) = Inr (acc + sa_total_units s)"
proof -
  have fields: "sa_buy_units s = side_units Buy as" "sa_sell_units s = side_units Sell as"
    "sa_unknown_units s = side_units Unknown as" "sa_total_units s = units as"
    using rep by (simp_all add: source_rep_def)
  have nonneg: "0 \<le> units as" "0 \<le> side_units d as" for d
    using units_filter_le [OF pos, of "\<lambda>_. True"] side_units_le [OF pos] by auto
  have part: "in_i128 (units (in_bucket k as))" for k
    using units_filter_le [OF pos] small by (auto simp: in_bucket_def intro: in_i128_between [OF in_i128_zero])
  have "try_fold validate_level 0 (sa_levels s) = Inr (0 + (\<Sum>p\<leftarrow>sa_levels s. la_total_units (snd p)))"
  proof (rule try_fold_sum)
    show "validate_level acc p = Inr (acc + la_total_units (snd p))"
      if "p \<in> set (sa_levels s)" "0 \<le> acc" "in_i128 (acc + la_total_units (snd p))" for p acc
      using validate_level_ok [OF source_rep_levels [OF rep, of "fst p" "snd p"] _ part, of acc "fst p"] that pos
      by (simp add: in_bucket_def all_positive_filter)
    show "\<forall>p \<in> set (sa_levels s). 0 \<le> la_total_units (snd p)"
      using level_of_fields(4) [OF source_rep_levels [OF rep]] units_filter_le [OF pos]
      by (force simp: in_bucket_def)
  qed (use small in \<open>simp_all add: source_rep_level_sum [OF rep]\<close>)
  then show ?thesis
    using assms(4,5) nonneg(1) nonneg(2) [of Buy] nonneg(2) [of Sell] nonneg(2) [of Unknown]
    by (simp add: validate_source_def fields source_rep_level_sum [OF rep] checked_defs)
qed

lemma flow_inv_validate:
  assumes inv: "flow_inv as b"
  shows "flow_validate b = Inr ()"
proof -
  have rep: "flow_rep as b" and pos: "all_positive as" and small: "in_i128 (units as)"
    and conf: "config_ok b" and cap: "capacity_ok b"
    using inv by (auto simp: flow_inv_def adds_ok_def all_positive_def)
  have nonneg: "0 \<le> units as" using units_filter_le [OF pos, of "\<lambda>_. True"] by simp
  have part: "in_i128 (units (from_source k as))" for k
    using units_filter_le [OF pos] small by (auto simp: from_source_def intro: in_i128_between [OF in_i128_zero])
  have "try_fold validate_source 0 (fb_sources b) = Inr (0 + (\<Sum>p\<leftarrow>fb_sources b. sa_total_units (snd p)))"
  proof (rule try_fold_sum)
    show "validate_source acc p = Inr (acc + sa_total_units (snd p))"
      if "p \<in> set (fb_sources b)" "0 \<le> acc" "in_i128 (acc + sa_total_units (snd p))" for p acc
      using validate_source_ok [OF flow_rep_source [OF rep, of "fst p" "snd p"] _ part, of acc "fst p"] that pos
      by (simp add: from_source_def all_positive_filter)
    show "\<forall>p \<in> set (fb_sources b). 0 \<le> sa_total_units (snd p)"
      using flow_rep_source [OF rep] units_filter_le [OF pos] by (force simp: source_rep_def from_source_def)
  qed (use small in \<open>simp_all add: flow_rep_source_sum [OF rep]\<close>)
  moreover have "fb_candle_start b = None \<Longrightarrow> fb_sources b = [] \<and> fb_trade_count b = 0 \<and> fb_total_units b = 0"
  proof -
    assume "fb_candle_start b = None"
    with inv have "as = []" by (rule flow_inv_idle)
    moreover have "fb_sources b = []"
    proof (rule ccontr)
      assume "fb_sources b \<noteq> []"
      then obtain src s where "(src, s) \<in> set (fb_sources b)" by (cases "fb_sources b") auto
      then have "bt_get (fb_sources b) src = Some s" using rep by (simp add: flow_rep_def bt_get_Some_iff)
      with flow_rep_at(1) [OF rep, of src] \<open>as = []\<close> show False by simp
    qed
    ultimately show ?thesis using rep by (simp add: flow_rep_def)
  qed
  ultimately show ?thesis
    using conf cap rep nonneg flow_rep_source_sum [OF rep]
    by (auto simp: flow_validate_def config_ok_def capacity_ok_def flow_rep_def list_ex_iff)
qed

section \<open>Published candles balance\<close>

abbreviation lots :: "quantity \<Rightarrow> int" where
  "lots q \<equiv> coefficient (quantity_fixed q)"

definition level_balanced :: "price_level_flow \<Rightarrow> bool" where
  "level_balanced l \<longleftrightarrow>
     lots (pl_total_volume l) = lots (pl_buy_volume l) + lots (pl_sell_volume l) + lots (pl_unknown_volume l) \<and>
     coefficient (pl_delta l) = lots (pl_buy_volume l) - lots (pl_sell_volume l)"

definition source_balanced :: "source_candle_flow \<Rightarrow> bool" where
  "source_balanced s \<longleftrightarrow>
     lots (sc_total_volume s) = lots (sc_buy_volume s) + lots (sc_sell_volume s) + lots (sc_unknown_volume s) \<and>
     coefficient (sc_delta s) = lots (sc_buy_volume s) - lots (sc_sell_volume s) \<and>
     lots (sc_total_volume s) = (\<Sum>l\<leftarrow>sc_levels s. lots (pl_total_volume l)) \<and>
     sorted_wrt (<) (map (\<lambda>l. coefficient (price_fixed (pl_price l))) (sc_levels s)) \<and>
     list_all level_balanced (sc_levels s)"

lemma quantity_at_Inr: "quantity_at g u = Inr q \<Longrightarrow> lots q = u \<and> 0 \<le> u"
  by (auto simp: quantity_at_def split: if_splits)

lemma price_at_Inr:
  "price_at g k = Inr p \<Longrightarrow> 0 < k \<and>
     coefficient (price_fixed p) = k * (coefficient (g_tick_size g) * int (g_levels_per_bucket g))"
  by (auto simp: price_at_def bucket_size_coefficient_def result_iffs split: if_splits)

lemma level_snapshot_Inr:
  assumes "level_snapshot g p = Inr pl" and "level_of as = Some (snd p)"
  shows "lots (pl_total_volume pl) = la_total_units (snd p) \<and> level_balanced pl \<and>
    price_at g (fst p) = Inr (pl_price pl)"
  using assms(1) level_of_fields [OF assms(2)] side_units_sum [of as]
  by (auto simp: level_snapshot_def level_balanced_def result_iffs signed_quantity_at_def split: prod.splits
      dest!: quantity_at_Inr)

text \<open>The elements of a successful \<^verbatim>\<open>collect\<close>, position by position.\<close>

lemma list_all2_map_eq:
  "list_all2 R xs ys \<Longrightarrow> (\<And>x y. x \<in> set xs \<Longrightarrow> R x y \<Longrightarrow> f x = g y) \<Longrightarrow> map f xs = map g ys"
  by (induction rule: list_all2_induct) auto

lemma list_all2_list_all:
  "list_all2 R xs ys \<Longrightarrow> (\<And>x y. x \<in> set xs \<Longrightarrow> R x y \<Longrightarrow> P y) \<Longrightarrow> list_all P ys"
  by (induction rule: list_all2_induct) auto

lemma source_snapshot_Inr:
  assumes run: "source_snapshot g p = Inr sc" and rep: "source_rep as (snd p)"
    and grid: "0 < coefficient (g_tick_size g)" "0 < g_levels_per_bucket g"
  shows "lots (sc_total_volume sc) = sa_total_units (snd p) \<and> sc_source sc = fst p \<and> source_balanced sc"
proof -
  let ?s = "snd p" and ?size = "coefficient (g_tick_size g) * int (g_levels_per_bucket g)"
  have fields: "sa_buy_units ?s = side_units Buy as" "sa_sell_units ?s = side_units Sell as"
    "sa_unknown_units ?s = side_units Unknown as" "sa_total_units ?s = units as" "bt_ok (sa_levels ?s)"
    using rep by (simp_all add: source_rep_def)
  have sc: "list_all2 (\<lambda>x y. level_snapshot g x = Inr y) (sa_levels ?s) (sc_levels sc)" "sc_source sc = fst p"
    "lots (sc_total_volume sc) = units as" "lots (sc_buy_volume sc) = side_units Buy as"
    "lots (sc_sell_volume sc) = side_units Sell as" "lots (sc_unknown_volume sc) = side_units Unknown as"
    "coefficient (sc_delta sc) = side_units Buy as - side_units Sell as"
    using run fields(1-4) by (auto simp: source_snapshot_def result_iffs try_map_Inr_iff signed_quantity_at_def
        split: prod.splits dest!: quantity_at_Inr)
  have level: "lots (pl_total_volume y) = la_total_units (snd x) \<and> level_balanced y \<and> price_at g (fst x) = Inr (pl_price y)"
    if "x \<in> set (sa_levels ?s)" "level_snapshot g x = Inr y" for x y
    using level_snapshot_Inr [OF that(2) source_rep_levels [OF rep, of "fst x"]] that(1) by simp
  have totals: "map (\<lambda>x. la_total_units (snd x)) (sa_levels ?s) = map (\<lambda>l. lots (pl_total_volume l)) (sc_levels sc)"
    using sc(1) by (rule list_all2_map_eq) (simp add: level)
  have prices: "map (\<lambda>x. fst x * ?size) (sa_levels ?s) = map (\<lambda>l. coefficient (price_fixed (pl_price l))) (sc_levels sc)"
    using sc(1) by (rule list_all2_map_eq) (metis level price_at_Inr)
  have "sorted_wrt (\<lambda>x y. fst x < fst y) (sa_levels ?s)" using fields(5) by (simp add: bt_ok_def sorted_wrt_map)
  then have "sorted_wrt (<) (map (\<lambda>x. fst x * ?size) (sa_levels ?s))"
    unfolding sorted_wrt_map using grid by (auto elim: sorted_wrt_mono_rel [rotated])
  moreover have "list_all level_balanced (sc_levels sc)"
    using sc(1) by (rule list_all2_list_all) (simp add: level)
  ultimately show ?thesis
    using sc side_units_sum [of as] source_rep_level_sum [OF rep]
    by (simp add: source_balanced_def fields flip: totals prices)
qed

lemma flow_snapshot_sources:
  assumes inv: "flow_inv as b" and run: "flow_snapshot b st = Inr cf"
  shows "map sc_source (cf_sources cf) = map fst (fb_sources b) \<and>
    map (\<lambda>s. lots (sc_total_volume s)) (cf_sources cf) = map (\<lambda>p. sa_total_units (snd p)) (fb_sources b) \<and>
    list_all source_balanced (cf_sources cf)"
proof -
  have rep: "flow_rep as b" and grid: "grid_validate (fb_grid b) = Inr ()"
    using inv by (simp_all add: flow_inv_def config_ok_def)
  have all: "list_all2 (\<lambda>x y. source_snapshot (fb_grid b) x = Inr y) (fb_sources b) (cf_sources cf)"
    using run by (auto simp: flow_snapshot_def result_iffs try_map_Inr_iff)
  have source: "lots (sc_total_volume y) = sa_total_units (snd x) \<and> sc_source y = fst x \<and> source_balanced y"
    if "x \<in> set (fb_sources b)" "source_snapshot (fb_grid b) x = Inr y" for x y
    using source_snapshot_Inr [OF that(2) flow_rep_source [OF rep, of "fst x"] grid_validate_Inr [OF grid]] that(1) by simp
  have "map fst (fb_sources b) = map sc_source (cf_sources cf)"
    using all by (rule list_all2_map_eq) (simp add: source)
  moreover have "map (\<lambda>p. sa_total_units (snd p)) (fb_sources b) = map (\<lambda>s. lots (sc_total_volume s)) (cf_sources cf)"
    using all by (rule list_all2_map_eq) (simp add: source)
  moreover have "list_all source_balanced (cf_sources cf)"
    using all by (rule list_all2_list_all) (simp add: source)
  ultimately show ?thesis by simp
qed

lemma flow_snapshot_balanced:
  assumes inv: "flow_inv as b" and run: "flow_snapshot b st = Inr cf"
  shows "lots (cf_total_volume cf) = units as \<and> cf_trade_count cf = length as \<and>
    (\<Sum>s\<leftarrow>cf_sources cf. lots (sc_total_volume s)) = units as \<and>
    sorted_wrt (<) (map sc_source (cf_sources cf)) \<and> list_all source_balanced (cf_sources cf) \<and>
    highest (map ad_price as) (cf_high cf) \<and> lowest (map ad_price as) (cf_low cf)"
proof -
  have rep: "flow_rep as b" using inv by (simp add: flow_inv_def)
  then have "bt_ok (fb_sources b)" by (simp add: flow_rep_def)
  moreover have "lots (cf_total_volume cf) = fb_total_units b" "cf_trade_count cf = fb_trade_count b"
    "cf_high cf = fb_high b" "cf_low cf = fb_low b"
    using run by (auto simp: flow_snapshot_def result_iffs dest!: quantity_at_Inr)
  ultimately show ?thesis
    using flow_snapshot_sources [OF inv run] flow_rep_source_sum [OF rep] rep
    by (simp add: flow_rep_def bt_ok_def)
qed

section \<open>The builder's contract\<close>

definition sample_flow_builder :: candle_flow_builder where
  "sample_flow_builder =
     \<lparr>fb_instrument = InstrumentId 7,
      fb_grid = \<lparr>g_price_scale = 0, g_quantity_scale = 0, g_tick_size = \<lparr>coefficient = 5, scale = 0\<rparr>,
        g_levels_per_bucket = 2\<rparr>,
      fb_time = \<lparr>tf_candle_ns = 60, tf_tpo_ns = 120, tf_session_ns = 240, tf_anchor_ns = 0,
        tf_top_zone_window_ns = 60\<rparr>,
      fb_config = \<lparr>fc_max_sources = 2, fc_max_levels_per_source = 3, fc_max_trades_per_candle = 10\<rparr>,
      fb_candle_start = None, fb_last_timestamp_ns = None, fb_high = None, fb_low = None,
      fb_total_units = 0, fb_trade_count = 0, fb_sources = []\<rparr>"

definition sample_trade :: "nat \<Rightarrow> i64 \<Rightarrow> int \<Rightarrow> int \<Rightarrow> aggressor_side \<Rightarrow> trade_input" where
  "sample_trade venue ts price q side =
     \<lparr>ti_instrument = InstrumentId 7, ti_source = FlowSource (VenueId venue) SpotSegment, ti_timestamp_ns = ts,
      ti_price = Price \<lparr>coefficient = price, scale = 0\<rparr>, ti_quantity = Quantity \<lparr>coefficient = q, scale = 0\<rparr>,
      ti_aggressor = side\<rparr>"

lemma sample_trade_ok: "\<bar>p\<bar> < 100 \<Longrightarrow> \<bar>q\<bar> < 100 \<Longrightarrow> trade_ok (sample_trade v ts p q side)"
  by (simp add: sample_trade_def trade_ok_def fixed_ok_def in_i128_def abs_if split: if_splits)

definition sample_after_two :: candle_flow_builder where
  "sample_after_two =
     snd (flow_ingest (snd (flow_ingest sample_flow_builder (sample_trade 1 10 25 4 Buy))) (sample_trade 2 20 15 3 Sell))"

lemma sample_new:
  "flow_new (InstrumentId 7) (fb_grid sample_flow_builder) (fb_time sample_flow_builder)
     (fb_config sample_flow_builder) = Inr sample_flow_builder"
  unfolding sample_flow_builder_def by code_simp

definition sample_adds :: "flow_add list" where
  "sample_adds =
     [\<lparr>ad_source = FlowSource (VenueId 1) SpotSegment, ad_bucket = 2, ad_price = Price \<lparr>coefficient = 25, scale = 0\<rparr>,
       ad_units = 4, ad_side = Buy, ad_ts = 10\<rparr>,
      \<lparr>ad_source = FlowSource (VenueId 2) SpotSegment, ad_bucket = 1, ad_price = Price \<lparr>coefficient = 15, scale = 0\<rparr>,
       ad_units = 3, ad_side = Sell, ad_ts = 20\<rparr>]"

lemma sample_reach: "flow_reach sample_adds sample_after_two"
proof -
  let ?b = "snd (flow_ingest sample_flow_builder (sample_trade 1 10 25 4 Buy))"
  have one: "flow_reach ([] @ [hd sample_adds]) ?b"
  proof (rule accepted)
    show "flow_reach [] sample_flow_builder" using sample_new by (rule start)
    show "flow_ingest sample_flow_builder (sample_trade 1 10 25 4 Buy) = (Inr None, ?b)"
      unfolding sample_flow_builder_def sample_trade_def by code_simp
    show "trade_ok (sample_trade 1 10 25 4 Buy)" by (rule sample_trade_ok) simp_all
    show "normalise (fb_grid sample_flow_builder) (sample_trade 1 10 25 4 Buy) = Inr (hd sample_adds)"
      unfolding sample_flow_builder_def sample_trade_def sample_adds_def by code_simp
  qed
  have "flow_reach (([] @ [hd sample_adds]) @ [last sample_adds]) sample_after_two"
  proof (rule accepted [OF one])
    show "flow_ingest ?b (sample_trade 2 20 15 3 Sell) = (Inr None, sample_after_two)"
      unfolding sample_after_two_def sample_flow_builder_def sample_trade_def by code_simp
    show "trade_ok (sample_trade 2 20 15 3 Sell)" by (rule sample_trade_ok) simp_all
    show "normalise (fb_grid ?b) (sample_trade 2 20 15 3 Sell) = Inr (last sample_adds)"
      unfolding sample_flow_builder_def sample_trade_def sample_adds_def by code_simp
  qed
  moreover have "([] @ [hd sample_adds]) @ [last sample_adds] = sample_adds" by (simp add: sample_adds_def)
  ultimately show ?thesis by simp
qed

text \<open>
  C15: After any sequence of calls on a new builder, failed calls included, the builder's counters are
  exactly the sums over the trades accepted since its candle opened (volume and count, in total, per
  source and per price bucket and side; high and low; first and last timestamps), and no configured
  capacity is exceeded.
\<close>

theorem flow_accumulates_exactly: "flow_reach as b \<Longrightarrow> flow_rep as b \<and> capacity_ok b"
  using flow_reach_inv by (simp add: flow_inv_def)

theorem flow_accumulates_exactly_witness:
  "flow_rep sample_adds sample_after_two \<and> fb_total_units sample_after_two = 7"
proof -
  have rep: "flow_rep sample_adds sample_after_two" using flow_accumulates_exactly [OF sample_reach] by simp
  moreover have "units sample_adds = 7" by (simp add: sample_adds_def units_def)
  ultimately show ?thesis by (simp add: flow_rep_def)
qed

text \<open>
  \<^verbatim>\<open>CandleFlowBuilder::validate\<close>, which a restored builder has to pass, accepts every builder that
  the operations can produce.
\<close>

theorem reachable_flow_validates: "flow_reach as b \<Longrightarrow> flow_validate b = Inr ()"
  using flow_reach_inv by (rule flow_inv_validate)

theorem reachable_flow_validates_witness: "flow_validate sample_after_two = Inr ()"
  by (rule reachable_flow_validates [OF sample_reach])

text \<open>
  When \<^verbatim>\<open>ingest\<close> returns an error, on whichever check, the builder is exactly what it was: the
  preflight covers every failure of the field-by-field update that follows it.
\<close>

theorem flow_errors_change_nothing:
  "trade_ok t \<Longrightarrow> flow_ingest b t = (Inl e, b') \<Longrightarrow> b' = b"
  by (auto simp: trade_ok_def intro: flow_ingest_error)

theorem flow_errors_change_nothing_witness:
  "flow_ingest sample_after_two (sample_trade 1 19 25 4 Buy) = (Inl (LateTrade 19 20), sample_after_two)"
proof -
  have ok: "trade_ok (sample_trade 1 19 25 4 Buy)" by (rule sample_trade_ok) simp_all
  have err: "fst (flow_ingest sample_after_two (sample_trade 1 19 25 4 Buy)) = Inl (LateTrade 19 20)"
    unfolding sample_after_two_def sample_flow_builder_def sample_trade_def by code_simp
  then have run: "flow_ingest sample_after_two (sample_trade 1 19 25 4 Buy) =
      (Inl (LateTrade 19 20), snd (flow_ingest sample_after_two (sample_trade 1 19 25 4 Buy)))"
    by (metis prod.collapse)
  from flow_errors_change_nothing [OF ok run] run show ?thesis by simp
qed

text \<open>
  C16: Every candle the builder publishes balances: its volume is that of the accepted trades and the sum
  over its sources; each source's volume is buy plus sell plus unknown and the sum over its price
  levels, its delta buy minus sell; sources and price levels are strictly ascending; high and low are
  the extreme prices traded.
\<close>

theorem published_candle_balances:
  assumes "flow_reach as b" and "flow_snapshot b st = Inr cf"
  shows "lots (cf_total_volume cf) = units as \<and> cf_trade_count cf = length as \<and>
    (\<Sum>s\<leftarrow>cf_sources cf. lots (sc_total_volume s)) = units as \<and>
    sorted_wrt (<) (map sc_source (cf_sources cf)) \<and> list_all source_balanced (cf_sources cf) \<and>
    highest (map ad_price as) (cf_high cf) \<and> lowest (map ad_price as) (cf_low cf)"
  using flow_reach_inv [OF assms(1)] assms(2) by (rule flow_snapshot_balanced)

theorem published_candle_balances_witness:
  "case flow_snapshot sample_after_two FinalFlow of Inl _ \<Rightarrow> False
   | Inr cf \<Rightarrow> lots (cf_total_volume cf) = 7 \<and> list_all source_balanced (cf_sources cf) \<and> length (cf_sources cf) = 2"
proof -
  have "\<not> isl (flow_snapshot sample_after_two FinalFlow)"
    "length (cf_sources (projr (flow_snapshot sample_after_two FinalFlow))) = 2"
    unfolding sample_after_two_def sample_flow_builder_def sample_trade_def by code_simp+
  then obtain cf where cf: "flow_snapshot sample_after_two FinalFlow = Inr cf" "length (cf_sources cf) = 2"
    by (cases "flow_snapshot sample_after_two FinalFlow") auto
  have "units sample_adds = 7" by (simp add: sample_adds_def units_def)
  with published_candle_balances [OF sample_reach cf(1)] cf show ?thesis by simp
qed


end
