(* ===== verification/Profile.thy ===== *)
theory Profile
  imports Flow
begin

text \<open>
  Session profiles (\<^verbatim>\<open>crates/analytics/src/profile.rs\<close>): bounded volume and time-price-opportunity (TPO)
  counts per price bucket of a session, point of control, value area and rotation factor.  As in the
  candle flow, operations that mutate behind \<^verbatim>\<open>?\<close> return the state they leave on errors too.  A
  \<^verbatim>\<open>BTreeSet\<close> is a \<^verbatim>\<open>BTreeMap\<close> to the unit type.  \<^verbatim>\<open>activity\<close>, whose result is always \<^verbatim>\<open>Ok\<close>, is its value.
\<close>

section \<open>Configuration and state\<close>

datatype value_area_basis = VolumeBasis | TpoBasis

record profile_config =
  pc_basis :: value_area_basis
  pc_value_area_bps :: u16
  pc_max_levels :: usize
  pc_max_tpo_levels_per_period :: usize

definition profile_config_new ::
    "value_area_basis \<Rightarrow> u16 \<Rightarrow> usize \<Rightarrow> usize \<Rightarrow> analytics_error + profile_config" where
  "profile_config_new basis bps levels tpo_levels =
     (if \<not> (1 \<le> bps \<and> bps \<le> 10000) then Inl (InvalidConfig ''value_area_bps'' ''must be between 1 and 10000'')
      else if levels = 0 then Inl (InvalidConfig ''max_levels'' ''must be greater than zero'')
      else if tpo_levels = 0 then Inl (InvalidConfig ''max_tpo_levels_per_period'' ''must be greater than zero'')
      else if levels < tpo_levels then
        Inl (InvalidConfig ''max_tpo_levels_per_period'' ''must not exceed max_levels'')
      else Inr \<lparr>pc_basis = basis, pc_value_area_bps = bps, pc_max_levels = levels,
                pc_max_tpo_levels_per_period = tpo_levels\<rparr>)"

definition profile_config_validate :: "profile_config \<Rightarrow> analytics_error + unit" where
  "profile_config_validate c =
     map_ok (\<lambda>_. ()) (profile_config_new (pc_basis c) (pc_value_area_bps c) (pc_max_levels c)
       (pc_max_tpo_levels_per_period c))"

datatype profile_state = LiveProfile | FinalProfile

record profile_level =
  pf_price :: price
  pf_volume :: quantity
  pf_tpo_count :: nat

record session_profile =
  sp_schema_version :: u16
  sp_state :: profile_state
  sp_basis :: value_area_basis
  sp_value_area_bps :: u16
  sp_start_ts :: i64
  sp_end_ts :: i64
  sp_high :: "price option"
  sp_low :: "price option"
  sp_range :: "fixed option"
  sp_total_volume :: quantity
  sp_poc :: "price option"
  sp_vah :: "price option"
  sp_val :: "price option"
  sp_tpo_count :: nat
  sp_rotation_factor :: i32
  sp_levels :: "profile_level list"

record session_profile_builder =
  pb_grid :: grid_spec
  pb_time :: timeframe_spec
  pb_config :: profile_config
  pb_session_start :: "i64 option"
  pb_current_tpo_start :: "i64 option"
  pb_last_timestamp_ns :: "i64 option"
  pb_session_high :: "price option"
  pb_session_low :: "price option"
  pb_volume_by_level :: "(price_bucket \<times> i128) list"
  pb_tpo_by_level :: "(price_bucket \<times> nat) list"
  pb_total_volume_units :: i128
  pb_current_tpo_levels :: "(price_bucket \<times> unit) list"
  pb_current_tpo_high :: "price_bucket option"
  pb_current_tpo_low :: "price_bucket option"
  pb_previous_tpo_high :: "price_bucket option"
  pb_previous_tpo_low :: "price_bucket option"
  pb_rotation_factor :: i32

definition PROFILE_SCHEMA_VERSION :: u16 where "PROFILE_SCHEMA_VERSION = 1"

definition profile_new ::
    "grid_spec \<Rightarrow> timeframe_spec \<Rightarrow> profile_config \<Rightarrow> analytics_error + session_profile_builder" where
  "profile_new g t c =
     and_then (grid_validate g) (\<lambda>_. and_then (timeframe_validate t) (\<lambda>_. and_then (profile_config_validate c) (\<lambda>_.
       Inr \<lparr>pb_grid = g, pb_time = t, pb_config = c, pb_session_start = None, pb_current_tpo_start = None,
            pb_last_timestamp_ns = None, pb_session_high = None, pb_session_low = None,
            pb_volume_by_level = [], pb_tpo_by_level = [], pb_total_volume_units = 0,
            pb_current_tpo_levels = [], pb_current_tpo_high = None, pb_current_tpo_low = None,
            pb_previous_tpo_high = None, pb_previous_tpo_low = None, pb_rotation_factor = 0\<rparr>)))"

section \<open>Adding a trade\<close>

definition profile_preflight_add ::
    "session_profile_builder \<Rightarrow> price_bucket \<Rightarrow> quantity_units \<Rightarrow> bool \<Rightarrow> analytics_error + unit" where
  "profile_preflight_add p bucket q starts_new_tpo =
     (if bt_get (pb_volume_by_level p) bucket = None
         \<and> pc_max_levels (pb_config p) \<le> length (pb_volume_by_level p) then
        Inl (CapacityExceeded ''session profile levels'' (pc_max_levels (pb_config p)))
      else
        let tpo_len = (if starts_new_tpo then 0 else length (pb_current_tpo_levels p));
            already_in_tpo = (\<not> starts_new_tpo \<and> bt_get (pb_current_tpo_levels p) bucket \<noteq> None)
        in if \<not> already_in_tpo \<and> pc_max_tpo_levels_per_period (pb_config p) \<le> tpo_len then
          Inl (CapacityExceeded ''TPO levels per period'' (pc_max_tpo_levels_per_period (pb_config p)))
        else
          and_then (add_i128 (pb_total_volume_units p) q ''adding total profile volume'') (\<lambda>_.
          map_ok (\<lambda>_. ()) (add_i128 (unwrap_or (bt_get (pb_volume_by_level p) bucket) 0) q
            ''adding profile level volume'')))"

definition profile_apply_add ::
    "session_profile_builder \<Rightarrow> price_bucket \<Rightarrow> price \<Rightarrow> quantity_units \<Rightarrow>
     (analytics_error + unit) \<times> session_profile_builder" where
  "profile_apply_add p bucket price q =
     (case add_i128 (pb_total_volume_units p) q ''adding total profile volume'' of
        Inl e \<Rightarrow> (Inl e, p)
      | Inr volume \<Rightarrow>
        let p = p\<lparr>pb_total_volume_units := volume\<rparr>;
            level = unwrap_or (bt_get (pb_volume_by_level p) bucket) 0
        in case add_i128 level q ''adding profile level volume'' of
          Inl e \<Rightarrow> (Inl e, p\<lparr>pb_volume_by_level := bt_insert bucket level (pb_volume_by_level p)\<rparr>)
        | Inr v \<Rightarrow>
          (Inr (), p\<lparr>pb_volume_by_level := bt_insert bucket v (pb_volume_by_level p),
             pb_session_high := Some (case pb_session_high p of None \<Rightarrow> price | Some c \<Rightarrow> max_price c price),
             pb_session_low := Some (case pb_session_low p of None \<Rightarrow> price | Some c \<Rightarrow> min_price c price),
             pb_current_tpo_levels := bt_insert bucket () (pb_current_tpo_levels p),
             pb_current_tpo_high := Some (case pb_current_tpo_high p of None \<Rightarrow> bucket | Some c \<Rightarrow> max c bucket),
             pb_current_tpo_low := Some (case pb_current_tpo_low p of None \<Rightarrow> bucket | Some c \<Rightarrow> min c bucket)\<rparr>))"

section \<open>Closing a TPO period\<close>

definition ordering_score :: "price_bucket \<Rightarrow> price_bucket \<Rightarrow> i32" where
  "ordering_score current previous = (if current < previous then -1 else if current = previous then 0 else 1)"

definition rotation_delta :: "session_profile_builder \<Rightarrow> i32" where
  "rotation_delta p =
     (case (pb_previous_tpo_high p, pb_previous_tpo_low p, pb_current_tpo_high p, pb_current_tpo_low p) of
        (Some previous_high, Some previous_low, Some high, Some low) \<Rightarrow>
          ordering_score high previous_high + ordering_score low previous_low
      | _ \<Rightarrow> 0)"

definition preflight_close_current_tpo :: "session_profile_builder \<Rightarrow> analytics_error + unit" where
  "preflight_close_current_tpo p =
     and_then (try_map (\<lambda>(bucket, _).
         add_u64 (unwrap_or (bt_get (pb_tpo_by_level p) bucket) 0) 1 ''adding a TPO count'')
       (pb_current_tpo_levels p)) (\<lambda>_.
     map_ok (\<lambda>_. ()) (ok_or (checked_i32 (pb_rotation_factor p + rotation_delta p))
       (ArithmeticOverflow ''adding rotation factor'')))"

primrec count_tpo_levels ::
    "(price_bucket \<times> unit) list \<Rightarrow> (price_bucket \<times> nat) list \<Rightarrow> (analytics_error + unit) \<times> (price_bucket \<times> nat) list" where
  "count_tpo_levels [] tpo = (Inr (), tpo)"
| "count_tpo_levels (b # bs) tpo =
     (let count = unwrap_or (bt_get tpo (fst b)) 0 in
      case add_u64 count 1 ''adding a TPO count'' of
        Inl e \<Rightarrow> (Inl e, bt_insert (fst b) count tpo)
      | Inr n \<Rightarrow> count_tpo_levels bs (bt_insert (fst b) n tpo))"

definition apply_close_current_tpo ::
    "session_profile_builder \<Rightarrow> (analytics_error + unit) \<times> session_profile_builder" where
  "apply_close_current_tpo p =
     (if pb_current_tpo_levels p = [] then
        (Inr (), p\<lparr>pb_current_tpo_high := None, pb_current_tpo_low := None\<rparr>)
      else
        case count_tpo_levels (pb_current_tpo_levels p) (pb_tpo_by_level p) of
          (Inl e, tpo) \<Rightarrow> (Inl e, p\<lparr>pb_tpo_by_level := tpo\<rparr>)
        | (Inr _, tpo) \<Rightarrow>
          let p = p\<lparr>pb_tpo_by_level := tpo\<rparr> in
          case ok_or (checked_i32 (pb_rotation_factor p + rotation_delta p))
                 (ArithmeticOverflow ''adding rotation factor'') of
            Inl e \<Rightarrow> (Inl e, p)
          | Inr r \<Rightarrow>
            (Inr (), p\<lparr>pb_rotation_factor := r, pb_previous_tpo_high := pb_current_tpo_high p,
               pb_previous_tpo_low := pb_current_tpo_low p, pb_current_tpo_levels := [],
               pb_current_tpo_high := None, pb_current_tpo_low := None\<rparr>))"

text \<open>The pair of calls that closes a period everywhere in the builder.\<close>

definition close_tpo :: "session_profile_builder \<Rightarrow> (analytics_error + unit) \<times> session_profile_builder" where
  "close_tpo p =
     (case preflight_close_current_tpo p of Inl e \<Rightarrow> (Inl e, p) | Inr _ \<Rightarrow> apply_close_current_tpo p)"

section \<open>Point of control and value area\<close>

fun activity :: "session_profile_builder \<Rightarrow> value_area_basis \<Rightarrow> price_bucket \<Rightarrow> i128" where
  "activity p VolumeBasis bucket = unwrap_or (bt_get (pb_volume_by_level p) bucket) 0"
| "activity p TpoBasis bucket = int (unwrap_or (bt_get (pb_tpo_by_level p) bucket) 0)"

text \<open>One turn of the search: state is the best index, its activity and its distance from the midpoint.\<close>

definition poc_step ::
    "(price_bucket \<Rightarrow> i128) \<Rightarrow> price_bucket list \<Rightarrow> i128 \<Rightarrow> nat \<times> i128 \<times> int \<Rightarrow> nat \<times> price_bucket \<Rightarrow>
     analytics_error + nat \<times> i128 \<times> int" where
  "poc_step act buckets midpoint_twice = (\<lambda>(poc_index, poc_activity, poc_distance) (index, bucket).
     and_then (ok_or (case checked_i128 (bucket * 2) of None \<Rightarrow> None
                      | Some twice \<Rightarrow> checked_i128 (twice - midpoint_twice))
                 (ArithmeticOverflow ''calculating POC tie distance'')) (\<lambda>d.
       let distance = \<bar>d\<bar> in
       if poc_activity < act bucket
          \<or> act bucket = poc_activity \<and> distance < poc_distance
          \<or> act bucket = poc_activity \<and> distance = poc_distance \<and> bucket < buckets ! poc_index
       then Inr (index, act bucket, distance)
       else Inr (poc_index, poc_activity, poc_distance)))"

function expand_area ::
    "(nat \<Rightarrow> i128) \<Rightarrow> nat \<Rightarrow> i128 \<Rightarrow> i128 \<Rightarrow> nat \<Rightarrow> nat \<Rightarrow> analytics_error + nat \<times> nat" where
  "expand_area act n target selected lower upper =
     (if target \<le> selected then Inr (lower, upper)
      else
        case (if 0 < lower then Some (act (lower - 1)) else None,
              if upper + 1 < n then Some (act (upper + 1)) else None) of
          (Some l, Some u) \<Rightarrow>
            if l = u then
              and_then (add_i128 selected l ''expanding value area'') (\<lambda>selected.
                if selected < target then
                  and_then (add_i128 selected u ''expanding value area'') (\<lambda>selected.
                    expand_area act n target selected (lower - 1) (upper + 1))
                else expand_area act n target selected (lower - 1) upper)
            else if u < l then
              and_then (add_i128 selected l ''expanding value area'') (\<lambda>selected.
                expand_area act n target selected (lower - 1) upper)
            else
              and_then (add_i128 selected u ''expanding value area'') (\<lambda>selected.
                expand_area act n target selected lower (upper + 1))
        | (Some l, None) \<Rightarrow>
            and_then (add_i128 selected l ''expanding value area'') (\<lambda>selected.
              expand_area act n target selected (lower - 1) upper)
        | (None, Some u) \<Rightarrow>
            and_then (add_i128 selected u ''expanding value area'') (\<lambda>selected.
              expand_area act n target selected lower (upper + 1))
        | (None, None) \<Rightarrow> Inr (lower, upper))"
  by pat_completeness auto

termination
  by (relation "measure (\<lambda>(_, n, _, _, lower, upper). lower + (n - upper))") (auto split: if_splits)

declare expand_area.simps [simp del]

definition value_area ::
    "session_profile_builder \<Rightarrow> value_area_basis \<Rightarrow>
     analytics_error + price_bucket option \<times> price_bucket option \<times> price_bucket option" where
  "value_area p basis =
     (if pb_volume_by_level p = [] then Inr (None, None, None)
      else
        let buckets = map fst (pb_volume_by_level p); act = activity p basis in
        and_then (add_i128 (hd buckets) (last buckets) ''calculating POC midpoint'') (\<lambda>midpoint_twice.
        and_then (try_fold (poc_step act buckets midpoint_twice) (0, -1, 2 ^ 128 - 1) (enumerate 0 buckets))
          (\<lambda>(poc_index, poc_activity, _).
        and_then (try_fold (\<lambda>t b. add_i128 t (act b) ''summing value-area activity'') 0 buckets)
          (\<lambda>total_activity.
        and_then (ok_or (checked_i128 (total_activity * int (pc_value_area_bps (pb_config p))))
                    (ArithmeticOverflow ''calculating value-area target'')) (\<lambda>scaled_target.
        and_then (add_i128 scaled_target 9999 ''rounding value-area target'') (\<lambda>rounded.
        and_then (expand_area (\<lambda>i. act (buckets ! i)) (length buckets) (rounded sdiv 10000) poc_activity
                    poc_index poc_index) (\<lambda>(lower, upper).
        Inr (Some (buckets ! poc_index), Some (buckets ! lower), Some (buckets ! upper)))))))))"

section \<open>Published profiles\<close>

definition profile_level_snapshot ::
    "session_profile_builder \<Rightarrow> price_bucket \<times> i128 \<Rightarrow> analytics_error + profile_level" where
  "profile_level_snapshot p = (\<lambda>(bucket, units).
     and_then (price_at (pb_grid p) bucket) (\<lambda>price.
     and_then (quantity_at (pb_grid p) units) (\<lambda>volume.
     Inr \<lparr>pf_price = price, pf_volume = volume,
          pf_tpo_count = unwrap_or (bt_get (pb_tpo_by_level p) bucket) 0\<rparr>)))"

definition session_range :: "session_profile_builder \<Rightarrow> analytics_error + fixed option" where
  "session_range p =
     (case (pb_session_low p, pb_session_high p) of
        (Some low, Some high) \<Rightarrow>
          map_ok (\<lambda>c. Some (fixed_new c (g_price_scale (pb_grid p))))
            (ok_or (checked_i128 (coefficient (price_fixed high) - coefficient (price_fixed low)))
              (ArithmeticOverflow ''calculating session range''))
      | _ \<Rightarrow> Inr None)"

definition profile_snapshot ::
    "session_profile_builder \<Rightarrow> profile_state \<Rightarrow> value_area_basis \<Rightarrow> analytics_error + session_profile" where
  "profile_snapshot p state basis =
     and_then (ok_or (pb_session_start p) (CorruptSnapshot ''cannot snapshot an inactive profile'')) (\<lambda>start_ts.
     and_then (ok_or (checked_i64 (start_ts + tf_session_ns (pb_time p)))
                 (ArithmeticOverflow ''calculating session end'')) (\<lambda>end_ts.
     and_then (session_range p) (\<lambda>rng.
     and_then (value_area p basis) (\<lambda>(poc_bucket, val_bucket, vah_bucket).
     and_then (try_map (profile_level_snapshot p) (pb_volume_by_level p)) (\<lambda>levels.
     and_then (try_fold (\<lambda>s (_, count). add_u64 s count ''summing session TPO count'') 0 (pb_tpo_by_level p))
       (\<lambda>tpo_count.
     and_then (quantity_at (pb_grid p) (pb_total_volume_units p)) (\<lambda>volume.
     and_then (transpose_opt (price_at (pb_grid p)) poc_bucket) (\<lambda>poc.
     and_then (transpose_opt (price_at (pb_grid p)) vah_bucket) (\<lambda>vah.
     and_then (transpose_opt (price_at (pb_grid p)) val_bucket) (\<lambda>val.
     Inr \<lparr>sp_schema_version = PROFILE_SCHEMA_VERSION, sp_state = state, sp_basis = basis,
          sp_value_area_bps = pc_value_area_bps (pb_config p), sp_start_ts = start_ts, sp_end_ts = end_ts,
          sp_high = pb_session_high p, sp_low = pb_session_low p, sp_range = rng, sp_total_volume = volume,
          sp_poc = poc, sp_vah = vah, sp_val = val, sp_tpo_count = tpo_count,
          sp_rotation_factor = pb_rotation_factor p, sp_levels = levels\<rparr>))))))))))"

section \<open>The builder's operations\<close>

definition profile_reject_late :: "session_profile_builder \<Rightarrow> i64 \<Rightarrow> analytics_error + unit" where
  "profile_reject_late p ts =
     (case pb_last_timestamp_ns p of
        None \<Rightarrow> Inr ()
      | Some lst \<Rightarrow> if ts < lst then Inl (LateTrade ts lst) else Inr ())"

definition start_session :: "session_profile_builder \<Rightarrow> i64 \<Rightarrow> i64 \<Rightarrow> session_profile_builder" where
  "start_session p session tpo = p\<lparr>pb_session_start := Some session, pb_current_tpo_start := Some tpo\<rparr>"

definition profile_clear_active :: "session_profile_builder \<Rightarrow> session_profile_builder" where
  "profile_clear_active p =
     p\<lparr>pb_session_start := None, pb_current_tpo_start := None, pb_session_high := None, pb_session_low := None,
       pb_volume_by_level := [], pb_tpo_by_level := [], pb_total_volume_units := 0,
       pb_current_tpo_levels := [], pb_current_tpo_high := None, pb_current_tpo_low := None,
       pb_previous_tpo_high := None, pb_previous_tpo_low := None, pb_rotation_factor := 0\<rparr>"

text \<open>A closed copy of the builder and its snapshot.\<close>

definition closed_snapshot ::
    "session_profile_builder \<Rightarrow> profile_state \<Rightarrow> value_area_basis \<Rightarrow> analytics_error + session_profile" where
  "closed_snapshot p state basis =
     (case close_tpo p of (Inl e, _) \<Rightarrow> Inl e | (Inr _, q) \<Rightarrow> profile_snapshot q state basis)"

definition finalized_clone :: "session_profile_builder \<Rightarrow> analytics_error + session_profile" where
  "finalized_clone p = closed_snapshot p FinalProfile (pc_basis (pb_config p))"

definition live_snapshot_with_basis ::
    "session_profile_builder \<Rightarrow> value_area_basis \<Rightarrow> analytics_error + session_profile option" where
  "live_snapshot_with_basis p basis =
     (if pb_session_start p = None then Inr None else map_ok Some (closed_snapshot p LiveProfile basis))"

definition profile_live_snapshot :: "session_profile_builder \<Rightarrow> analytics_error + session_profile option" where
  "profile_live_snapshot p = live_snapshot_with_basis p (pc_basis (pb_config p))"

text \<open>The reads at the head of \<^verbatim>\<open>ingest\<close>: bucket, price, units, session and TPO of the trade.\<close>

definition profile_inputs ::
    "session_profile_builder \<Rightarrow> i64 \<Rightarrow> price \<Rightarrow> quantity \<Rightarrow>
     analytics_error + price_bucket \<times> price \<times> quantity_units \<times> i64 \<times> i64" where
  "profile_inputs p ts price q =
     and_then (profile_reject_late p ts) (\<lambda>_.
     and_then (price_bucket_of (pb_grid p) price) (\<lambda>bucket.
     and_then (price_tick_of (pb_grid p) price) (\<lambda>tick.
     and_then (price_at_tick (pb_grid p) tick) (\<lambda>price.
     and_then (quantity_units_of (pb_grid p) q) (\<lambda>q.
     and_then (checked_session_start (pb_time p) ts) (\<lambda>session.
     and_then (checked_tpo_start (pb_time p) ts) (\<lambda>tpo.
     Inr (bucket, price, q, session, tpo))))))))"

text \<open>The first trade of a session, on a builder with no active session.\<close>

definition open_with_trade ::
    "session_profile_builder \<Rightarrow> i64 \<Rightarrow> price_bucket \<Rightarrow> price \<Rightarrow> quantity_units \<Rightarrow> i64 \<Rightarrow> i64 \<Rightarrow>
     (analytics_error + unit) \<times> session_profile_builder" where
  "open_with_trade p ts bucket price q session tpo =
     (case profile_preflight_add p bucket q True of
        Inl e \<Rightarrow> (Inl e, p)
      | Inr _ \<Rightarrow>
        sthen (profile_apply_add (start_session p session tpo) bucket price q)
          (\<lambda>_ p'. (Inr (), p'\<lparr>pb_last_timestamp_ns := Some ts\<rparr>)))"

text \<open>The steps of a trade that stays in the session of the builder.\<close>

definition same_session ::
    "session_profile_builder \<Rightarrow> i64 \<Rightarrow> price_bucket \<Rightarrow> price \<Rightarrow> quantity_units \<Rightarrow> i64 \<Rightarrow> i64 \<Rightarrow>
     (analytics_error + session_profile option) \<times> session_profile_builder" where
  "same_session p ts bucket price q current_tpo tpo =
     (case profile_preflight_add p bucket q (tpo \<noteq> current_tpo) of
        Inl e \<Rightarrow> (Inl e, p)
      | Inr _ \<Rightarrow>
        sthen (if current_tpo < tpo then
                 sthen (close_tpo p) (\<lambda>_ p'. (Inr (), p'\<lparr>pb_current_tpo_start := Some tpo\<rparr>))
               else (Inr (), p))
          (\<lambda>_ p'. sthen (profile_apply_add p' bucket price q)
            (\<lambda>_ p''. (Inr None, p''\<lparr>pb_last_timestamp_ns := Some ts\<rparr>))))"

definition profile_ingest ::
    "session_profile_builder \<Rightarrow> i64 \<Rightarrow> price \<Rightarrow> quantity \<Rightarrow>
     (analytics_error + session_profile option) \<times> session_profile_builder" where
  "profile_ingest p ts price q =
     (case profile_inputs p ts price q of
        Inl e \<Rightarrow> (Inl e, p)
      | Inr (bucket, price, q, session, tpo) \<Rightarrow>
        (case pb_session_start p of
           None \<Rightarrow> apfst (map_ok (\<lambda>_. None)) (open_with_trade p ts bucket price q session tpo)
         | Some current_session \<Rightarrow>
           if current_session < session then
             (case and_then (finalized_clone p) (\<lambda>finalized.
                 and_then (profile_new (pb_grid p) (pb_time p) (pb_config p)) (\<lambda>replacement.
                 case open_with_trade replacement ts bucket price q session tpo of
                   (Inl e, _) \<Rightarrow> Inl e
                 | (Inr _, replacement') \<Rightarrow> Inr (finalized, replacement'))) of
                Inl e \<Rightarrow> (Inl e, p)
              | Inr (finalized, replacement) \<Rightarrow> (Inr (Some finalized), replacement))
           else if session < current_session then (Inl (LateTrade ts current_session), p)
           else
             (case pb_current_tpo_start p of
                None \<Rightarrow> (Inl (CorruptSnapshot ''active session is missing current TPO''), p)
              | Some current_tpo \<Rightarrow>
                if tpo < current_tpo then (Inl (LateTrade ts current_tpo), p)
                else
                  same_session p ts bucket price q current_tpo tpo)))"

text \<open>
  \<^verbatim>\<open>advance_to\<close> and \<^verbatim>\<open>finish\<close> close the period in place before the snapshot that may fail: an error of
  the snapshot leaves the builder with the period closed.
\<close>

definition profile_advance_to ::
    "session_profile_builder \<Rightarrow> i64 \<Rightarrow> (analytics_error + session_profile option) \<times> session_profile_builder" where
  "profile_advance_to p ts =
     (case profile_reject_late p ts of
        Inl e \<Rightarrow> (Inl e, p)
      | Inr _ \<Rightarrow>
        (case pb_session_start p of
           None \<Rightarrow> (Inr None, p\<lparr>pb_last_timestamp_ns := Some ts\<rparr>)
         | Some session \<Rightarrow>
           (case ok_or (checked_i64 (session + tf_session_ns (pb_time p)))
                   (ArithmeticOverflow ''calculating session end'') of
              Inl e \<Rightarrow> (Inl e, p)
            | Inr session_end \<Rightarrow>
              if session_end \<le> ts then
                sthen (close_tpo p) (\<lambda>_ p'.
                  case profile_snapshot p' FinalProfile (pc_basis (pb_config p')) of
                    Inl e \<Rightarrow> (Inl e, p')
                  | Inr finalized \<Rightarrow>
                    (Inr (Some finalized), (profile_clear_active p')\<lparr>pb_last_timestamp_ns := Some ts\<rparr>))
              else
                (case and_then (checked_tpo_start (pb_time p) ts) (\<lambda>target_tpo.
                    map_ok (Pair target_tpo) (ok_or (pb_current_tpo_start p)
                      (CorruptSnapshot ''active session is missing current TPO''))) of
                   Inl e \<Rightarrow> (Inl e, p)
                 | Inr (target_tpo, current_tpo) \<Rightarrow>
                   sthen (if current_tpo < target_tpo then
                            sthen (close_tpo p) (\<lambda>_ p'. (Inr (), p'\<lparr>pb_current_tpo_start := Some target_tpo\<rparr>))
                          else (Inr (), p))
                     (\<lambda>_ p'. (Inr None, p'\<lparr>pb_last_timestamp_ns := Some ts\<rparr>))))))"

definition profile_finish ::
    "session_profile_builder \<Rightarrow> (analytics_error + session_profile option) \<times> session_profile_builder" where
  "profile_finish p =
     (if pb_session_start p = None then (Inr None, p)
      else
        sthen (close_tpo p) (\<lambda>_ p'.
          case profile_snapshot p' FinalProfile (pc_basis (pb_config p')) of
            Inl e \<Rightarrow> (Inl e, p')
          | Inr finalized \<Rightarrow> (Inr (Some finalized), profile_clear_active p')))"

definition profile_validate :: "session_profile_builder \<Rightarrow> analytics_error + unit" where
  "profile_validate p =
     and_then (grid_validate (pb_grid p)) (\<lambda>_. and_then (timeframe_validate (pb_time p)) (\<lambda>_.
     and_then (profile_config_validate (pb_config p)) (\<lambda>_.
       if pc_max_levels (pb_config p) < length (pb_volume_by_level p)
          \<or> pc_max_levels (pb_config p) < length (pb_tpo_by_level p) then
         Inl (CorruptSnapshot ''profile level count exceeds configured capacity'')
       else if pc_max_tpo_levels_per_period (pb_config p) < length (pb_current_tpo_levels p) then
         Inl (CorruptSnapshot ''current TPO level count exceeds configured capacity'')
       else if pb_total_volume_units p < 0 \<or> list_ex (\<lambda>(_, v). v < 0) (pb_volume_by_level p) then
         Inl (CorruptSnapshot ''negative profile volume'')
       else
         and_then (try_fold (\<lambda>s (_, v). add_i128 s v ''validating total profile volume'') 0 (pb_volume_by_level p))
           (\<lambda>summed.
         if summed \<noteq> pb_total_volume_units p then
           Inl (CorruptSnapshot ''profile total volume does not equal level sum'')
         else
           (case (pb_session_start p, pb_current_tpo_start p) of
              (Some session, Some tpo) \<Rightarrow>
                if session \<le> tpo then
                  and_then (ok_or (checked_i64 (session + tf_session_ns (pb_time p)))
                              (ArithmeticOverflow ''validating session end'')) (\<lambda>session_end.
                    if tpo < session_end then Inr ()
                    else Inl (CorruptSnapshot ''session and TPO lifecycle state is inconsistent''))
                else Inl (CorruptSnapshot ''session and TPO lifecycle state is inconsistent'')
            | (None, None) \<Rightarrow> Inr ()
            | _ \<Rightarrow> Inl (CorruptSnapshot ''session and TPO lifecycle state is inconsistent''))))))"

section \<open>The value area\<close>

text \<open>The point of control: greatest activity, then nearest the middle of the traded range, then lowest.\<close>

definition preferred :: "(price_bucket \<Rightarrow> i128) \<Rightarrow> i128 \<Rightarrow> price_bucket \<Rightarrow> price_bucket \<Rightarrow> bool" where
  "preferred act m a b \<longleftrightarrow>
     act b < act a \<or> act a = act b \<and> (\<bar>a * 2 - m\<bar> < \<bar>b * 2 - m\<bar> \<or> \<bar>a * 2 - m\<bar> = \<bar>b * 2 - m\<bar> \<and> a \<le> b)"

lemma preferred_refl [simp]: "preferred act m a a"
  by (simp add: preferred_def)

lemma preferred_trans: "preferred act m a b \<Longrightarrow> preferred act m b c \<Longrightarrow> preferred act m a c"
  by (auto simp: preferred_def)

lemma poc_step_snoc:
  assumes "i < length xs" and "xs @ x # ys = buckets" and "in_i128 (x * 2)" and "in_i128 (x * 2 - m)"
  shows "\<exists>j. poc_step act buckets m (i, act (xs ! i), \<bar>xs ! i * 2 - m\<bar>) (length xs, x) =
      Inr (j, act ((xs @ [x]) ! j), \<bar>(xs @ [x]) ! j * 2 - m\<bar>) \<and> j \<le> length xs \<and>
    preferred act m ((xs @ [x]) ! j) (xs ! i) \<and> preferred act m ((xs @ [x]) ! j) x"
proof -
  have at: "buckets ! i = xs ! i" using assms(1,2) by (auto simp: nth_append)
  show ?thesis
  proof (cases "act (xs ! i) < act x \<or> act x = act (xs ! i) \<and> \<bar>x * 2 - m\<bar> < \<bar>xs ! i * 2 - m\<bar>
      \<or> act x = act (xs ! i) \<and> \<bar>x * 2 - m\<bar> = \<bar>xs ! i * 2 - m\<bar> \<and> x < xs ! i")
    case True
    then have "preferred act m x (xs ! i)" by (auto simp: preferred_def)
    with True assms show ?thesis
      by (intro exI [of _ "length xs"]) (auto simp: poc_step_def checked_defs at)
  next
    case False
    then have "preferred act m (xs ! i) x" by (auto simp: preferred_def)
    with False assms show ?thesis
      by (intro exI [of _ i]) (auto simp: poc_step_def checked_defs at nth_append)
  qed
qed

lemma poc_fold:
  assumes "xs @ ys = buckets" and "xs \<noteq> []" and "\<forall>b \<in> set xs. 0 \<le> act b \<and> in_i128 (b * 2) \<and> in_i128 (b * 2 - m)"
  shows "\<exists>i. try_fold (poc_step act buckets m) (0, -1, 2 ^ 128 - 1) (enumerate 0 xs) =
      Inr (i, act (xs ! i), \<bar>xs ! i * 2 - m\<bar>) \<and> i < length xs \<and> (\<forall>b \<in> set xs. preferred act m (xs ! i) b)"
  using assms
proof (induction xs arbitrary: ys rule: rev_induct)
  case (snoc x xs)
  have fold: "try_fold f s (enumerate 0 (xs @ [x])) =
      and_then (try_fold f s (enumerate 0 xs)) (\<lambda>s. f s (length xs, x))"
    for f :: "nat \<times> i128 \<times> int \<Rightarrow> nat \<times> price_bucket \<Rightarrow> analytics_error + nat \<times> i128 \<times> int" and s
    by (cases "try_fold f s (enumerate 0 xs)") (auto simp: enumerate_append_eq try_fold_append)
  show ?case
  proof (cases "xs = []")
    case True
    with snoc.prems show ?thesis by (auto simp: poc_step_def checked_defs)
  next
    case False
    then obtain i where i: "try_fold (poc_step act buckets m) (0, -1, 2 ^ 128 - 1) (enumerate 0 xs) =
        Inr (i, act (xs ! i), \<bar>xs ! i * 2 - m\<bar>)" "i < length xs" "\<forall>b \<in> set xs. preferred act m (xs ! i) b"
      using snoc.IH [of "x # ys"] snoc.prems by auto
    obtain j where j: "poc_step act buckets m (i, act (xs ! i), \<bar>xs ! i * 2 - m\<bar>) (length xs, x) =
        Inr (j, act ((xs @ [x]) ! j), \<bar>(xs @ [x]) ! j * 2 - m\<bar>)" "j \<le> length xs"
      "preferred act m ((xs @ [x]) ! j) (xs ! i)" "preferred act m ((xs @ [x]) ! j) x"
      using poc_step_snoc [OF i(2), of x ys buckets m act] snoc.prems by auto
    then show ?thesis using i preferred_trans by (intro exI [of _ j]) (auto simp: fold)
  qed
qed simp

text \<open>The expansion stops on a contiguous area that reaches the target and would miss it one level smaller.\<close>

definition area :: "(nat \<Rightarrow> i128) \<Rightarrow> nat \<Rightarrow> nat \<Rightarrow> int" where
  "area act l u = (\<Sum>i = l..u. act i)"

lemma area_lower: "0 < l \<Longrightarrow> l \<le> u \<Longrightarrow> area act (l - 1) u = area act l u + act (l - 1)"
  using sum.atLeast_Suc_atMost [of "l - 1" u act] by (simp add: area_def)

lemma area_upper: "l \<le> u \<Longrightarrow> area act l (u + 1) = area act l u + act (u + 1)"
  by (simp add: area_def)

lemma area_in_range:
  assumes "\<forall>i < n. 0 \<le> act i" and "u < n" and "in_i128 (area act 0 (n - 1))"
  shows "in_i128 (area act l u)"
proof (rule in_i128_between [OF in_i128_zero assms(3)])
  show "0 \<le> area act l u" unfolding area_def using assms(1,2) by (intro sum_nonneg) auto
  show "area act l u \<le> area act 0 (n - 1)" unfolding area_def using assms(1,2) by (intro sum_mono2) auto
qed

definition tight :: "(nat \<Rightarrow> i128) \<Rightarrow> i128 \<Rightarrow> nat \<Rightarrow> nat \<Rightarrow> bool" where
  "tight act target l u \<longleftrightarrow> area act (l + 1) u < target \<or> 0 < u \<and> area act l (u - 1) < target"

text \<open>One turn of the loop, with the running sum kept as the area selected so far.\<close>

lemma expand_area_turn:
  assumes nonneg: "\<forall>i < n. 0 \<le> act i" and small: "in_i128 (area act 0 (n - 1))"
    and lu: "lower \<le> upper" "upper < n" and "\<not> target \<le> area act lower upper"
  defines "go \<equiv> \<lambda>l u. expand_area act n target (area act l u) l u"
  shows "0 < lower \<Longrightarrow> upper + 1 < n \<Longrightarrow> go lower upper =
      (if act (lower - 1) = act (upper + 1) then
         if area act (lower - 1) upper < target then go (lower - 1) (upper + 1) else go (lower - 1) upper
       else if act (upper + 1) < act (lower - 1) then go (lower - 1) upper else go lower (upper + 1))"
    and "0 < lower \<Longrightarrow> \<not> upper + 1 < n \<Longrightarrow> go lower upper = go (lower - 1) upper"
    and "\<not> 0 < lower \<Longrightarrow> upper + 1 < n \<Longrightarrow> go lower upper = go lower (upper + 1)"
proof -
  have add: "ok_or (checked_i128 (area act l u)) e = Inr (area act l u)" if "u < n" for l u and e :: analytics_error
    using area_in_range [OF nonneg that small] by (simp add: checked_defs)
  have low: "area act lower upper + act (lower - 1) = area act (lower - 1) upper" if "0 < lower"
    using area_lower [OF that lu(1)] by simp
  have up: "area act lower upper + act (upper + 1) = area act lower (upper + 1)" using area_upper [OF lu(1)] by simp
  have both: "area act (lower - 1) upper + act (upper + 1) = area act (lower - 1) (upper + 1)"
    using area_upper [of "lower - 1" upper act] lu(1) by simp
  note turn = assms(5) if_True if_False prod.case option.case up both add [OF lu(2)] and_then.simps
  show "go lower upper =
      (if act (lower - 1) = act (upper + 1) then
         if area act (lower - 1) upper < target then go (lower - 1) (upper + 1) else go (lower - 1) upper
       else if act (upper + 1) < act (lower - 1) then go (lower - 1) upper else go lower (upper + 1))"
    if "0 < lower" "upper + 1 < n"
    unfolding go_def by (subst expand_area.simps) (simp only: that low [OF that(1)] add [OF that(2)] turn)
  show "go lower upper = go (lower - 1) upper" if "0 < lower" "\<not> upper + 1 < n"
    unfolding go_def by (subst expand_area.simps) (simp only: that low [OF that(1)] turn)
  show "go lower upper = go lower (upper + 1)" if "\<not> 0 < lower" "upper + 1 < n"
    unfolding go_def by (subst expand_area.simps) (simp only: that add [OF that(2)] turn)
qed

lemma expand_area_spec:
  assumes nonneg: "\<forall>i < n. 0 \<le> act i" and small: "in_i128 (area act 0 (n - 1))"
    and reach: "target \<le> area act 0 (n - 1)" and "lower \<le> upper" and "upper < n"
  shows "\<exists>l u. expand_area act n target (area act lower upper) lower upper = Inr (l, u) \<and> l \<le> lower \<and> upper \<le> u \<and>
    u < n \<and> target \<le> area act l u \<and> (l = lower \<and> u = upper \<or> tight act target l u)"
  using assms(4,5)
proof (induction "lower + (n - upper)" arbitrary: lower upper rule: less_induct)
  case less
  let ?s = "area act lower upper"
  let ?spec = "\<lambda>r. \<exists>l u. r = Inr (l, u) \<and> l \<le> lower \<and> upper \<le> u \<and> u < n \<and> target \<le> area act l u \<and>
    (l = lower \<and> u = upper \<or> tight act target l u)"
  show ?case
  proof (cases "target \<le> ?s")
    case True
    with less.prems show ?thesis by (subst expand_area.simps) auto
  next
    case False
    have step: "?spec (expand_area act n target (area act l' u') l' u')"
      if "l' \<le> lower" "upper \<le> u'" "u' < n" "l' < lower \<or> upper < u'" "tight act target l' u'" for l' u'
    proof -
      have "l' + (n - u') < lower + (n - upper)" "l' \<le> u'" using that less.prems by auto
      from less.hyps [OF this that(3)] that show ?thesis by force
    qed
    have tights: "0 < lower \<Longrightarrow> tight act target (lower - 1) upper" "tight act target lower (upper + 1)"
      "area act (lower - 1) upper < target \<Longrightarrow> tight act target (lower - 1) (upper + 1)"
      using False by (simp_all add: tight_def)
    have more: "0 < lower \<or> upper + 1 < n"
    proof (rule ccontr)
      assume "\<not> ?thesis"
      with less.prems have "lower = 0" "upper = n - 1" by auto
      with reach False show False by simp
    qed
    note turn = expand_area_turn [OF nonneg small less.prems False]
    have moves: "0 < lower \<Longrightarrow> ?spec (expand_area act n target (area act (lower - 1) upper) (lower - 1) upper)"
      "upper + 1 < n \<Longrightarrow> ?spec (expand_area act n target (area act lower (upper + 1)) lower (upper + 1))"
      "0 < lower \<Longrightarrow> upper + 1 < n \<Longrightarrow> area act (lower - 1) upper < target \<Longrightarrow>
        ?spec (expand_area act n target (area act (lower - 1) (upper + 1)) (lower - 1) (upper + 1))"
      using tights less.prems by (auto intro!: step)
    from more consider "0 < lower" "upper + 1 < n" | "0 < lower" "\<not> upper + 1 < n" | "\<not> 0 < lower" "upper + 1 < n"
      by blast
    then show ?thesis
    proof cases
      case 1
      with moves show ?thesis unfolding turn(1) [OF 1] by simp
    next
      case 2
      with moves(1) show ?thesis unfolding turn(2) [OF 2] by simp
    next
      case 3
      with moves(2) show ?thesis unfolding turn(3) [OF 3] by simp
    qed
  qed
qed

lemma strict_nth_le_iff:
  assumes "sorted_wrt (<) (ks :: int list)" and "i < length ks" and "j < length ks"
  shows "ks ! i \<le> ks ! j \<longleftrightarrow> i \<le> j"
proof (cases "i \<le> j")
  case True
  then show ?thesis using sorted_wrt_nth_less [OF assms(1), of i j] assms(3) by (cases "i = j") auto
next
  case False
  then show ?thesis using sorted_wrt_nth_less [OF assms(1), of j i] assms(2) by auto
qed

lemma area_keys:
  assumes sorted: "sorted_wrt (<) (ks :: int list)" and lu: "l < length ks" "u < length ks"
  shows "(\<Sum>k \<in> {k \<in> set ks. ks ! l \<le> k \<and> k \<le> ks ! u}. act k) = area (\<lambda>i. act (ks ! i)) l u"
proof -
  have inj: "inj_on ((!) ks) {l..u}"
    using lu sorted_wrt_nth_less [OF sorted] by (intro inj_onI) (metis atLeastAtMost_iff le_less_trans less_irrefl linorder_neqE_nat)
  have "{k \<in> set ks. ks ! l \<le> k \<and> k \<le> ks ! u} = (!) ks ` {l..u}"
  proof (intro equalityI subsetI)
    fix k assume "k \<in> {k \<in> set ks. ks ! l \<le> k \<and> k \<le> ks ! u}"
    then show "k \<in> (!) ks ` {l..u}" using lu by (auto simp: in_set_conv_nth strict_nth_le_iff [OF sorted])
  next
    fix k assume "k \<in> (!) ks ` {l..u}"
    then obtain i where "k = ks ! i" "l \<le> i" "i \<le> u" by auto
    with lu show "k \<in> {k \<in> set ks. ks ! l \<le> k \<and> k \<le> ks ! u}" by (simp add: strict_nth_le_iff [OF sorted])
  qed
  then show ?thesis by (simp add: area_def sum.reindex [OF inj])
qed

lemma area_all: "0 < length ks \<Longrightarrow> area (\<lambda>i. act (ks ! i)) 0 (length ks - 1) = (\<Sum>k\<leftarrow>ks. act k)"
proof -
  assume "0 < length ks"
  then obtain m where "length ks = Suc m" by (cases "length ks") simp_all
  then have "{0..length ks - 1} = {0..<length ks}" by auto
  then show ?thesis by (simp add: area_def sum_list_sum_nth)
qed

lemma area_drop: "l \<le> u \<Longrightarrow> area act (l + 1) u = area act l u - act l"
  "l \<le> u \<Longrightarrow> 0 < u \<Longrightarrow> area act l (u - 1) = area act l u - act u"
  using sum.atLeast_Suc_atMost [of l u act] by (simp add: area_def) (cases u; simp add: area_def)

lemma ceil_target:
  fixes x t :: int
  assumes "0 \<le> t"
  shows "(t + 9999) sdiv 10000 \<le> x \<longleftrightarrow> t \<le> x * 10000"
proof -
  have "t + 9999 = 10000 * ((t + 9999) div 10000) + (t + 9999) mod 10000" by simp
  moreover have "0 \<le> (t + 9999) mod 10000" "(t + 9999) mod 10000 < 10000" by simp_all
  moreover have "(t + 9999) sdiv 10000 = (t + 9999) div 10000" using assms by (simp add: sdiv_pos)
  ultimately show ?thesis by linarith
qed

lemma sum_activity:
  assumes "\<forall>b \<in> set ks. 0 \<le> act b" and "0 \<le> acc" and "in_i128 (acc + (\<Sum>k\<leftarrow>ks. act k))"
  shows "try_fold (\<lambda>t b. ok_or (checked_i128 (t + act b)) e) acc ks = Inr (acc + (\<Sum>k\<leftarrow>ks. act k))"
  using assms by (intro try_fold_sum) (auto simp: checked_defs)

lemma checked_i128_Some: "in_i128 x \<Longrightarrow> checked_i128 x = Some x"
  by (simp add: checked_defs)

lemma value_area_run:
  fixes p :: session_profile_builder and basis :: value_area_basis
  defines "ks \<equiv> map fst (pb_volume_by_level p)" and "bps \<equiv> int (pc_value_area_bps (pb_config p))"
  defines "total_act \<equiv> (\<Sum>k\<leftarrow>ks. activity p basis k)" and "mid \<equiv> hd ks + last ks"
  assumes "ks \<noteq> []" and "\<And>k. k \<in> set ks \<Longrightarrow> 0 \<le> activity p basis k"
    and "in_i128 mid" "in_i128 total_act" "in_i128 (total_act * bps)" "in_i128 (total_act * bps + 9999)"
    and "try_fold (poc_step (activity p basis) ks mid) (0, -1, 2 ^ 128 - 1) (enumerate 0 ks) = Inr (i, a, d)"
    and "expand_area (\<lambda>i. activity p basis (ks ! i)) (length ks) ((total_act * bps + 9999) sdiv 10000) a i i = Inr (l, u)"
  shows "value_area p basis = Inr (Some (ks ! i), Some (ks ! l), Some (ks ! u))"
proof -
  have ne: "pb_volume_by_level p \<noteq> []" using assms(5) by (simp add: ks_def)
  have sum: "try_fold (\<lambda>t b. ok_or (checked_i128 (t + activity p basis b)) e) 0 ks = Inr total_act" for e
    using sum_activity [of ks "activity p basis" 0 e] assms(6,8) by (simp add: total_act_def)
  show ?thesis
    unfolding value_area_def Let_def ks_def [symmetric] mid_def [symmetric] bps_def [symmetric]
    using ne assms(7-12) by (simp only: sum checked_i128_Some ok_or_simps and_then.simps prod.case if_False simp_thms)
qed

definition area_volume :: "session_profile_builder \<Rightarrow> value_area_basis \<Rightarrow> price_bucket \<Rightarrow> price_bucket \<Rightarrow> int" where
  "area_volume p basis lo hi =
     (\<Sum>k \<in> {k \<in> fst ` set (pb_volume_by_level p). lo \<le> k \<and> k \<le> hi}. activity p basis k)"

lemma value_area_spec:
  assumes ok: "bt_ok (pb_volume_by_level p)" and some: "pb_volume_by_level p \<noteq> []"
    and keys: "\<forall>k \<in> fst ` set (pb_volume_by_level p). 0 \<le> k \<and> k < 2 ^ 125 \<and> 0 \<le> activity p basis k"
    and bps: "pc_value_area_bps (pb_config p) \<le> 10000"
    and small: "in_i128 ((\<Sum>k\<leftarrow>map fst (pb_volume_by_level p). activity p basis k) * 10000 + 9999)"
  defines "total_act \<equiv> (\<Sum>k\<leftarrow>map fst (pb_volume_by_level p). activity p basis k)"
    and "mid \<equiv> hd (map fst (pb_volume_by_level p)) + last (map fst (pb_volume_by_level p))"
    and "bps \<equiv> int (pc_value_area_bps (pb_config p))"
  shows "\<exists>poc lo hi. value_area p basis = Inr (Some poc, Some lo, Some hi) \<and>
    {poc, lo, hi} \<subseteq> fst ` set (pb_volume_by_level p) \<and> lo \<le> poc \<and> poc \<le> hi \<and>
    (\<forall>k \<in> fst ` set (pb_volume_by_level p). preferred (activity p basis) mid poc k) \<and>
    total_act * bps \<le> area_volume p basis lo hi * 10000 \<and>
    (lo = hi \<or> (area_volume p basis lo hi - activity p basis lo) * 10000 < total_act * bps \<or>
      (area_volume p basis lo hi - activity p basis hi) * 10000 < total_act * bps)"
proof -
  define ks where "ks = map fst (pb_volume_by_level p)"
  define act where "act = activity p basis"
  define lv where "lv = (\<lambda>i. act (ks ! i))"
  have sorted: "sorted_wrt (<) ks" and ne: "ks \<noteq> []" and set: "set ks = fst ` set (pb_volume_by_level p)"
    using ok some by (simp_all add: ks_def bt_ok_def)
  have total: "total_act = (\<Sum>k\<leftarrow>ks. act k)" by (simp add: total_act_def ks_def act_def)
  have k: "0 \<le> k" "k < 2 ^ 125" "0 \<le> act k" if "k \<in> set ks" for k using keys that by (auto simp: set act_def)
  have nonneg: "\<forall>i < length ks. 0 \<le> lv i" using k(3) by (simp add: lv_def)
  have pos: "0 \<le> total_act" unfolding total using k(3) by (rule sum_list_map_nonneg)
  have range: "in_i128 total_act" "in_i128 (total_act * bps)" "in_i128 (total_act * bps + 9999)"
  proof -
    have "total_act * bps \<le> total_act * 10000" using pos bps by (intro mult_left_mono) (auto simp: bps_def)
    moreover have "0 \<le> total_act * bps" using pos by (simp add: bps_def)
    ultimately show "in_i128 total_act" "in_i128 (total_act * bps)" "in_i128 (total_act * bps + 9999)"
      using small pos by (auto simp: in_i128_def total_act_def)
  qed
  have ends: "0 \<le> hd ks" "hd ks < 2 ^ 125" "0 \<le> last ks" "last ks < 2 ^ 125" using k ne by simp_all
  have mid: "in_i128 mid" "mid = hd ks + last ks" using ends by (simp_all add: mid_def ks_def in_i128_def)
  have "0 \<le> act b \<and> in_i128 (b * 2) \<and> in_i128 (b * 2 - mid)" if "b \<in> set ks" for b
    using k [OF that] ends unfolding mid(2) in_i128_def by simp
  then obtain i where poc: "try_fold (poc_step act ks mid) (0, -1, 2 ^ 128 - 1) (enumerate 0 ks) =
      Inr (i, act (ks ! i), \<bar>ks ! i * 2 - mid\<bar>)" "i < length ks" "\<forall>b \<in> set ks. preferred act mid (ks ! i) b"
    using poc_fold [of ks "[]" ks act mid] ne by auto
  define target where "target = (total_act * bps + 9999) sdiv 10000"
  have reach: "target \<le> x \<longleftrightarrow> total_act * bps \<le> x * 10000" for x
    unfolding target_def by (rule ceil_target) (simp add: bps_def pos)
  have miss: "x < target \<longleftrightarrow> x * 10000 < total_act * bps" for x using reach [of x] by linarith
  have whole: "area lv 0 (length ks - 1) = total_act" using area_all [of ks act] ne by (simp add: lv_def total)
  have "target \<le> total_act" unfolding reach using pos bps by (intro mult_left_mono) (auto simp: bps_def)
  then obtain l u where e: "expand_area lv (length ks) target (lv i) i i = Inr (l, u)" "l \<le> i" "i \<le> u" "u < length ks"
    "target \<le> area lv l u" "l = i \<and> u = i \<or> tight lv target l u"
    using expand_area_spec [OF nonneg, of target i i] range(1) poc(2) unfolding whole by (auto simp: area_def)
  have run: "value_area p basis = Inr (Some (ks ! i), Some (ks ! l), Some (ks ! u))"
    unfolding ks_def
    by (rule value_area_run) (use ne mid poc(1) range e(1) k(3) in \<open>simp_all only: act_def mid_def total_act_def ks_def bps_def target_def lv_def simp_thms\<close>)
  have vol: "area_volume p basis (ks ! l) (ks ! u) = area lv l u"
    using area_keys [OF sorted, of l u act] e by (simp add: area_volume_def lv_def act_def flip: set)
  have lu: "l \<le> u" "l < length ks" "ks ! l \<in> set ks" "ks ! i \<in> set ks" "ks ! u \<in> set ks" using e poc(2) by auto
  have "ks ! l \<le> ks ! i \<and> ks ! i \<le> ks ! u" using e poc(2) lu by (simp add: strict_nth_le_iff [OF sorted])
  moreover have "ks ! l = ks ! u \<or> (area lv l u - lv l) * 10000 < total_act * bps \<or> (area lv l u - lv u) * 10000 < total_act * bps"
    using e(6) unfolding tight_def area_drop(1) [OF lu(1)]
    by (elim disjE conjE) (simp_all only: area_drop(2) [OF lu(1)] miss simp_thms)
  ultimately show ?thesis
    using run vol lu poc(3) e(5) reach
    by (intro exI [of _ "ks ! i"] exI [of _ "ks ! l"] exI [of _ "ks ! u"]) (simp add: lv_def act_def flip: set)
qed

section \<open>What the builder stands for\<close>

text \<open>
  The abstract state of a session is the list of its trades, each with its bucket, grid price, units and
  TPO period; \<open>past\<close> are the buckets traded in each closed period and \<open>cur\<close> those of the open one.
\<close>

record profile_add =
  pa_bucket :: price_bucket
  pa_price :: price
  pa_units :: quantity_units
  pa_tpo :: i64

definition bucket_volume :: "profile_add list \<Rightarrow> price_bucket \<Rightarrow> i128 option" where
  "bucket_volume as k =
     (if k \<in> pa_bucket ` set as then Some (\<Sum>a\<leftarrow>filter (\<lambda>a. pa_bucket a = k) as. pa_units a) else None)"

definition periods_with :: "price_bucket list list \<Rightarrow> price_bucket \<Rightarrow> nat" where
  "periods_with past k = length (filter (\<lambda>per. k \<in> set per) past)"

definition max_of :: "price_bucket list \<Rightarrow> price_bucket option" where
  "max_of ks = (if ks = [] then None else Some (Max (set ks)))"

definition min_of :: "price_bucket list \<Rightarrow> price_bucket option" where
  "min_of ks = (if ks = [] then None else Some (Min (set ks)))"

fun rotation_of :: "price_bucket list list \<Rightarrow> int" where
  "rotation_of (a # b # rest) =
     ordering_score (Max (set b)) (Max (set a)) + ordering_score (Min (set b)) (Min (set a)) + rotation_of (b # rest)"
| "rotation_of _ = 0"

abbreviation last_period :: "price_bucket list list \<Rightarrow> price_bucket list" where
  "last_period past \<equiv> (if past = [] then [] else last past)"

definition profile_rep ::
    "profile_add list \<Rightarrow> price_bucket list list \<Rightarrow> price_bucket list \<Rightarrow> session_profile_builder \<Rightarrow> bool" where
  "profile_rep as past cur p \<longleftrightarrow>
     pb_total_volume_units p = (\<Sum>a\<leftarrow>as. pa_units a) \<and>
     bt_ok (pb_volume_by_level p) \<and> (\<forall>k. bt_get (pb_volume_by_level p) k = bucket_volume as k) \<and>
     highest (map pa_price as) (pb_session_high p) \<and> lowest (map pa_price as) (pb_session_low p) \<and>
     bt_ok (pb_tpo_by_level p) \<and>
     (\<forall>k. bt_get (pb_tpo_by_level p) k = (if periods_with past k = 0 then None else Some (periods_with past k))) \<and>
     bt_ok (pb_current_tpo_levels p) \<and>
     (\<forall>k. bt_get (pb_current_tpo_levels p) k = (if k \<in> set cur then Some () else None)) \<and>
     pb_current_tpo_high p = max_of cur \<and> pb_current_tpo_low p = min_of cur \<and>
     pb_previous_tpo_high p = max_of (last_period past) \<and> pb_previous_tpo_low p = min_of (last_period past) \<and>
     pb_rotation_factor p = rotation_of past \<and> [] \<notin> set past"

lemma bucket_volume_snoc:
  "bucket_volume (as @ [a]) k =
     (if k = pa_bucket a then Some (unwrap_or (bucket_volume as k) 0 + pa_units a) else bucket_volume as k)"
proof (cases "k \<in> pa_bucket ` set as")
  case False
  then have "filter (\<lambda>a. pa_bucket a = k) as = []" by (auto simp: filter_empty_conv)
  with False show ?thesis by (auto simp: bucket_volume_def)
qed (cases "k = pa_bucket a"; simp add: bucket_volume_def)

lemma max_of_snoc: "max_of (ks @ [k]) = Some (case max_of ks of None \<Rightarrow> k | Some c \<Rightarrow> max c k)"
  by (auto simp: max_of_def max.commute)

lemma min_of_snoc: "min_of (ks @ [k]) = Some (case min_of ks of None \<Rightarrow> k | Some c \<Rightarrow> min c k)"
  by (auto simp: min_of_def min.commute)

lemma profile_apply_add_rep:
  assumes rep: "profile_rep as past cur p"
    and run: "profile_apply_add p (pa_bucket a) (pa_price a) (pa_units a) = (Inr (), p')"
  shows "profile_rep (as @ [a]) past (cur @ [pa_bucket a]) p'"
proof -
  let ?k = "pa_bucket a"
  have p': "p' = p\<lparr>pb_total_volume_units := pb_total_volume_units p + pa_units a,
      pb_volume_by_level := bt_insert ?k (unwrap_or (bt_get (pb_volume_by_level p) ?k) 0 + pa_units a) (pb_volume_by_level p),
      pb_session_high := Some (case pb_session_high p of None \<Rightarrow> pa_price a | Some c \<Rightarrow> max_price c (pa_price a)),
      pb_session_low := Some (case pb_session_low p of None \<Rightarrow> pa_price a | Some c \<Rightarrow> min_price c (pa_price a)),
      pb_current_tpo_levels := bt_insert ?k () (pb_current_tpo_levels p),
      pb_current_tpo_high := Some (case pb_current_tpo_high p of None \<Rightarrow> ?k | Some c \<Rightarrow> max c ?k),
      pb_current_tpo_low := Some (case pb_current_tpo_low p of None \<Rightarrow> ?k | Some c \<Rightarrow> min c ?k)\<rparr>"
    using run by (auto simp: profile_apply_add_def Let_def result_iffs split: sum.splits)
  show ?thesis
    using rep unfolding profile_rep_def p'
    by (simp add: bt_ok_insert bt_get_insert bucket_volume_snoc highest_snoc lowest_snoc max_of_snoc min_of_snoc)
qed

text \<open>Closing a period counts each of its distinct buckets once.\<close>

lemma count_tpo_levels_Inr:
  assumes "count_tpo_levels bs tpo = (Inr (), tpo')" and "distinct (map fst bs)" and "bt_ok tpo"
  shows "bt_ok tpo' \<and> (\<forall>k. bt_get tpo' k =
    (if k \<in> fst ` set bs then Some (unwrap_or (bt_get tpo k) 0 + 1) else bt_get tpo k))"
  using assms
proof (induction bs arbitrary: tpo)
  case (Cons b bs)
  let ?tpo = "bt_insert (fst b) (unwrap_or (bt_get tpo (fst b)) 0 + 1) tpo"
  have "count_tpo_levels bs ?tpo = (Inr (), tpo')"
    using Cons.prems(1) by (auto simp: Let_def result_iffs split: sum.splits)
  with Cons.IH [of ?tpo] Cons.prems(2,3) show ?case by (auto simp: bt_ok_insert bt_get_insert)
qed simp

lemma count_tpo_levels_ok:
  assumes "\<forall>b \<in> set bs. unwrap_or (bt_get tpo (fst b)) 0 + 1 < 2 ^ 64" and "distinct (map fst bs)"
  shows "fst (count_tpo_levels bs tpo) = Inr ()"
  using assms
proof (induction bs arbitrary: tpo)
  case (Cons b bs)
  have "\<forall>x \<in> set bs. fst x \<noteq> fst b" using Cons.prems(2) by (metis distinct.simps(2) image_eqI list.set_map list.simps(9))
  then have "fst (count_tpo_levels bs (bt_insert (fst b) (unwrap_or (bt_get tpo (fst b)) 0 + 1) tpo)) = Inr ()"
    using Cons.prems by (intro Cons.IH) (simp_all add: bt_get_insert)
  with Cons.prems(1) show ?case by (simp add: Let_def checked_defs)
qed simp

lemma periods_with_snoc: "periods_with (past @ [cur]) k = periods_with past k + (if k \<in> set cur then 1 else 0)"
  by (simp add: periods_with_def)

lemma rotation_of_snoc:
  "rotation_of (past @ [cur]) = rotation_of past +
     (if past = [] then 0
      else ordering_score (Max (set cur)) (Max (set (last past))) + ordering_score (Min (set cur)) (Min (set (last past))))"
  by (induction past rule: rotation_of.induct) auto

lemma rotation_delta_tpo [simp]: "rotation_delta (p\<lparr>pb_tpo_by_level := t\<rparr>) = rotation_delta p"
proof -
  have fields: "pb_previous_tpo_high (p\<lparr>pb_tpo_by_level := t\<rparr>) = pb_previous_tpo_high p"
    "pb_previous_tpo_low (p\<lparr>pb_tpo_by_level := t\<rparr>) = pb_previous_tpo_low p"
    "pb_current_tpo_high (p\<lparr>pb_tpo_by_level := t\<rparr>) = pb_current_tpo_high p"
    "pb_current_tpo_low (p\<lparr>pb_tpo_by_level := t\<rparr>) = pb_current_tpo_low p" by simp_all
  show ?thesis unfolding rotation_delta_def fields ..
qed

lemma close_tpo_rep:
  assumes rep: "profile_rep as past cur p" and run: "close_tpo p = (Inr (), p')"
  shows "profile_rep as (if cur = [] then past else past @ [cur]) [] p'"
proof -
  note rep' = rep [unfolded profile_rep_def]
  have get: "bt_get (pb_current_tpo_levels p) k = (if k \<in> set cur then Some () else None)" for k using rep' by simp
  have keys: "fst ` set (pb_current_tpo_levels p) = set cur"
    using get by (metis (no_types, lifting) bt_get_None_iff option.distinct(1) subsetI subset_antisym)
  show ?thesis
  proof (cases "cur = []")
    case True
    then have "pb_current_tpo_levels p = []" using keys by simp
    then have "p' = p\<lparr>pb_current_tpo_high := None, pb_current_tpo_low := None\<rparr>"
      using run by (auto simp: close_tpo_def apply_close_current_tpo_def split: sum.splits)
    with rep True show ?thesis by (simp add: profile_rep_def max_of_def min_of_def)
  next
    case False
    then have "pb_current_tpo_levels p \<noteq> []" using keys by auto
    then obtain tpo where tpo: "count_tpo_levels (pb_current_tpo_levels p) (pb_tpo_by_level p) = (Inr (), tpo)"
      and p': "p' = p\<lparr>pb_tpo_by_level := tpo, pb_rotation_factor := pb_rotation_factor p + rotation_delta p,
        pb_previous_tpo_high := pb_current_tpo_high p, pb_previous_tpo_low := pb_current_tpo_low p,
        pb_current_tpo_levels := [], pb_current_tpo_high := None, pb_current_tpo_low := None\<rparr>"
      using run by (auto simp: close_tpo_def apply_close_current_tpo_def Let_def result_iffs
          split: sum.splits prod.splits)
    have "rotation_delta p = (if past = [] then 0 else
        ordering_score (Max (set cur)) (Max (set (last past))) + ordering_score (Min (set cur)) (Min (set (last past))))"
      using rep' False by (auto simp: rotation_delta_def max_of_def min_of_def dest: last_in_set)
    moreover have "bt_ok tpo \<and> (\<forall>k. bt_get tpo k =
        (if k \<in> set cur then Some (unwrap_or (bt_get (pb_tpo_by_level p) k) 0 + 1) else bt_get (pb_tpo_by_level p) k))"
      using count_tpo_levels_Inr [OF tpo] rep' unfolding keys by (simp add: bt_ok_distinct)
    ultimately show ?thesis
      using rep' False by (simp add: profile_rep_def p' periods_with_snoc rotation_of_snoc max_of_def min_of_def)
  qed
qed

section \<open>Errors of the builder\<close>

lemma profile_preflight_add_Inr:
  assumes "profile_preflight_add p bucket q fresh = Inr ()"
  shows "in_i128 (pb_total_volume_units p + q)"
    and "in_i128 (unwrap_or (bt_get (pb_volume_by_level p) bucket) 0 + q)"
    and "bt_get (pb_volume_by_level p) bucket = None \<Longrightarrow> length (pb_volume_by_level p) < pc_max_levels (pb_config p)"
    and "\<not> fresh \<Longrightarrow> bt_get (pb_current_tpo_levels p) bucket = None \<Longrightarrow>
      length (pb_current_tpo_levels p) < pc_max_tpo_levels_per_period (pb_config p)"
  using assms by (auto simp: profile_preflight_add_def Let_def result_iffs split: if_splits)

lemma profile_apply_add_ok:
  assumes "in_i128 (pb_total_volume_units p + q)"
    and "in_i128 (unwrap_or (bt_get (pb_volume_by_level p) bucket) 0 + q)"
  shows "fst (profile_apply_add p bucket price q) = Inr ()"
  using assms by (simp add: profile_apply_add_def Let_def checked_defs)

lemma preflight_close_Inr:
  assumes "preflight_close_current_tpo p = Inr ()"
  shows "\<forall>b \<in> set (pb_current_tpo_levels p). unwrap_or (bt_get (pb_tpo_by_level p) (fst b)) 0 + 1 < 2 ^ 64"
    and "in_i32 (pb_rotation_factor p + rotation_delta p)"
proof -
  obtain ys where "list_all2 (\<lambda>x y. (case x of (b, _) \<Rightarrow>
      ok_or (checked_uint 64 (unwrap_or (bt_get (pb_tpo_by_level p) b) 0 + 1)) (ArithmeticOverflow ''adding a TPO count'')) = Inr y)
      (pb_current_tpo_levels p) ys" and "in_i32 (pb_rotation_factor p + rotation_delta p)"
    using assms by (auto simp: preflight_close_current_tpo_def and_then_Inr_iff map_ok_Inr_iff ok_or_Inr_iff
        try_map_Inr_iff checked_i32_Some_iff)
  then show "\<forall>b \<in> set (pb_current_tpo_levels p). unwrap_or (bt_get (pb_tpo_by_level p) (fst b)) 0 + 1 < 2 ^ 64"
    and "in_i32 (pb_rotation_factor p + rotation_delta p)"
    by (force simp: list_all2_conv_all_nth in_set_conv_nth result_iffs split: prod.splits)+
qed

text \<open>The preflight of a close covers every failure of the close.\<close>

lemma close_tpo_error:
  assumes ok: "bt_ok (pb_current_tpo_levels p)" and run: "close_tpo p = (Inl e, p')"
  shows "p' = p"
proof (rule ccontr)
  assume "p' \<noteq> p"
  then have pre: "preflight_close_current_tpo p = Inr ()" and run: "apply_close_current_tpo p = (Inl e, p')"
    using run by (auto simp: close_tpo_def split: sum.splits)
  have "fst (count_tpo_levels (pb_current_tpo_levels p) (pb_tpo_by_level p)) = Inr ()"
    using preflight_close_Inr(1) [OF pre] bt_ok_distinct [OF ok] by (rule count_tpo_levels_ok)
  then obtain tpo where "count_tpo_levels (pb_current_tpo_levels p) (pb_tpo_by_level p) = (Inr (), tpo)"
    by (metis prod.collapse)
  then show False
    using run preflight_close_Inr(2) [OF pre]
    by (auto simp: apply_close_current_tpo_def Let_def checked_defs split: if_splits)
qed

lemma close_tpo_frame:
  assumes "close_tpo p = (Inr (), p')"
  shows "pb_total_volume_units p' = pb_total_volume_units p \<and> pb_volume_by_level p' = pb_volume_by_level p \<and>
    pb_grid p' = pb_grid p \<and> pb_time p' = pb_time p \<and> pb_config p' = pb_config p \<and>
    pb_session_start p' = pb_session_start p \<and> pb_current_tpo_start p' = pb_current_tpo_start p \<and>
    pb_current_tpo_levels p' = [] \<and> pb_last_timestamp_ns p' = pb_last_timestamp_ns p"
  using assms
  by (auto simp: close_tpo_def apply_close_current_tpo_def Let_def split: sum.splits prod.splits if_splits)

lemma open_with_trade_error:
  assumes "open_with_trade p ts bucket price q session tpo = (Inl e, p')"
  shows "p' = p"
proof (rule ccontr)
  assume "p' \<noteq> p"
  then have pre: "profile_preflight_add p bucket q True = Inr ()"
    and bad: "\<exists>r. profile_apply_add (start_session p session tpo) bucket price q = (Inl e, r)"
    using assms by (auto simp: open_with_trade_def sthen_Inl_iff split: sum.splits)
  have "fst (profile_apply_add (start_session p session tpo) bucket price q) = Inr ()"
    using profile_preflight_add_Inr(1,2) [OF pre]
    by (intro profile_apply_add_ok) (simp_all add: start_session_def)
  with bad show False by auto
qed

lemma same_session_error:
  assumes ok: "bt_ok (pb_current_tpo_levels p)" and run: "same_session p ts bucket price q c t = (Inl e, p')"
  shows "p' = p"
proof (rule ccontr)
  assume "p' \<noteq> p"
  then have pre: "profile_preflight_add p bucket q (t \<noteq> c) = Inr ()"
    using run by (auto simp: same_session_def split: sum.splits)
  have adds: "fst (profile_apply_add p1 bucket price q) = Inr ()"
    if "pb_total_volume_units p1 = pb_total_volume_units p" "pb_volume_by_level p1 = pb_volume_by_level p" for p1
    using profile_preflight_add_Inr(1,2) [OF pre] that by (intro profile_apply_add_ok) simp_all
  have no_error: "profile_apply_add p1 bucket price q \<noteq> (Inl e, r)"
    if "pb_total_volume_units p1 = pb_total_volume_units p" "pb_volume_by_level p1 = pb_volume_by_level p" for p1 r
    using adds [OF that] by auto
  show False
    using run pre \<open>p' \<noteq> p\<close> close_tpo_error [OF ok] no_error
    by (auto simp: same_session_def sthen_Inl_iff sthen_Inr_iff dest!: close_tpo_frame split: if_splits)
qed

lemma profile_ingest_error:
  assumes ok: "bt_ok (pb_current_tpo_levels p)" and run: "profile_ingest p ts price q = (Inl e, p')"
  shows "p' = p"
proof (cases "profile_inputs p ts price q")
  case (Inl d)
  with run show ?thesis by (simp add: profile_ingest_def)
next
  case (Inr v)
  obtain bucket price' q' session tpo where v: "v = (bucket, price', q', session, tpo)" by (cases v)
  note run = run [unfolded profile_ingest_def Inr v sum.case prod.case]
  show ?thesis
  proof (cases "pb_session_start p")
    case None
    with run show ?thesis
      by (cases "open_with_trade p ts bucket price' q' session tpo")
        (auto simp: map_ok_Inl_iff dest: open_with_trade_error)
  next
    case (Some s)
    with run ok show ?thesis
      by (auto split: if_splits sum.splits option.splits dest: same_session_error)
  qed
qed

section \<open>Reachable builders\<close>

text \<open>The buckets of each TPO period of a session, in order.\<close>

definition periods :: "profile_add list \<Rightarrow> price_bucket list list" where
  "periods as = map (\<lambda>t. map pa_bucket (filter (\<lambda>a. pa_tpo a = t) as)) (remdups_adj (map pa_tpo as))"

lemma periods_Nil [simp]: "periods [] = []"
  by (simp add: periods_def)

lemma periods_append:
  assumes old: "\<forall>a \<in> set d. pa_tpo a < t" and new: "\<forall>a \<in> set c. pa_tpo a = t"
  shows "periods (d @ c) = (if c = [] then periods d else periods d @ [map pa_bucket c])"
proof (cases "c = []")
  case False
  have c: "map pa_tpo c = replicate (length c) t" using new by (simp add: map_eq_conv flip: map_replicate_const)
  have last: "d = [] \<or> pa_tpo (last d) \<noteq> t" using old by (metis last_in_set less_irrefl)
  have "remdups_adj (map pa_tpo (d @ c)) = remdups_adj (map pa_tpo d) @ [t]"
  proof (cases "d = []")
    case False
    then have "dropWhile (\<lambda>y. y = last (map pa_tpo d)) (map pa_tpo c) = map pa_tpo c"
      using last \<open>c \<noteq> []\<close> by (cases "length c") (auto simp: c last_map)
    then show ?thesis using False \<open>c \<noteq> []\<close> by (simp add: remdups_adj_append'' c remdups_adj_replicate)
  qed (use False in \<open>simp add: c remdups_adj_replicate\<close>)
  moreover have "filter (\<lambda>a. pa_tpo a = t) d = []" "filter (\<lambda>a. pa_tpo a = t) c = c"
    using old new by (auto simp: filter_empty_conv)
  moreover have "filter (\<lambda>a. pa_tpo a = s) c = []" if "s \<in> set (map pa_tpo d)" for s
    using old new that by (auto simp: filter_empty_conv)
  ultimately show ?thesis using False by (auto simp: periods_def)
qed simp

definition profile_normalise ::
    "session_profile_builder \<Rightarrow> i64 \<Rightarrow> price \<Rightarrow> quantity \<Rightarrow> analytics_error + profile_add" where
  "profile_normalise p ts price q =
     and_then (price_bucket_of (pb_grid p) price) (\<lambda>bucket. and_then (price_tick_of (pb_grid p) price) (\<lambda>tick.
     and_then (price_at_tick (pb_grid p) tick) (\<lambda>price. and_then (quantity_units_of (pb_grid p) q) (\<lambda>q.
     and_then (checked_tpo_start (pb_time p) ts) (\<lambda>tpo.
     Inr \<lparr>pa_bucket = bucket, pa_price = price, pa_units = q, pa_tpo = tpo\<rparr>)))))"

text \<open>
  \<open>profile_reach as p\<close>: calls lead from a new builder to \<open>p\<close>, and \<open>as\<close> are the trades accepted since the
  session opened.  A trade may be refused; \<^verbatim>\<open>advance_to\<close> and \<^verbatim>\<open>finish\<close> calls are those that return
  \<^verbatim>\<open>Ok\<close>, since one that fails while publishing leaves its period closed.
\<close>

inductive profile_reach :: "profile_add list \<Rightarrow> session_profile_builder \<Rightarrow> bool" where
  begin_profile: "profile_new g tf c = Inr p \<Longrightarrow> profile_reach [] p"
| traded: "profile_reach as p \<Longrightarrow> profile_ingest p ts price q = (Inr None, p') \<Longrightarrow> fixed_ok (quantity_fixed q) \<Longrightarrow>
    profile_normalise p ts price q = Inr a \<Longrightarrow> profile_reach (as @ [a]) p'"
| new_session: "profile_reach as p \<Longrightarrow> profile_ingest p ts price q = (Inr (Some sp), p') \<Longrightarrow> fixed_ok (quantity_fixed q) \<Longrightarrow>
    profile_normalise p ts price q = Inr a \<Longrightarrow> profile_reach [a] p'"
| trade_refused: "profile_reach as p \<Longrightarrow> profile_ingest p ts price q = (Inl e, p') \<Longrightarrow> profile_reach as p'"
| time_passed: "profile_reach as p \<Longrightarrow> profile_advance_to p ts = (Inr None, p') \<Longrightarrow> profile_reach as p'"
| session_closed: "profile_reach as p \<Longrightarrow> profile_advance_to p ts = (Inr (Some sp), p') \<Longrightarrow> profile_reach [] p'"
| profile_finished: "profile_reach as p \<Longrightarrow> profile_finish p = (Inr r, p') \<Longrightarrow> profile_reach [] p'"

definition profile_capacity :: "session_profile_builder \<Rightarrow> bool" where
  "profile_capacity p \<longleftrightarrow>
     length (pb_volume_by_level p) \<le> pc_max_levels (pb_config p) \<and>
     length (pb_current_tpo_levels p) \<le> pc_max_tpo_levels_per_period (pb_config p)"

definition profile_inv :: "profile_add list \<Rightarrow> session_profile_builder \<Rightarrow> bool" where
  "profile_inv as p \<longleftrightarrow>
     grid_validate (pb_grid p) = Inr () \<and> profile_config_validate (pb_config p) = Inr () \<and> profile_capacity p \<and>
     (\<forall>a \<in> set as. 0 < pa_units a \<and> 0 \<le> pa_bucket a) \<and>
     (\<exists>d c. as = d @ c \<and> profile_rep as (periods d) (map pa_bucket c) p \<and>
       (if pb_session_start p = None then as = [] \<and> pb_current_tpo_start p = None
        else \<exists>t. pb_current_tpo_start p = Some t \<and> (\<forall>a \<in> set d. pa_tpo a < t) \<and> (\<forall>a \<in> set c. pa_tpo a = t)))"

lemma profile_rep_frame [simp]:
  "profile_rep as past cur (p\<lparr>pb_last_timestamp_ns := x\<rparr>) = profile_rep as past cur p"
  "profile_rep as past cur (p\<lparr>pb_current_tpo_start := y\<rparr>) = profile_rep as past cur p"
  "profile_rep as past cur (start_session p s t) = profile_rep as past cur p"
  by (simp_all add: profile_rep_def start_session_def)

lemma profile_inv_new: "profile_new g tf c = Inr p \<Longrightarrow> profile_inv [] p"
  by (auto simp: profile_new_def result_iffs profile_inv_def profile_rep_def profile_capacity_def bucket_volume_def
      periods_with_def max_of_def min_of_def highest_def lowest_def)

lemma profile_config_validate_Inr:
  "profile_config_validate c = Inr () \<Longrightarrow> 1 \<le> pc_max_tpo_levels_per_period c \<and> pc_value_area_bps c \<le> 10000"
  by (auto simp: profile_config_validate_def profile_config_new_def result_iffs split: if_splits)

lemma profile_apply_add_frame:
  assumes "profile_apply_add p bucket price q = (Inr (), p')"
  shows "pb_grid p' = pb_grid p \<and> pb_time p' = pb_time p \<and> pb_config p' = pb_config p \<and>
    pb_session_start p' = pb_session_start p \<and> pb_current_tpo_start p' = pb_current_tpo_start p \<and>
    (\<exists>v. pb_volume_by_level p' = bt_insert bucket v (pb_volume_by_level p)) \<and>
    pb_current_tpo_levels p' = bt_insert bucket () (pb_current_tpo_levels p)"
  using assms by (auto simp: profile_apply_add_def Let_def split: sum.splits)

text \<open>Adding a checked trade to a builder whose open period is the trade's.\<close>

lemma profile_add_inv:
  assumes inv: "profile_inv as p" and active: "pb_session_start p \<noteq> None \<and> pb_current_tpo_start p = Some (pa_tpo a)"
    and run: "profile_apply_add p (pa_bucket a) (pa_price a) (pa_units a) = (Inr (), p')"
    and cap: "bt_get (pb_volume_by_level p) (pa_bucket a) = None \<longrightarrow> length (pb_volume_by_level p) < pc_max_levels (pb_config p)"
      "bt_get (pb_current_tpo_levels p) (pa_bucket a) = None \<longrightarrow>
        length (pb_current_tpo_levels p) < pc_max_tpo_levels_per_period (pb_config p)"
    and ok: "0 < pa_units a" "0 \<le> pa_bucket a"
  shows "profile_inv (as @ [a]) (p'\<lparr>pb_last_timestamp_ns := ts\<rparr>)"
proof -
  obtain d c where dc: "as = d @ c" "profile_rep as (periods d) (map pa_bucket c) p"
    "\<forall>x \<in> set d. pa_tpo x < pa_tpo a" "\<forall>x \<in> set c. pa_tpo x = pa_tpo a"
    using inv active by (auto simp: profile_inv_def)
  note frame = profile_apply_add_frame [OF run]
  have rep: "profile_rep (as @ [a]) (periods d) (map pa_bucket (c @ [a])) p'"
    using profile_apply_add_rep [OF dc(2) run] by simp
  have bt: "bt_ok (pb_volume_by_level p)" "bt_ok (pb_current_tpo_levels p)" using dc(2) by (simp_all add: profile_rep_def)
  obtain v where v: "pb_volume_by_level p' = bt_insert (pa_bucket a) v (pb_volume_by_level p)" using frame by blast
  have "profile_capacity p'"
    using inv cap frame
    by (auto simp: profile_inv_def profile_capacity_def v length_bt_insert [OF bt(1)] length_bt_insert [OF bt(2)])
  moreover have "\<exists>e f. as @ [a] = e @ f \<and> profile_rep (as @ [a]) (periods e) (map pa_bucket f) p' \<and>
      (\<forall>x \<in> set e. pa_tpo x < pa_tpo a) \<and> (\<forall>x \<in> set f. pa_tpo x = pa_tpo a)"
    using dc rep by (intro exI [of _ d] exI [of _ "c @ [a]"]) simp
  ultimately show ?thesis
    using inv active ok frame by (auto simp: profile_inv_def profile_capacity_def)
qed

lemma close_tpo_inv:
  assumes inv: "profile_inv as p" and active: "pb_session_start p \<noteq> None" "pb_current_tpo_start p = Some s" and "s < t"
    and run: "close_tpo p = (Inr (), p')"
  shows "profile_inv as (p'\<lparr>pb_current_tpo_start := Some t\<rparr>)"
proof -
  obtain d c where dc: "as = d @ c" "profile_rep as (periods d) (map pa_bucket c) p"
    "\<forall>x \<in> set d. pa_tpo x < s" "\<forall>x \<in> set c. pa_tpo x = s"
    using inv active by (auto simp: profile_inv_def)
  have "profile_rep as (periods (d @ c)) [] p'"
    using close_tpo_rep [OF dc(2) run] unfolding periods_append [OF dc(3,4)] by simp
  then have "\<exists>e f. as = e @ f \<and> profile_rep as (periods e) (map pa_bucket f) p' \<and>
      (\<forall>x \<in> set e. pa_tpo x < t) \<and> (\<forall>x \<in> set f. pa_tpo x = t)"
    using dc \<open>s < t\<close> by (intro exI [of _ "d @ c"] exI [of _ "[]"]) auto
  then show ?thesis
    using inv active close_tpo_frame [OF run] by (auto simp: profile_inv_def profile_capacity_def)
qed

lemma profile_inputs_Inr:
  assumes run: "profile_inputs p ts price q = Inr (bucket, price', q', session, tpo)"
    and inv: "profile_inv as p" and q: "fixed_ok (quantity_fixed q)"
  shows "profile_normalise p ts price q = Inr \<lparr>pa_bucket = bucket, pa_price = price', pa_units = q', pa_tpo = tpo\<rparr>"
    and "0 < q'" and "0 \<le> bucket"
proof -
  show "profile_normalise p ts price q = Inr \<lparr>pa_bucket = bucket, pa_price = price', pa_units = q', pa_tpo = tpo\<rparr>"
    using run by (auto simp: profile_inputs_def profile_normalise_def result_iffs)
  show "0 < q'" using run q quantity_units_of_Inr(1) by (auto simp: profile_inputs_def result_iffs)
  have "grid_validate (pb_grid p) = Inr ()" using inv by (simp add: profile_inv_def)
  note grid = grid_validate_Inr [OF this]
  have "price_bucket_of (pb_grid p) price = Inr bucket" using run by (auto simp: profile_inputs_def result_iffs)
  from price_bucket_of_Inr [OF this grid(2)] obtain t where
    t: "price_tick_of (pb_grid p) price = Inr t" "bucket = t div int (g_levels_per_bucket (pb_grid p))" by blast
  then have "0 < t" using price_tick_of_Inr [OF t(1) grid(1)] by blast
  then show "0 \<le> bucket" using t(2) grid(2) by (simp add: pos_imp_zdiv_nonneg_iff)
qed

lemma profile_rep_no_levels: "profile_rep as past [] p \<Longrightarrow> pb_current_tpo_levels p = []"
  by (cases "pb_current_tpo_levels p") (auto simp: profile_rep_def bt_get_None_iff dest: spec [of _ "fst (hd (pb_current_tpo_levels p))"])

lemma open_with_trade_inv:
  assumes inv: "profile_inv [] p"
    and run: "open_with_trade p ts bucket price q s tpo = (Inr (), p')" and ok: "0 < q" "0 \<le> bucket"
  shows "profile_inv [\<lparr>pa_bucket = bucket, pa_price = price, pa_units = q, pa_tpo = tpo\<rparr>] p'"
proof -
  let ?a = "\<lparr>pa_bucket = bucket, pa_price = price, pa_units = q, pa_tpo = tpo\<rparr>" and ?p = "start_session p s tpo"
  obtain r where pre: "profile_preflight_add p bucket q True = Inr ()"
    and r: "profile_apply_add ?p bucket price q = (Inr (), r)" "p' = r\<lparr>pb_last_timestamp_ns := Some ts\<rparr>"
    using run by (auto simp: open_with_trade_def sthen_Inr_iff split: sum.splits)
  have rep: "profile_rep [] [] [] p" and conf: "profile_config_validate (pb_config p) = Inr ()"
    using inv by (auto simp: profile_inv_def)
  have start: "profile_inv [] ?p"
    using inv by (auto simp: profile_inv_def profile_capacity_def) (simp_all add: start_session_def)
  have levels: "pb_current_tpo_levels ?p = []" using profile_rep_no_levels [OF rep] by (simp add: start_session_def)
  show ?thesis
    using profile_add_inv [OF start, of ?a r "Some ts"] r ok profile_preflight_add_Inr(3) [OF pre] levels
      profile_config_validate_Inr [OF conf]
    by (simp add: start_session_def)
qed

lemma same_session_inv:
  assumes inv: "profile_inv as p" and active: "pb_session_start p \<noteq> None" "pb_current_tpo_start p = Some c" and "\<not> tpo < c"
    and run: "same_session p ts bucket price q c tpo = (Inr r, p')" and ok: "0 < q" "0 \<le> bucket"
  shows "r = None \<and> profile_inv (as @ [\<lparr>pa_bucket = bucket, pa_price = price, pa_units = q, pa_tpo = tpo\<rparr>]) p'"
proof -
  let ?a = "\<lparr>pa_bucket = bucket, pa_price = price, pa_units = q, pa_tpo = tpo\<rparr>"
  have pre: "profile_preflight_add p bucket q (tpo \<noteq> c) = Inr ()"
    using run by (auto simp: same_session_def split: sum.splits)
  note cap = profile_preflight_add_Inr(3,4) [OF pre]
  have conf: "profile_config_validate (pb_config p) = Inr ()" using inv by (simp add: profile_inv_def)
  show ?thesis
  proof (cases "tpo = c")
    case True
    then obtain p1 where "profile_apply_add p bucket price q = (Inr (), p1)"
      "r = None" "p' = p1\<lparr>pb_last_timestamp_ns := Some ts\<rparr>"
      using run pre by (auto simp: same_session_def sthen_Inr_iff)
    with profile_add_inv [OF inv, of ?a p1 "Some ts"] True active ok cap show ?thesis by simp
  next
    case False
    then have "c < tpo" using \<open>\<not> tpo < c\<close> by simp
    then obtain p1 p2 where p1: "close_tpo p = (Inr (), p1)"
      and p2: "profile_apply_add (p1\<lparr>pb_current_tpo_start := Some tpo\<rparr>) bucket price q = (Inr (), p2)"
      "r = None" "p' = p2\<lparr>pb_last_timestamp_ns := Some ts\<rparr>"
      using run pre by (auto simp: same_session_def sthen_Inr_iff)
    have "profile_inv as (p1\<lparr>pb_current_tpo_start := Some tpo\<rparr>)"
      using inv active \<open>c < tpo\<close> p1 by (rule close_tpo_inv)
    from profile_add_inv [OF this, of ?a p2 "Some ts"] p2 close_tpo_frame [OF p1] active ok cap(1)
      profile_config_validate_Inr [OF conf]
    show ?thesis by simp
  qed
qed

lemma profile_ingest_inv:
  assumes inv: "profile_inv as p" and run: "profile_ingest p ts price q = (Inr r, p')"
    and q: "fixed_ok (quantity_fixed q)" and a: "profile_normalise p ts price q = Inr a"
  shows "profile_inv (if r = None then as @ [a] else [a]) p'"
proof -
  obtain bucket price' q' session tpo where inputs: "profile_inputs p ts price q = Inr (bucket, price', q', session, tpo)"
    using run by (cases "profile_inputs p ts price q") (auto simp: profile_ingest_def)
  note in' = profile_inputs_Inr [OF inputs inv q]
  have a: "a = \<lparr>pa_bucket = bucket, pa_price = price', pa_units = q', pa_tpo = tpo\<rparr>" using a in'(1) by simp
  note run = run [unfolded profile_ingest_def inputs sum.case prod.case]
  show ?thesis
  proof (cases "pb_session_start p")
    case None
    then have "as = []" using inv by (auto simp: profile_inv_def)
    moreover have "r = None \<and> open_with_trade p ts bucket price' q' session tpo = (Inr (), p')"
      using run None by (cases "open_with_trade p ts bucket price' q' session tpo") (auto simp: map_ok_Inr_iff)
    ultimately show ?thesis using open_with_trade_inv [of p ts bucket price' q' session tpo p'] inv in' by (simp add: a)
  next
    case (Some s)
    obtain c where c: "pb_current_tpo_start p = Some c" using inv Some by (auto simp: profile_inv_def)
    show ?thesis
    proof (cases "s < session")
      case True
      with run Some obtain sp n where r: "r = Some sp" and n: "profile_new (pb_grid p) (pb_time p) (pb_config p) = Inr n"
        and "open_with_trade n ts bucket price' q' session tpo = (Inr (), p')"
        by (auto split: sum.splits prod.splits dest!: replaced_Inr)
      with open_with_trade_inv [OF profile_inv_new [OF n]] in' show ?thesis by (simp add: a)
    next
      case False
      then have "same_session p ts bucket price' q' c tpo = (Inr r, p')" "\<not> tpo < c"
        using run Some c by (auto split: if_splits)
      with same_session_inv [OF inv _ c] Some in' show ?thesis by (simp add: a)
    qed
  qed
qed

lemma profile_inv_timestamp [simp]: "profile_inv as (p\<lparr>pb_last_timestamp_ns := x\<rparr>) = profile_inv as p"
  by (simp add: profile_inv_def profile_capacity_def cong: if_cong)

lemma profile_clear_active_inv:
  "grid_validate (pb_grid p) = Inr () \<Longrightarrow> profile_config_validate (pb_config p) = Inr () \<Longrightarrow>
     profile_inv [] (profile_clear_active p)"
  by (auto simp: profile_inv_def profile_clear_active_def profile_rep_def profile_capacity_def bucket_volume_def
      periods_with_def max_of_def min_of_def highest_def lowest_def)

lemma closed_clear_inv:
  assumes "profile_inv as p" and "close_tpo p = (Inr (), p')"
  shows "profile_inv [] (profile_clear_active p')"
  using assms close_tpo_frame [OF assms(2)] by (intro profile_clear_active_inv) (simp_all add: profile_inv_def)

lemma published_Inr:
  assumes "sthen (close_tpo p) (\<lambda>_ p'. case f p' of Inl e \<Rightarrow> (Inl e, p') | Inr x \<Rightarrow> (Inr (Some x), g p')) = (Inr r, q)"
  shows "\<exists>p1 x. close_tpo p = (Inr (), p1) \<and> f p1 = Inr x \<and> r = Some x \<and> q = g p1"
proof -
  obtain p1 where p1: "close_tpo p = (Inr (), p1)"
    and "(case f p1 of Inl e \<Rightarrow> (Inl e, p1) | Inr x \<Rightarrow> (Inr (Some x), g p1)) = (Inr r, q)"
    using assms by (auto simp: sthen_Inr_iff)
  then show ?thesis by (cases "f p1") auto
qed

lemma profile_advance_to_inv:
  assumes inv: "profile_inv as p" and run: "profile_advance_to p ts = (Inr r, p')"
  shows "profile_inv (if r = None then as else []) p'"
proof (cases "pb_session_start p")
  case None
  with run inv show ?thesis by (auto simp: profile_advance_to_def split: sum.splits)
next
  case (Some s)
  obtain c where c: "pb_current_tpo_start p = Some c" using inv Some by (auto simp: profile_inv_def)
  have step: "profile_inv as (p1\<lparr>pb_current_tpo_start := Some t\<rparr>)" if "close_tpo p = (Inr (), p1)" "c < t" for p1 t
    using close_tpo_inv [OF inv _ c that(2,1)] Some by simp
  obtain e where e: "ok_or (checked_i64 (s + tf_session_ns (pb_time p))) (ArithmeticOverflow ''calculating session end'') = Inr e"
    using run by (auto simp: profile_advance_to_def Some split: sum.splits)
  show ?thesis
  proof (cases "e \<le> ts")
    case True
    with run Some e have "\<exists>p1 x. close_tpo p = (Inr (), p1) \<and> r = Some x \<and>
        p' = (profile_clear_active p1)\<lparr>pb_last_timestamp_ns := Some ts\<rparr>"
      by (auto simp: profile_advance_to_def split: sum.splits dest!: published_Inr)
    then show ?thesis using closed_clear_inv [OF inv] by auto
  next
    case False
    then show ?thesis using run inv
      by (auto simp: profile_advance_to_def Some c e sthen_Inr_iff and_then_Inr_iff step split: sum.splits if_splits)
  qed
qed

lemma profile_reach_inv: "profile_reach as p \<Longrightarrow> profile_inv as p"
proof (induction rule: profile_reach.induct)
  case (begin_profile g tf c p)
  then show ?case by (rule profile_inv_new)
next
  case (traded as p ts price q p' a)
  from profile_ingest_inv [OF traded(5,2,3,4)] show ?case by simp
next
  case (new_session as p ts price q sp p' a)
  from profile_ingest_inv [OF new_session(5,2,3,4)] show ?case by simp
next
  case (trade_refused as p ts price q e p')
  then have "p' = p" by (auto simp: profile_inv_def profile_rep_def intro: profile_ingest_error)
  with trade_refused show ?case by simp
next
  case (time_passed as p ts p')
  from profile_advance_to_inv [OF time_passed(3,2)] show ?case by simp
next
  case (session_closed as p ts sp p')
  from profile_advance_to_inv [OF session_closed(3,2)] show ?case by simp
next
  case (profile_finished as p r p')
  show ?case
  proof (cases "pb_session_start p")
    case None
    then have "as = []" using profile_finished(3) by (auto simp: profile_inv_def)
    with None profile_finished show ?thesis by (simp add: profile_finish_def)
  next
    case (Some s)
    with profile_finished(2) obtain p1 where "close_tpo p = (Inr (), p1)" "p' = profile_clear_active p1"
      by (auto simp: profile_finish_def dest!: published_Inr)
    then show ?thesis using closed_clear_inv [OF profile_finished(3)] by simp
  qed
qed

section \<open>What is published\<close>

text \<open>A closed copy of a reachable builder counts the trades of the session in all its periods.\<close>

lemma closed_rep:
  assumes inv: "profile_inv as p" and active: "pb_session_start p \<noteq> None" and run: "close_tpo p = (Inr (), p')"
  shows "profile_rep as (periods as) [] p'"
proof -
  obtain d c t where dc: "as = d @ c" "profile_rep as (periods d) (map pa_bucket c) p"
    "\<forall>x \<in> set d. pa_tpo x < t" "\<forall>x \<in> set c. pa_tpo x = t"
    using inv active by (auto simp: profile_inv_def)
  from close_tpo_rep [OF dc(2) run] show ?thesis unfolding dc(1) periods_append [OF dc(3,4)] by simp
qed

definition level_volume :: "profile_add list \<Rightarrow> price_bucket \<Rightarrow> int" where
  "level_volume as k = (\<Sum>a\<leftarrow>filter (\<lambda>a. pa_bucket a = k) as. pa_units a)"

definition level_matches :: "grid_spec \<Rightarrow> profile_add list \<Rightarrow> price_bucket \<Rightarrow> profile_level \<Rightarrow> bool" where
  "level_matches g as k l \<longleftrightarrow> price_at g k = Inr (pf_price l) \<and> lots (pf_volume l) = level_volume as k \<and>
     pf_tpo_count l = periods_with (periods as) k"

lemma profile_keys: "profile_rep as past cur p \<Longrightarrow> fst ` set (pb_volume_by_level p) = pa_bucket ` set as"
  by (auto simp: profile_rep_def bucket_volume_def bt_get_None_iff split: if_splits)
    (metis (no_types, lifting) bt_get_None_iff fst_conv image_eqI option.distinct(1))+

definition traded_activity :: "profile_add list \<Rightarrow> value_area_basis \<Rightarrow> price_bucket \<Rightarrow> int" where
  "traded_activity as basis k =
     (case basis of VolumeBasis \<Rightarrow> level_volume as k | TpoBasis \<Rightarrow> int (periods_with (periods as) k))"

lemma level_volume_absent: "k \<notin> pa_bucket ` set as \<Longrightarrow> level_volume as k = 0"
proof -
  assume "k \<notin> pa_bucket ` set as"
  then have "filter (\<lambda>a. pa_bucket a = k) as = []" by (auto simp: filter_empty_conv)
  then show ?thesis by (simp add: level_volume_def)
qed

lemma profile_repD:
  assumes "profile_rep as past cur p"
  shows "bt_ok (pb_volume_by_level p)"
    and "bt_get (pb_volume_by_level p) k = (if k \<in> pa_bucket ` set as then Some (level_volume as k) else None)"
    and "bt_get (pb_tpo_by_level p) k = (if periods_with past k = 0 then None else Some (periods_with past k))"
    and "pb_total_volume_units p = (\<Sum>a\<leftarrow>as. pa_units a)" and "pb_rotation_factor p = rotation_of past"
    and "highest (map pa_price as) (pb_session_high p)" and "lowest (map pa_price as) (pb_session_low p)"
  using assms by (simp_all add: profile_rep_def bucket_volume_def level_volume_def)

lemma activity_eq: "profile_rep as (periods as) cur p \<Longrightarrow> activity p basis k = traded_activity as basis k"
  by (cases basis) (simp_all add: profile_repD(2,3) traded_activity_def level_volume_absent)

lemma level_volume_nonneg: "\<forall>a \<in> set as. 0 < pa_units a \<Longrightarrow> 0 \<le> level_volume as k"
  unfolding level_volume_def by (intro sum_list_map_nonneg) auto

text \<open>Strictly ascending lists: first and last are the extremes, and sums range over the set.\<close>

lemma strict_sorted_facts:
  assumes "sorted_wrt (<) (ks :: int list)"
  shows "ks \<noteq> [] \<Longrightarrow> hd ks = Min (set ks)" and "ks \<noteq> [] \<Longrightarrow> last ks = Max (set ks)"
    and "(\<Sum>k\<leftarrow>ks. f k) = (\<Sum>k \<in> set ks. f k)"
proof -
  have dist: "distinct ks" and sorted: "sorted ks"
    using assms by (simp_all add: strict_sorted_iff)
  show "hd ks = Min (set ks)" if "ks \<noteq> []"
    using that sorted by (cases ks) (auto intro!: Min_eqI [symmetric])
  show "last ks = Max (set ks)" if "ks \<noteq> []"
    using that sorted by (cases ks rule: rev_cases) (auto simp: sorted_append intro!: Max_eqI [symmetric])
  show "(\<Sum>k\<leftarrow>ks. f k) = (\<Sum>k \<in> set ks. f k)" by (rule sum_list_distinct_conv_sum_set [OF dist])
qed

lemma profile_level_snapshot_Inr:
  assumes rep: "profile_rep as (periods as) [] p" and run: "profile_level_snapshot p x = Inr l"
    and x: "x \<in> set (pb_volume_by_level p)"
  shows "level_matches (pb_grid p) as (fst x) l"
proof -
  have "bt_get (pb_volume_by_level p) (fst x) = Some (snd x)"
    using x by (subst bt_get_Some_iff [OF profile_repD(1) [OF rep]]) simp
  then have "snd x = level_volume as (fst x)"
    unfolding profile_repD(2) [OF rep] by (simp split: if_splits)
  then show ?thesis
    using run profile_repD(3) [OF rep]
    by (auto simp: profile_level_snapshot_def level_matches_def result_iffs split: prod.splits dest!: quantity_at_Inr)
qed

lemma profile_snapshot_levels:
  assumes rep: "profile_rep as (periods as) [] p" and run: "profile_snapshot p st basis = Inr sp"
  shows "lots (sp_total_volume sp) = (\<Sum>a\<leftarrow>as. pa_units a) \<and> sp_rotation_factor sp = rotation_of (periods as) \<and>
    highest (map pa_price as) (sp_high sp) \<and> lowest (map pa_price as) (sp_low sp) \<and>
    list_all2 (level_matches (pb_grid p) as) (sorted_list_of_set (pa_bucket ` set as)) (sp_levels sp)"
proof -
  have all: "list_all2 (\<lambda>x y. profile_level_snapshot p x = Inr y) (pb_volume_by_level p) (sp_levels sp)"
    and sp: "lots (sp_total_volume sp) = pb_total_volume_units p" "sp_rotation_factor sp = pb_rotation_factor p"
      "sp_high sp = pb_session_high p" "sp_low sp = pb_session_low p"
    using run by (auto simp: profile_snapshot_def result_iffs try_map_Inr_iff split: prod.splits dest!: quantity_at_Inr)
  have "list_all2 (\<lambda>x y. level_matches (pb_grid p) as (fst x) y) (pb_volume_by_level p) (sp_levels sp)"
    using all by (rule list.rel_mono_strong) (auto intro: profile_level_snapshot_Inr [OF rep])
  then have "list_all2 (level_matches (pb_grid p) as) (map fst (pb_volume_by_level p)) (sp_levels sp)"
    by (simp add: list_all2_map1)
  moreover have "map fst (pb_volume_by_level p) = sorted_list_of_set (pa_bucket ` set as)"
    using rep profile_keys [OF rep] by (intro sorted_distinct_set_unique)
      (auto simp: profile_rep_def bt_ok_def strict_sorted_iff)
  ultimately show ?thesis using profile_repD(4-7) [OF rep] sp by simp
qed

section \<open>The profile's contract\<close>

definition sample_profile :: session_profile_builder where
  "sample_profile =
     \<lparr>pb_grid = fb_grid sample_flow_builder, pb_time = fb_time sample_flow_builder,
      pb_config = \<lparr>pc_basis = VolumeBasis, pc_value_area_bps = 7000, pc_max_levels = 5, pc_max_tpo_levels_per_period = 5\<rparr>,
      pb_session_start = None, pb_current_tpo_start = None, pb_last_timestamp_ns = None,
      pb_session_high = None, pb_session_low = None, pb_volume_by_level = [], pb_tpo_by_level = [],
      pb_total_volume_units = 0, pb_current_tpo_levels = [], pb_current_tpo_high = None, pb_current_tpo_low = None,
      pb_previous_tpo_high = None, pb_previous_tpo_low = None, pb_rotation_factor = 0\<rparr>"

definition sample_profile_adds :: "profile_add list" where
  "sample_profile_adds =
     [\<lparr>pa_bucket = 2, pa_price = Price \<lparr>coefficient = 25, scale = 0\<rparr>, pa_units = 4, pa_tpo = 0\<rparr>,
      \<lparr>pa_bucket = 1, pa_price = Price \<lparr>coefficient = 15, scale = 0\<rparr>, pa_units = 3, pa_tpo = 120\<rparr>]"

text \<open>The builder after the first and after both of these trades.\<close>

definition sample_profile_one :: session_profile_builder where
  "sample_profile_one =
     sample_profile\<lparr>pb_session_start := Some 0, pb_current_tpo_start := Some 0, pb_last_timestamp_ns := Some 10,
      pb_session_high := Some (Price \<lparr>coefficient = 25, scale = 0\<rparr>), pb_session_low := Some (Price \<lparr>coefficient = 25, scale = 0\<rparr>),
      pb_volume_by_level := [(2, 4)], pb_total_volume_units := 4, pb_current_tpo_levels := [(2, ())],
      pb_current_tpo_high := Some 2, pb_current_tpo_low := Some 2\<rparr>"

definition sample_profile_two :: session_profile_builder where
  "sample_profile_two =
     sample_profile\<lparr>pb_session_start := Some 0, pb_current_tpo_start := Some 120, pb_last_timestamp_ns := Some 130,
      pb_session_high := Some (Price \<lparr>coefficient = 25, scale = 0\<rparr>), pb_session_low := Some (Price \<lparr>coefficient = 15, scale = 0\<rparr>),
      pb_volume_by_level := [(1, 3), (2, 4)], pb_tpo_by_level := [(2, 1)], pb_total_volume_units := 7,
      pb_current_tpo_levels := [(1, ())], pb_current_tpo_high := Some 1, pb_current_tpo_low := Some 1,
      pb_previous_tpo_high := Some 2, pb_previous_tpo_low := Some 2\<rparr>"

lemmas sample_profile_defs =
  sample_profile_one_def sample_profile_two_def sample_profile_def sample_flow_builder_def

lemma sample_profile_reach: "profile_reach sample_profile_adds sample_profile_two"
proof -
  have small: "fixed_ok (quantity_fixed (Quantity \<lparr>coefficient = q, scale = 0\<rparr>))" if "0 < q" "q < 100" for q
    using that by (simp add: fixed_ok_def in_i128_def)
  have "profile_reach [] sample_profile"
    by (rule begin_profile [of "pb_grid sample_profile" "pb_time sample_profile" "pb_config sample_profile"])
      (unfold sample_profile_defs, code_simp)
  then have "profile_reach ([] @ [sample_profile_adds ! 0]) sample_profile_one"
  proof (rule traded)
    show "profile_ingest sample_profile 10 (Price \<lparr>coefficient = 25, scale = 0\<rparr>) (Quantity \<lparr>coefficient = 4, scale = 0\<rparr>) =
        (Inr None, sample_profile_one)" unfolding sample_profile_defs by code_simp
    show "profile_normalise sample_profile 10 (Price \<lparr>coefficient = 25, scale = 0\<rparr>) (Quantity \<lparr>coefficient = 4, scale = 0\<rparr>) =
        Inr (sample_profile_adds ! 0)" unfolding sample_profile_defs sample_profile_adds_def by code_simp
  qed (rule small, simp_all)
  then have "profile_reach (([] @ [sample_profile_adds ! 0]) @ [sample_profile_adds ! 1]) sample_profile_two"
  proof (rule traded)
    show "profile_ingest sample_profile_one 130 (Price \<lparr>coefficient = 15, scale = 0\<rparr>) (Quantity \<lparr>coefficient = 3, scale = 0\<rparr>) =
        (Inr None, sample_profile_two)" unfolding sample_profile_defs by code_simp
    show "profile_normalise sample_profile_one 130 (Price \<lparr>coefficient = 15, scale = 0\<rparr>) (Quantity \<lparr>coefficient = 3, scale = 0\<rparr>) =
        Inr (sample_profile_adds ! 1)" unfolding sample_profile_defs sample_profile_adds_def by code_simp
  qed (rule small, simp_all)
  moreover have "([] @ [sample_profile_adds ! 0]) @ [sample_profile_adds ! 1] = sample_profile_adds"
    by (simp add: sample_profile_adds_def)
  ultimately show ?thesis by simp
qed



definition area_activity :: "profile_add list \<Rightarrow> value_area_basis \<Rightarrow> price_bucket \<Rightarrow> price_bucket \<Rightarrow> int" where
  "area_activity as basis lo hi = (\<Sum>k \<in> {k \<in> pa_bucket ` set as. lo \<le> k \<and> k \<le> hi}. traded_activity as basis k)"

lemma traded_activity_nonneg: "\<forall>a \<in> set as. 0 < pa_units a \<Longrightarrow> 0 \<le> traded_activity as basis k"
  by (simp add: traded_activity_def level_volume_nonneg split: value_area_basis.split)

text \<open>
  C19: The value area of a session is found and is right, for both bases.  Its point of control has the
  greatest activity of the traded buckets, on ties the one nearest the middle of the traded range, then
  the lowest; the area is a contiguous range around it that holds at least the configured share of the
  activity, and, unless it is a single bucket, holds less once one of its two end buckets is dropped.
  Buckets and activity have to leave room for the intermediate products.
\<close>

theorem value_area_correct:
  assumes "profile_reach as p" and "pb_session_start p \<noteq> None" and "close_tpo p = (Inr (), p')" and "as \<noteq> []"
    and "\<forall>a \<in> set as. pa_bucket a < 2 ^ 125"
    and "in_i128 ((\<Sum>k \<in> pa_bucket ` set as. traded_activity as basis k) * 10000 + 9999)"
  shows "\<exists>poc lo hi. value_area p' basis = Inr (Some poc, Some lo, Some hi) \<and> {poc, lo, hi} \<subseteq> pa_bucket ` set as \<and>
    lo \<le> poc \<and> poc \<le> hi \<and>
    (\<forall>k \<in> pa_bucket ` set as.
      preferred (traded_activity as basis) (Min (pa_bucket ` set as) + Max (pa_bucket ` set as)) poc k) \<and>
    (\<Sum>k \<in> pa_bucket ` set as. traded_activity as basis k) * int (pc_value_area_bps (pb_config p))
      \<le> area_activity as basis lo hi * 10000 \<and>
    (lo = hi \<or>
     min (area_activity as basis lo hi - traded_activity as basis lo) (area_activity as basis lo hi - traded_activity as basis hi) * 10000
       < (\<Sum>k \<in> pa_bucket ` set as. traded_activity as basis k) * int (pc_value_area_bps (pb_config p)))"
proof -
  let ?K = "pa_bucket ` set as" and ?act = "traded_activity as basis" and ?vol = "pb_volume_by_level p'"
  have inv: "profile_inv as p" using assms(1) by (rule profile_reach_inv)
  have rep: "profile_rep as (periods as) [] p'" using inv assms(2,3) by (rule closed_rep)
  have act: "activity p' basis = ?act" using activity_eq [OF rep] by (rule ext)
  have conf: "pb_config p' = pb_config p" using close_tpo_frame [OF assms(3)] by simp
  have keys: "set (map fst ?vol) = ?K" using profile_keys [OF rep] by simp
  have sorted: "sorted_wrt (<) (map fst ?vol)" using profile_repD(1) [OF rep] by (simp add: bt_ok_def)
  note facts = strict_sorted_facts [OF sorted, unfolded keys]
  have ne: "?vol \<noteq> []" using keys assms(4) by (cases ?vol) auto
  have ends: "hd (map fst ?vol) = Min ?K" "last (map fst ?vol) = Max ?K" using facts(1,2) ne by simp_all
  have bps: "pc_value_area_bps (pb_config p') \<le> 10000"
    using inv profile_config_validate_Inr by (auto simp: profile_inv_def conf)
  have pos: "\<forall>a \<in> set as. 0 < pa_units a \<and> 0 \<le> pa_bucket a" using inv by (simp add: profile_inv_def)
  have "\<forall>k \<in> fst ` set ?vol. 0 \<le> k \<and> k < 2 ^ 125 \<and> 0 \<le> activity p' basis k"
    using pos assms(5) traded_activity_nonneg [of as basis] unfolding act by (auto simp: profile_keys [OF rep])
  note spec = value_area_spec [OF profile_repD(1) [OF rep] ne this bps,
      unfolded act conf facts(3) ends area_volume_def profile_keys [OF rep], OF assms(6)]
  show ?thesis using spec unfolding area_activity_def by (simp add: min_mult_distrib_right min_less_iff_disj)
qed

theorem value_area_correct_witness:
  "\<exists>poc lo hi. value_area (snd (close_tpo sample_profile_two)) VolumeBasis = Inr (Some poc, Some lo, Some hi) \<and>
     lo \<le> poc \<and> poc \<le> hi \<and> (7 :: int) * 7000 \<le> area_activity sample_profile_adds VolumeBasis lo hi * 10000"
proof -
  have act: "(\<Sum>k \<in> pa_bucket ` set sample_profile_adds. traded_activity sample_profile_adds VolumeBasis k) = 7"
    by (simp add: sample_profile_adds_def traded_activity_def level_volume_def)
  have run: "close_tpo sample_profile_two = (Inr (), snd (close_tpo sample_profile_two))"
    "pb_session_start sample_profile_two \<noteq> None" "pc_value_area_bps (pb_config sample_profile_two) = 7000"
    unfolding sample_profile_defs by code_simp+
  have "\<forall>a \<in> set sample_profile_adds. pa_bucket a < 2 ^ 125" "sample_profile_adds \<noteq> []"
    by (simp_all add: sample_profile_adds_def)
  with value_area_correct [OF sample_profile_reach run(2,1), of VolumeBasis] run(3) show ?thesis
    by (auto simp: act in_i128_def)
qed


end
