(* ===== verification/Compare.thy ===== *)
theory Compare
  imports Main "HOL-Library.Multiset"
begin

text \<open>
  \<^verbatim>\<open>std::cmp::Ordering\<close> and the slice operations that take a comparison: \<^verbatim>\<open>sort_by\<close>, which is stable, and
  \<^verbatim>\<open>max_by\<close>, which keeps the last of equal maxima.  The locale \<open>total_compare\<close> is the contract both
  operations need of a comparison; comparisons by key, their reversals and their \<^verbatim>\<open>then_with\<close> chains satisfy
  it.
\<close>

datatype ordering = LessThan | EqualTo | GreaterThan

definition ord_cmp :: "'a::linorder \<Rightarrow> 'a \<Rightarrow> ordering" where
  "ord_cmp a b = (if a < b then LessThan else if a = b then EqualTo else GreaterThan)"

fun then_with :: "ordering \<Rightarrow> ordering \<Rightarrow> ordering" where
  "then_with EqualTo o2 = o2"
| "then_with o1 _ = o1"

fun reverse_ord :: "ordering \<Rightarrow> ordering" where
  "reverse_ord LessThan = GreaterThan"
| "reverse_ord EqualTo = EqualTo"
| "reverse_ord GreaterThan = LessThan"

primrec insert_by :: "('a \<Rightarrow> 'a \<Rightarrow> ordering) \<Rightarrow> 'a \<Rightarrow> 'a list \<Rightarrow> 'a list" where
  "insert_by c x [] = [x]"
| "insert_by c x (y # ys) = (if c x y = GreaterThan then y # insert_by c x ys else x # y # ys)"

primrec sort_by :: "('a \<Rightarrow> 'a \<Rightarrow> ordering) \<Rightarrow> 'a list \<Rightarrow> 'a list" where
  "sort_by c [] = []"
| "sort_by c (x # xs) = insert_by c x (sort_by c xs)"

fun max_by :: "('a \<Rightarrow> 'a \<Rightarrow> ordering) \<Rightarrow> 'a list \<Rightarrow> 'a option" where
  "max_by c [] = None"
| "max_by c (x # xs) = Some (foldl (\<lambda>best y. if c best y = GreaterThan then best else y) x xs)"

lemma mset_insert_by [simp]: "mset (insert_by c x xs) = add_mset x (mset xs)"
  by (induction xs) auto

lemma mset_sort_by [simp]: "mset (sort_by c xs) = mset xs"
  by (induction xs) auto

lemma set_sort_by [simp]: "set (sort_by c xs) = set xs"
  by (metis mset_sort_by set_mset_mset)

lemma length_sort_by [simp]: "length (sort_by c xs) = length xs"
  by (metis mset_sort_by size_mset)

lemma length_filter_sort_by: "length (filter P (sort_by c xs)) = length (filter P xs)"
  by (metis mset_filter mset_sort_by size_mset)

lemma set_insert_by [simp]: "set (insert_by c x xs) = insert x (set xs)"
  by (metis mset_insert_by set_mset_add_mset_insert set_mset_mset)

lemma then_with_not_greater:
  "then_with o1 o2 \<noteq> GreaterThan \<longleftrightarrow> o1 = LessThan \<or> o1 = EqualTo \<and> o2 \<noteq> GreaterThan"
  by (cases o1) auto

lemma reverse_then_with: "reverse_ord (then_with o1 o2) = then_with (reverse_ord o1) (reverse_ord o2)"
  by (cases o1) auto

lemma reverse_ord_iff [simp]:
  "reverse_ord o1 = LessThan \<longleftrightarrow> o1 = GreaterThan" "reverse_ord o1 = EqualTo \<longleftrightarrow> o1 = EqualTo"
  "reverse_ord o1 = GreaterThan \<longleftrightarrow> o1 = LessThan"
  by (cases o1; simp)+

lemma ord_cmp_iff [simp]:
  "ord_cmp a b = LessThan \<longleftrightarrow> a < b" "ord_cmp a b = EqualTo \<longleftrightarrow> a = b" "ord_cmp a b = GreaterThan \<longleftrightarrow> b < a"
  by (auto simp: ord_cmp_def)

section \<open>Total comparisons\<close>

locale total_compare =
  fixes c :: "'a \<Rightarrow> 'a \<Rightarrow> ordering"
  assumes flip: "c b a = reverse_ord (c a b)"
    and trans: "c x y \<noteq> GreaterThan \<Longrightarrow> c y z \<noteq> GreaterThan \<Longrightarrow> c x z \<noteq> GreaterThan"
begin

lemma not_greater_flip: "c x y = GreaterThan \<Longrightarrow> c y x \<noteq> GreaterThan"
  using flip [of y x] by simp

lemma equal_left: "c x y = EqualTo \<Longrightarrow> c x z = c y z"
  using trans [of x y z] trans [of y x z] trans [of z x y] trans [of z y x] flip [of y x] flip [of z x] flip [of z y]
  by (cases "c x z"; cases "c y z") auto

lemma sorted_insert_by:
  "sorted_wrt (\<lambda>a b. c a b \<noteq> GreaterThan) ys \<Longrightarrow> sorted_wrt (\<lambda>a b. c a b \<noteq> GreaterThan) (insert_by c x ys)"
proof (induction ys)
  case (Cons y ys)
  show ?case
  proof (cases "c x y = GreaterThan")
    case True
    with Cons not_greater_flip [OF True] show ?thesis by auto
  next
    case False
    with Cons.prems show ?thesis using trans [OF False] by auto
  qed
qed simp

lemma sorted_sort_by: "sorted_wrt (\<lambda>a b. c a b \<noteq> GreaterThan) (sort_by c xs)"
  by (induction xs) (simp_all add: sorted_insert_by)

lemma max_fold:
  "(foldl (\<lambda>best y. if c best y = GreaterThan then best else y) x xs) \<in> insert x (set xs) \<and>
   (\<forall>y \<in> insert x (set xs). c y (foldl (\<lambda>best y. if c best y = GreaterThan then best else y) x xs) \<noteq> GreaterThan)"
proof (induction xs arbitrary: x)
  case Nil
  then show ?case using not_greater_flip [of x x] by auto
next
  case (Cons z zs)
  show ?case
  proof (cases "c x z = GreaterThan")
    case True
    then show ?thesis using Cons [of x] trans [of z x] not_greater_flip [OF True] by auto
  next
    case False
    then show ?thesis using Cons [of z] trans [of x z] by auto
  qed
qed

lemma max_by_greatest: "max_by c xs = Some m \<Longrightarrow> m \<in> set xs \<and> (\<forall>y \<in> set xs. c y m \<noteq> GreaterThan)"
  using max_fold by (cases xs) auto

end

lemma max_by_None_iff [simp]: "max_by c xs = None \<longleftrightarrow> xs = []"
  by (cases xs) simp_all

lemma total_compare_key: "total_compare (\<lambda>a b. ord_cmp (key a) (key b))"
  by unfold_locales (simp add: ord_cmp_def, auto)

lemma total_compare_reverse:
  assumes "total_compare c"
  shows "total_compare (\<lambda>a b. c b a)"
proof (unfold_locales)
  show "c b a = reverse_ord (c a b)" for a b using assms by (rule total_compare.flip)
  show "c z x \<noteq> GreaterThan" if "c y x \<noteq> GreaterThan" "c z y \<noteq> GreaterThan" for x y z
    using that(2,1) by (rule total_compare.trans [OF assms])
qed

lemma total_compare_then:
  assumes "total_compare c" and "total_compare d"
  shows "total_compare (\<lambda>a b. then_with (c a b) (d a b))"
proof (unfold_locales)
  note flips = total_compare.flip [OF assms(1)] total_compare.flip [OF assms(2)]
  show "then_with (c b a) (d b a) = reverse_ord (then_with (c a b) (d a b))" for a b
    by (subst flips(1) [of b a], subst flips(2) [of b a]) (simp add: reverse_then_with)
  show "then_with (c x z) (d x z) \<noteq> GreaterThan"
    if "then_with (c x y) (d x y) \<noteq> GreaterThan" "then_with (c y z) (d y z) \<noteq> GreaterThan" for x y z
  proof (cases "c x y = EqualTo")
    case True
    then show ?thesis
      using that total_compare.equal_left [OF assms(1) True, of z] total_compare.trans [OF assms(2), of x y z]
      by (auto simp: then_with_not_greater)
  next
    case False
    then have lt: "c x y = LessThan" using that(1) by (simp add: then_with_not_greater)
    have "c x z \<noteq> GreaterThan" using that lt by (intro total_compare.trans [OF assms(1), of x y z]) (auto simp: then_with_not_greater)
    moreover have "c x z \<noteq> EqualTo"
    proof
      assume "c x z = EqualTo"
      then have "c z y = LessThan" using total_compare.equal_left [OF assms(1), of x z y] lt by simp
      then have "c y z = GreaterThan" using flips(1) [of y z] by simp
      with that(2) show False by (simp add: then_with_not_greater)
    qed
    ultimately show ?thesis by (cases "c x z") (auto simp: then_with_not_greater)
  qed
qed

lemmas total_compare_intros = total_compare_then total_compare_key total_compare_reverse

end
