(* ===== verification/Bytes.thy ===== *)
theory Bytes
  imports Prelude
begin

text \<open>
  Little-endian integers as byte strings (\<^verbatim>\<open>to_le_bytes\<close> and \<^verbatim>\<open>from_le_bytes\<close> of the standard library),
  shared by the identifiers of bubbles and by the recording format.
\<close>

definition le_bytes :: "nat \<Rightarrow> int \<Rightarrow> 8 word list" where
  "le_bytes n x = map (\<lambda>i. word_of_int (x div 256 ^ i)) [0..<n]"

primrec le_value :: "8 word list \<Rightarrow> int" where
  "le_value [] = 0"
| "le_value (b # bs) = uint b + 256 * le_value bs"

lemma length_le_bytes [simp]: "length (le_bytes n x) = n"
  by (simp add: le_bytes_def)

lemma le_bytes_Suc: "le_bytes (Suc n) x = word_of_int x # le_bytes n (x div 256)"
proof -
  have "x div 256 ^ Suc i = x div 256 div 256 ^ i" for i by (simp add: zdiv_zmult2_eq)
  then show ?thesis by (simp add: le_bytes_def upt_conv_Cons map_Suc_upt [symmetric] del: upt_Suc power_Suc map_Suc_upt)
qed

lemma le_value_le_bytes: "le_value (le_bytes n x) = x mod 256 ^ n"
proof (induction n arbitrary: x)
  case (Suc n)
  have "uint (word_of_int x :: 8 word) = x mod 256" by (simp add: uint_word_of_int)
  then show ?case by (simp add: le_bytes_Suc Suc.IH zmod_zmult2_eq)
qed (simp add: le_bytes_def)

lemma le_value_unsigned: "0 \<le> x \<Longrightarrow> x < 256 ^ n \<Longrightarrow> le_value (le_bytes n x) = x"
  by (simp add: le_value_le_bytes)

lemma le_value_nonneg: "0 \<le> le_value bs"
  by (induction bs) simp_all

lemma le_value_less: "le_value bs < 256 ^ length bs"
proof (induction bs)
  case (Cons b bs)
  have "uint b < 256" using uint_bounded [of b] by simp
  with Cons show ?case by simp
qed simp

text \<open>\<^verbatim>\<open>from_le_bytes\<close> after \<^verbatim>\<open>to_le_bytes\<close>, for \<^verbatim>\<open>u64\<close>, \<^verbatim>\<open>u32\<close> and \<^verbatim>\<open>i64\<close>.\<close>

lemma word_of_le_bytes_64: "word_of_int (le_value (le_bytes 8 (uint w))) = (w :: 64 word)"
  using uint_bounded [of w] by (simp add: le_value_unsigned)

lemma word_of_le_bytes_32: "word_of_int (le_value (le_bytes 4 (uint w))) = (w :: 32 word)"
  using uint_bounded [of w] by (simp add: le_value_unsigned)

definition i64_of_bytes :: "8 word list \<Rightarrow> i64" where
  "i64_of_bytes bs = sint (word_of_int (le_value bs) :: 64 word)"

lemma i64_of_le_bytes: "in_i64 x \<Longrightarrow> i64_of_bytes (le_bytes 8 x) = x"
proof -
  assume x: "in_i64 x"
  have "(word_of_int (x mod 2 ^ 64) :: 64 word) = word_of_int x" by (simp add: word_of_int_eq_iff take_bit_eq_mod)
  moreover have "sint (word_of_int x :: 64 word) = x"
    using x by (simp add: int_word_sint in_i64_def)
  ultimately show ?thesis by (simp add: i64_of_bytes_def le_value_le_bytes)
qed

end
