(* ===== verification/Bubbles.thy ===== *)
theory Bubbles
  imports Flow Compare Bytes "HOL-Library.Product_Lexorder"
begin

text \<open>
  Order-flow bubbles (\<^verbatim>\<open>crates/analytics/src/bubbles.rs\<close>): the filter configuration, adaptive thresholds,
  strict-priority detection, merging and the finalized history.  \<^verbatim>\<open>u128\<close> strengths are non-negative
  integers with their range checks written out; an \<^verbatim>\<open>Arc\<close> is its contents; a \<^verbatim>\<open>[T; 3]\<close> indexed by tier is a
  function of the tier.
\<close>

section \<open>Configuration\<close>

datatype bubble_mode = VolumeMode | DeltaMode

datatype bubble_tier = F1 | F2 | F3

fun tier_priority :: "bubble_tier \<Rightarrow> u8" where
  "tier_priority F1 = 1"
| "tier_priority F2 = 2"
| "tier_priority F3 = 3"

datatype bubble_shape = Circle | Square | Diamond

datatype label_mode = LabelOff | LabelRaw

record bubble_style =
  bs_shape :: bubble_shape
  bs_min_size :: u16
  bs_max_size :: u16
  bs_volume_cap :: quantity
  bs_delta_cap :: quantity
  bs_label_mode :: label_mode

definition bubble_style_new ::
    "bubble_shape \<Rightarrow> u16 \<Rightarrow> u16 \<Rightarrow> quantity \<Rightarrow> quantity \<Rightarrow> label_mode \<Rightarrow> analytics_error + bubble_style" where
  "bubble_style_new shape min_size max_size volume_cap delta_cap label =
     (if min_size = 0 \<or> max_size < min_size then
        Inl (InvalidConfig ''bubble size'' ''min_size must be positive and no greater than max_size'')
      else if coefficient (quantity_fixed volume_cap) \<le> 0 \<or> coefficient (quantity_fixed delta_cap) \<le> 0 then
        Inl (InvalidConfig ''bubble strength cap'' ''volume and delta caps must be positive'')
      else Inr \<lparr>bs_shape = shape, bs_min_size = min_size, bs_max_size = max_size, bs_volume_cap = volume_cap,
                bs_delta_cap = delta_cap, bs_label_mode = label\<rparr>)"

definition bubble_style_validate :: "bubble_style \<Rightarrow> analytics_error + unit" where
  "bubble_style_validate s =
     map_ok (\<lambda>_. ()) (bubble_style_new (bs_shape s) (bs_min_size s) (bs_max_size s) (bs_volume_cap s)
       (bs_delta_cap s) (bs_label_mode s))"

datatype adaptive_preset = UltraPermissive | Permissive | Balanced | Strict | VeryStrict | UltraStrict
  | Extreme | CustomPreset

fun percentile_bps :: "adaptive_preset \<Rightarrow> u16 \<Rightarrow> u16" where
  "percentile_bps UltraPermissive _ = 4500"
| "percentile_bps Permissive _ = 6000"
| "percentile_bps Balanced _ = 7500"
| "percentile_bps Strict _ = 8500"
| "percentile_bps VeryStrict _ = 9000"
| "percentile_bps UltraStrict _ = 9500"
| "percentile_bps Extreme _ = 9900"
| "percentile_bps CustomPreset custom = custom"

record adaptive_threshold =
  at_preset :: adaptive_preset
  at_custom_percentile_bps :: u16
  at_minimum_floor :: "quantity option"
  at_minimum_samples :: usize
  at_calibration_candles :: usize
  at_outlier_cap_percentile_bps :: u16
  at_spike_adaptation_bps :: u16

definition adaptive_threshold_new ::
    "adaptive_preset \<Rightarrow> u16 \<Rightarrow> quantity option \<Rightarrow> usize \<Rightarrow> usize \<Rightarrow> u16 \<Rightarrow> u16 \<Rightarrow> analytics_error + adaptive_threshold" where
  "adaptive_threshold_new preset custom minimum_floor samples candles outlier spike =
     (case find (\<lambda>(field, v). 10000 < v)
        [(''custom_percentile_bps'', custom), (''outlier_cap_percentile_bps'', outlier), (''spike_adaptation_bps'', spike)] of
        Some (field, _) \<Rightarrow> Inl (InvalidConfig field ''must be between 0 and 10,000'')
      | None \<Rightarrow>
        if samples = 0 \<or> candles = 0 then
          Inl (InvalidConfig ''adaptive history'' ''minimum_samples and calibration_candles must be positive'')
        else if (case minimum_floor of None \<Rightarrow> False | Some v \<Rightarrow> coefficient (quantity_fixed v) \<le> 0) then
          Inl (InvalidConfig ''minimum_floor'' ''must be positive when configured'')
        else Inr \<lparr>at_preset = preset, at_custom_percentile_bps = custom, at_minimum_floor = minimum_floor,
                  at_minimum_samples = samples, at_calibration_candles = candles,
                  at_outlier_cap_percentile_bps = outlier, at_spike_adaptation_bps = spike\<rparr>)"

definition adaptive_threshold_validate :: "adaptive_threshold \<Rightarrow> analytics_error + unit" where
  "adaptive_threshold_validate a =
     map_ok (\<lambda>_. ()) (adaptive_threshold_new (at_preset a) (at_custom_percentile_bps a) (at_minimum_floor a)
       (at_minimum_samples a) (at_calibration_candles a) (at_outlier_cap_percentile_bps a) (at_spike_adaptation_bps a))"

datatype threshold_mode = ThresholdOff | ThresholdManual quantity | ThresholdAdaptive adaptive_threshold

record bubble_filter =
  bf_tier :: bubble_tier
  bf_mode :: bubble_mode
  bf_threshold :: threshold_mode
  bf_sources :: source_selector
  bf_max_bubbles_per_candle :: usize
  bf_style :: bubble_style

definition bubble_filter_new ::
    "bubble_tier \<Rightarrow> bubble_mode \<Rightarrow> threshold_mode \<Rightarrow> source_selector \<Rightarrow> usize \<Rightarrow> bubble_style \<Rightarrow>
     analytics_error + bubble_filter" where
  "bubble_filter_new tier mode threshold sources max_bubbles style =
     (if max_bubbles = 0 then Inl (InvalidConfig ''max_bubbles_per_candle'' ''must be positive'')
      else if (case threshold of ThresholdManual v \<Rightarrow> coefficient (quantity_fixed v) \<le> 0 | _ \<Rightarrow> False) then
        Inl (InvalidConfig ''manual threshold'' ''must be positive'')
      else
        and_then (case threshold of ThresholdAdaptive a \<Rightarrow> adaptive_threshold_validate a | _ \<Rightarrow> Inr ()) (\<lambda>_.
        and_then (selector_validate sources) (\<lambda>_.
        and_then (bubble_style_validate style) (\<lambda>_.
        Inr \<lparr>bf_tier = tier, bf_mode = mode, bf_threshold = threshold, bf_sources = sources,
             bf_max_bubbles_per_candle = max_bubbles, bf_style = style\<rparr>))))"

definition bubble_filter_validate :: "bubble_filter \<Rightarrow> bubble_tier \<Rightarrow> analytics_error + unit" where
  "bubble_filter_validate f expected =
     (if bf_tier f \<noteq> expected then
        Inl (InvalidConfig ''bubble tier'' ''filter tier does not match its configuration slot'')
      else map_ok (\<lambda>_. ()) (bubble_filter_new (bf_tier f) (bf_mode f) (bf_threshold f) (bf_sources f)
             (bf_max_bubbles_per_candle f) (bf_style f)))"

record merge_config =
  mc_enabled_tiers :: "bubble_tier \<Rightarrow> bool"
  mc_max_distance_buckets :: u32
  mc_style :: bubble_style

definition merge_config_new :: "(bubble_tier \<Rightarrow> bool) \<Rightarrow> u32 \<Rightarrow> bubble_style \<Rightarrow> analytics_error + merge_config" where
  "merge_config_new enabled distance style =
     and_then (bubble_style_validate style) (\<lambda>_.
     Inr \<lparr>mc_enabled_tiers = enabled, mc_max_distance_buckets = distance, mc_style = style\<rparr>)"

definition merge_config_disabled :: merge_config where
  "merge_config_disabled =
     \<lparr>mc_enabled_tiers = (\<lambda>_. False), mc_max_distance_buckets = 0,
      mc_style = \<lparr>bs_shape = Circle, bs_min_size = 8, bs_max_size = 48, bs_volume_cap = Quantity (fixed_new 1 0),
        bs_delta_cap = Quantity (fixed_new 1 0), bs_label_mode = LabelOff\<rparr>\<rparr>"

datatype performance_mode = FullPerformance | HighPerformance (live_tier_count: u8) (defer_merging: bool)

record bubble_config =
  bc_f1 :: bubble_filter
  bc_f2 :: bubble_filter
  bc_f3 :: bubble_filter
  bc_merge :: merge_config
  bc_performance :: performance_mode
  bc_max_history_candles :: usize

definition bubble_config_new ::
    "bubble_filter \<Rightarrow> bubble_filter \<Rightarrow> bubble_filter \<Rightarrow> merge_config \<Rightarrow> performance_mode \<Rightarrow> usize \<Rightarrow>
     analytics_error + bubble_config" where
  "bubble_config_new f1 f2 f3 merge performance max_history =
     (if max_history = 0 then Inl (InvalidConfig ''max_history_candles'' ''must be positive'')
      else
        and_then (bubble_filter_validate f1 F1) (\<lambda>_. and_then (bubble_filter_validate f2 F2) (\<lambda>_.
        and_then (bubble_filter_validate f3 F3) (\<lambda>_. and_then (bubble_style_validate (mc_style merge)) (\<lambda>_.
        if (case performance of HighPerformance n _ \<Rightarrow> n = 0 \<or> 4 \<le> n | _ \<Rightarrow> False) then
          Inl (InvalidConfig ''live_tier_count'' ''must be between one and three'')
        else Inr \<lparr>bc_f1 = f1, bc_f2 = f2, bc_f3 = f3, bc_merge = merge, bc_performance = performance,
                  bc_max_history_candles = max_history\<rparr>)))))"

definition bubble_config_validate :: "bubble_config \<Rightarrow> analytics_error + unit" where
  "bubble_config_validate c =
     map_ok (\<lambda>_. ()) (bubble_config_new (bc_f1 c) (bc_f2 c) (bc_f3 c) (bc_merge c) (bc_performance c)
       (bc_max_history_candles c))"

section \<open>Bubbles, aggregates and the detector\<close>

datatype detection_phase = LivePhase | FinalPhase

datatype bubble_direction = SellBubble | NeutralBubble | BuyBubble

fun direction_index :: "bubble_direction \<Rightarrow> nat" where
  "direction_index SellBubble = 0"
| "direction_index NeutralBubble = 1"
| "direction_index BuyBubble = 2"

record order_flow_bubble =
  ob_id :: w64
  ob_instrument :: instrument_id
  ob_candle_start_ns :: i64
  ob_candle_end_ns :: i64
  ob_segment :: market_segment
  ob_sources :: "venue_id list"
  ob_tier :: bubble_tier
  ob_mode :: bubble_mode
  ob_direction :: bubble_direction
  ob_anchor_price :: price
  ob_low_price :: price
  ob_high_price :: price
  ob_buy_volume :: quantity
  ob_sell_volume :: quantity
  ob_unknown_volume :: quantity
  ob_total_volume :: quantity
  ob_delta :: fixed
  ob_strength :: fixed
  ob_threshold :: fixed
  ob_visual_size :: u16
  ob_label :: "fixed option"
  ob_shape :: bubble_shape
  ob_merged_count :: u16

record bubble_batch =
  bb_candle_start_ns :: i64
  bb_candle_end_ns :: i64
  bb_phase :: detection_phase
  bb_bubbles :: "order_flow_bubble list"

text \<open>The derived order of \<^verbatim>\<open>CandidateKey\<close> is that of the pair.\<close>

type_synonym candidate_key = "market_segment \<times> price_bucket"

record aggregate =
  ag_segment :: market_segment
  ag_bucket :: price_bucket
  ag_sources :: "venue_id list"
  ag_buy_units :: i128
  ag_sell_units :: i128
  ag_unknown_units :: i128
  ag_total_units :: i128

abbreviation (input) checked_abs_i128 :: "i128 \<Rightarrow> i128 option" where
  "checked_abs_i128 x \<equiv> checked_i128 \<bar>x\<bar>"

definition to_u128 :: "int \<Rightarrow> string \<Rightarrow> analytics_error + int" where
  "to_u128 x msg = (if x < 0 then Inl (ArithmeticOverflow msg) else Inr x)"

definition checked_u128 :: "int \<Rightarrow> int option" where
  "checked_u128 x = (if 0 \<le> x \<and> x < 2 ^ 128 then Some x else None)"

definition delta_units :: "aggregate \<Rightarrow> analytics_error + i128" where
  "delta_units a = ok_or (checked_i128 (ag_buy_units a - ag_sell_units a)) (ArithmeticOverflow ''calculating bubble delta'')"

definition strength_units :: "aggregate \<Rightarrow> bubble_mode \<Rightarrow> analytics_error + int" where
  "strength_units a mode =
     and_then (case mode of
         VolumeMode \<Rightarrow> Inr (ag_total_units a)
       | DeltaMode \<Rightarrow> and_then (delta_units a) (\<lambda>d. ok_or (checked_abs_i128 d)
           (ArithmeticOverflow ''calculating absolute bubble delta'')))
       (\<lambda>v. to_u128 v ''converting bubble strength'')"

definition direction_of_delta :: "i128 \<Rightarrow> bubble_direction" where
  "direction_of_delta d = (if d < 0 then SellBubble else if d = 0 then NeutralBubble else BuyBubble)"

definition aggregate_direction :: "aggregate \<Rightarrow> analytics_error + bubble_direction" where
  "aggregate_direction a = map_ok direction_of_delta (delta_units a)"

record bubble_detector =
  bd_grid :: grid_spec
  bd_config :: bubble_config
  bd_history :: "candle_flow list"
  bd_last_finalized_start_ns :: "i64 option"

datatype threshold_baseline =
    BaselineOff
  | BaselineManual int
  | BaselineFloorOnly "int option"
  | BaselineAdaptive (tb_floor: int) (tb_cap: int) (tb_historical: int) (tb_historical_weight_bps: u16)
      (tb_spike_weight_bps: u16)

definition detector_new :: "grid_spec \<Rightarrow> bubble_config \<Rightarrow> analytics_error + bubble_detector" where
  "detector_new g c =
     and_then (grid_validate g) (\<lambda>_. and_then (bubble_config_validate c) (\<lambda>_.
       Inr \<lparr>bd_grid = g, bd_config = c, bd_history = [], bd_last_finalized_start_ns = None\<rparr>))"

section \<open>Aggregation\<close>

definition candidate_keys :: "candle_flow \<Rightarrow> grid_spec \<Rightarrow> analytics_error + (candidate_key \<times> unit) list" where
  "candidate_keys candle g =
     try_fold (\<lambda>keys source.
       try_fold (\<lambda>keys level.
         map_ok (\<lambda>bucket. bt_insert (fs_segment (sc_source source), bucket) () keys) (price_bucket_of g (pl_price level)))
         keys (sc_levels source))
       [] (cf_sources candle)"

text \<open>One level of a matching source, added to the running sums.\<close>

definition aggregate_level ::
    "grid_spec \<Rightarrow> price_bucket \<Rightarrow> venue_id \<Rightarrow> (venue_id \<times> unit) list \<times> i128 \<times> i128 \<times> i128 \<times> i128 \<Rightarrow> price_level_flow \<Rightarrow>
     analytics_error + (venue_id \<times> unit) list \<times> i128 \<times> i128 \<times> i128 \<times> i128" where
  "aggregate_level g bucket venue = (\<lambda>(sources, buy, sell, unk, tot) level.
     and_then (price_bucket_of g (pl_price level)) (\<lambda>k.
       if k \<noteq> bucket then Inr (sources, buy, sell, unk, tot)
       else
         and_then (non_negative_quantity_units g (pl_buy_volume level)) (\<lambda>v.
         and_then (add_i128 buy v ''aggregating buy volume'') (\<lambda>buy.
         and_then (non_negative_quantity_units g (pl_sell_volume level)) (\<lambda>v.
         and_then (add_i128 sell v ''aggregating sell volume'') (\<lambda>sell.
         and_then (non_negative_quantity_units g (pl_unknown_volume level)) (\<lambda>v.
         and_then (add_i128 unk v ''aggregating unknown volume'') (\<lambda>unk.
         and_then (quantity_units_of g (pl_total_volume level)) (\<lambda>v.
         and_then (add_i128 tot v ''aggregating total volume'') (\<lambda>tot.
         Inr (bt_insert venue () sources, buy, sell, unk, tot)))))))))))"

definition aggregate_for ::
    "candle_flow \<Rightarrow> candidate_key \<Rightarrow> source_selector \<Rightarrow> grid_spec \<Rightarrow> analytics_error + aggregate" where
  "aggregate_for candle key selector g =
     and_then (try_fold (\<lambda>acc source.
         if fs_segment (sc_source source) \<noteq> fst key
            \<or> \<not> selector_matches selector (fs_venue (sc_source source)) (fs_segment (sc_source source)) then Inr acc
         else try_fold (aggregate_level g (snd key) (fs_venue (sc_source source))) acc (sc_levels source))
       ([], 0, 0, 0, 0) (cf_sources candle)) (\<lambda>(sources, buy, sell, unk, tot).
     Inr \<lparr>ag_segment = fst key, ag_bucket = snd key, ag_sources = map fst sources, ag_buy_units = buy,
          ag_sell_units = sell, ag_unknown_units = unk, ag_total_units = tot\<rparr>)"

section \<open>Thresholds\<close>

definition percentile :: "int list \<Rightarrow> u16 \<Rightarrow> analytics_error + int" where
  "percentile values bps =
     (if values = [] then Inl (InvalidConfig ''percentile'' ''requires at least one sample'')
      else
        and_then (ok_or (checked_uint 64 (bps * length values)) (ArithmeticOverflow ''calculating percentile rank'')) (\<lambda>numerator.
        and_then (ok_or (checked_uint 64 (numerator + 9999)) (ArithmeticOverflow ''rounding percentile rank'')) (\<lambda>n.
        Inr (values ! min (n div 10000 - 1) (length values - 1)))))"

definition weighted_bps :: "int \<Rightarrow> u16 \<Rightarrow> int \<Rightarrow> u16 \<Rightarrow> analytics_error + int" where
  "weighted_bps left left_bps right right_bps =
     map_ok (\<lambda>v. v div 10000) (ok_or
       (case checked_u128 (left * int left_bps) of None \<Rightarrow> None
        | Some v \<Rightarrow> (case checked_u128 (right * int right_bps) of None \<Rightarrow> None
          | Some w \<Rightarrow> checked_u128 (v + w)))
       (ArithmeticOverflow ''calculating adaptive threshold''))"

definition scaled_size :: "int \<Rightarrow> int \<Rightarrow> u16 \<Rightarrow> u16 \<Rightarrow> analytics_error + u16" where
  "scaled_size strength cap min_size max_size =
     (let cap = max cap 1; rng = int (max_size - min_size) in
      and_then (ok_or (checked_u128 (min strength cap * rng)) (ArithmeticOverflow ''calculating bubble size'')) (\<lambda>v.
      ok_or (checked_uint 16 (nat (int min_size + v div cap))) (ArithmeticOverflow ''converting bubble size'')))"

text \<open>The strengths one historical candle contributes to the samples of a filter and segment.\<close>

definition candle_samples ::
    "grid_spec \<Rightarrow> bubble_filter \<Rightarrow> market_segment \<Rightarrow> int list \<Rightarrow> candle_flow \<Rightarrow> analytics_error + int list" where
  "candle_samples g f segment samples candle =
     and_then (candidate_keys candle g) (\<lambda>keys.
     try_fold (\<lambda>samples (key, _).
       if fst key \<noteq> segment then Inr samples
       else
         and_then (aggregate_for candle key (bf_sources f) g) (\<lambda>a.
           if ag_sources a = [] then Inr samples
           else and_then (strength_units a (bf_mode f)) (\<lambda>s.
             Inr (if bf_mode f \<noteq> DeltaMode \<or> 0 < s then samples @ [s] else samples))))
       samples keys)"

definition detector_baseline ::
    "bubble_detector \<Rightarrow> bubble_filter \<Rightarrow> market_segment \<Rightarrow> analytics_error + threshold_baseline" where
  "detector_baseline d f segment =
     (case bf_threshold f of
        ThresholdOff \<Rightarrow> Inr BaselineOff
      | ThresholdManual q \<Rightarrow>
          and_then (quantity_units_of (bd_grid d) q) (\<lambda>units.
          map_ok BaselineManual (to_u128 units ''converting manual threshold''))
      | ThresholdAdaptive c \<Rightarrow>
          and_then (transpose_opt (quantity_units_of (bd_grid d)) (at_minimum_floor c)) (\<lambda>units.
          and_then (transpose_opt (\<lambda>u. to_u128 u ''converting adaptive floor'') units) (\<lambda>floor_units.
          let lower = unwrap_or floor_units 0 in
          and_then (try_fold (candle_samples (bd_grid d) f segment) []
                      (take (at_calibration_candles c) (rev (bd_history d)))) (\<lambda>samples.
          if length samples < at_minimum_samples c then
            Inr (BaselineFloorOnly (if 0 < lower then Some lower else None))
          else
            let samples = sort samples in
            and_then (percentile samples (at_outlier_cap_percentile_bps c)) (\<lambda>cap.
            let samples = sort (map (\<lambda>s. min s cap) samples) in
            and_then (percentile samples (percentile_bps (at_preset c) (at_custom_percentile_bps c))) (\<lambda>historical.
            Inr (BaselineAdaptive lower cap historical (10000 - at_spike_adaptation_bps c)
                   (at_spike_adaptation_bps c))))))))"

fun threshold_units :: "threshold_baseline \<Rightarrow> int \<Rightarrow> analytics_error + int option" where
  "threshold_units BaselineOff _ = Inr None"
| "threshold_units (BaselineManual t) _ = Inr (Some t)"
| "threshold_units (BaselineFloorOnly t) _ = Inr t"
| "threshold_units (BaselineAdaptive lower cap historical hw sw) current =
     map_ok (\<lambda>v. Some (max v lower)) (weighted_bps historical hw (min current cap) sw)"

section \<open>Identifiers\<close>

definition hash_bytes :: "w64 \<Rightarrow> 8 word list \<Rightarrow> w64" where
  "hash_bytes h bytes = foldl (\<lambda>h b. (xor h (ucast b)) * 1099511628211) h bytes"

definition fnv_offset :: w64 where "fnv_offset = 14695981039346656037"

definition bubble_id :: "i64 \<Rightarrow> instrument_id \<Rightarrow> market_segment \<Rightarrow> price_bucket \<Rightarrow> bubble_tier \<Rightarrow> w64" where
  "bubble_id start instrument segment bucket tier =
     hash_bytes (hash_bytes (hash_bytes (hash_bytes (hash_bytes fnv_offset (le_bytes 8 start))
       (le_bytes 4 (int (instrument_number instrument)))) [word_of_nat (segment_index segment)])
       (le_bytes 16 bucket)) [word_of_nat (tier_priority tier)]"

section \<open>Materialisation\<close>

definition style_cap :: "bubble_style \<Rightarrow> bubble_mode \<Rightarrow> quantity" where
  "style_cap s mode = (case mode of VolumeMode \<Rightarrow> bs_volume_cap s | DeltaMode \<Rightarrow> bs_delta_cap s)"

definition materialize ::
    "bubble_detector \<Rightarrow> candle_flow \<Rightarrow> bubble_tier \<Rightarrow> bubble_filter \<Rightarrow> aggregate \<Rightarrow> int \<Rightarrow> int \<Rightarrow>
     analytics_error + order_flow_bubble" where
  "materialize d candle tier f a strength threshold =
     (let g = bd_grid d; style = bf_style f in
      and_then (delta_units a) (\<lambda>delta.
      and_then (quantity_units_of g (style_cap style (bf_mode f))) (\<lambda>cap_units.
      and_then (to_u128 cap_units ''converting bubble strength cap'') (\<lambda>cap.
      and_then (ok_or (checked_i128 strength) (ArithmeticOverflow ''converting bubble strength'')) (\<lambda>strength_i128.
      and_then (ok_or (checked_i128 threshold) (ArithmeticOverflow ''converting bubble threshold'')) (\<lambda>threshold_i128.
      and_then (price_at g (ag_bucket a)) (\<lambda>anchor.
      and_then (aggregate_direction a) (\<lambda>direction.
      and_then (quantity_at g (ag_buy_units a)) (\<lambda>buy.
      and_then (quantity_at g (ag_sell_units a)) (\<lambda>sell.
      and_then (quantity_at g (ag_unknown_units a)) (\<lambda>unk.
      and_then (quantity_at g (ag_total_units a)) (\<lambda>tot.
      and_then (scaled_size strength cap (bs_min_size style) (bs_max_size style)) (\<lambda>size.
      Inr \<lparr>ob_id = bubble_id (cf_start_ts candle) (cf_instrument candle) (ag_segment a) (ag_bucket a) tier,
           ob_instrument = cf_instrument candle, ob_candle_start_ns = cf_start_ts candle,
           ob_candle_end_ns = cf_end_ts candle, ob_segment = ag_segment a, ob_sources = ag_sources a,
           ob_tier = tier, ob_mode = bf_mode f, ob_direction = direction, ob_anchor_price = anchor,
           ob_low_price = anchor, ob_high_price = anchor, ob_buy_volume = buy, ob_sell_volume = sell,
           ob_unknown_volume = unk, ob_total_volume = tot, ob_delta = fixed_new delta (g_quantity_scale g),
           ob_strength = fixed_new strength_i128 (g_quantity_scale g),
           ob_threshold = fixed_new threshold_i128 (g_quantity_scale g), ob_visual_size = size,
           ob_label = (case bs_label_mode style of LabelOff \<Rightarrow> None
             | LabelRaw \<Rightarrow> Some (fixed_new (case bf_mode f of VolumeMode \<Rightarrow> strength_i128 | DeltaMode \<Rightarrow> delta)
                 (g_quantity_scale g))),
           ob_shape = bs_shape style, ob_merged_count = 1\<rparr>)))))))))))))"

section \<open>Merging\<close>

text \<open>\<^verbatim>\<open>compare_price\<close> compares coefficients.\<close>

definition compare_price :: "price \<Rightarrow> price \<Rightarrow> ordering" where
  "compare_price l r = ord_cmp (coefficient (price_fixed l)) (coefficient (price_fixed r))"

definition merge_order :: "order_flow_bubble \<Rightarrow> order_flow_bubble \<Rightarrow> ordering" where
  "merge_order l r =
     then_with (ord_cmp (ob_segment l) (ob_segment r))
     (then_with (ord_cmp (direction_index (ob_direction l)) (direction_index (ob_direction r)))
     (then_with (compare_price (ob_anchor_price l) (ob_anchor_price r))
     (then_with (ord_cmp (tier_priority (ob_tier r)) (tier_priority (ob_tier l)))
     (ord_cmp (ob_id l) (ob_id r)))))"

definition strength_coeff :: "order_flow_bubble \<Rightarrow> i128" where
  "strength_coeff b = coefficient (ob_strength b)"

definition anchor_order :: "order_flow_bubble \<Rightarrow> order_flow_bubble \<Rightarrow> ordering" where
  "anchor_order l r =
     then_with (ord_cmp (strength_coeff l) (strength_coeff r)) (compare_price (ob_anchor_price r) (ob_anchor_price l))"

record merge_sums =
  ms_sources :: "(venue_id \<times> unit) list"
  ms_buy :: i128
  ms_sell :: i128
  ms_unknown :: i128
  ms_total :: i128
  ms_strength :: i128
  ms_low :: price
  ms_high :: price
  ms_tier :: bubble_tier

definition merge_one :: "grid_spec \<Rightarrow> merge_sums \<Rightarrow> order_flow_bubble \<Rightarrow> analytics_error + merge_sums" where
  "merge_one g m b =
     and_then (non_negative_quantity_units g (ob_buy_volume b)) (\<lambda>v.
     and_then (add_i128 (ms_buy m) v ''merging buy volume'') (\<lambda>buy.
     and_then (non_negative_quantity_units g (ob_sell_volume b)) (\<lambda>v.
     and_then (add_i128 (ms_sell m) v ''merging sell volume'') (\<lambda>sell.
     and_then (non_negative_quantity_units g (ob_unknown_volume b)) (\<lambda>v.
     and_then (add_i128 (ms_unknown m) v ''merging unknown volume'') (\<lambda>unk.
     and_then (quantity_units_of g (ob_total_volume b)) (\<lambda>v.
     and_then (add_i128 (ms_total m) v ''merging total volume'') (\<lambda>tot.
     and_then (add_i128 (ms_strength m) (strength_coeff b) ''merging bubble strength'') (\<lambda>strength.
     Inr \<lparr>ms_sources = fold (\<lambda>v. bt_insert v ()) (ob_sources b) (ms_sources m), ms_buy = buy, ms_sell = sell,
          ms_unknown = unk, ms_total = tot, ms_strength = strength, ms_low = min_price (ms_low m) (ob_low_price b),
          ms_high = max_price (ms_high m) (ob_high_price b),
          ms_tier = (if tier_priority (ms_tier m) < tier_priority (ob_tier b) then ob_tier b else ms_tier m)\<rparr>)))))))))"

definition merge_group :: "bubble_detector \<Rightarrow> order_flow_bubble list \<Rightarrow> analytics_error + order_flow_bubble" where
  "merge_group d grp =
     (let g = bd_grid d; style = mc_style (bc_merge (bd_config d)) in
      and_then (ok_or (max_by anchor_order grp) (InvalidConfig ''merge group'' ''must not be empty'')) (\<lambda>anchor.
      and_then (try_fold (merge_one g)
          \<lparr>ms_sources = [], ms_buy = 0, ms_sell = 0, ms_unknown = 0, ms_total = 0, ms_strength = 0,
           ms_low = ob_low_price (hd grp), ms_high = ob_high_price (hd grp), ms_tier = F1\<rparr> grp) (\<lambda>m.
      and_then (ok_or (checked_i128 (ms_buy m - ms_sell m)) (ArithmeticOverflow ''merging bubble delta'')) (\<lambda>delta.
      and_then (quantity_units_of g (style_cap style (ob_mode anchor))) (\<lambda>cap_units.
      and_then (to_u128 cap_units ''converting merged bubble cap'') (\<lambda>cap.
      and_then (to_u128 (ms_strength m) ''converting merged bubble strength'') (\<lambda>strength_unsigned.
      and_then (quantity_at g (ms_buy m)) (\<lambda>buy.
      and_then (quantity_at g (ms_sell m)) (\<lambda>sell.
      and_then (quantity_at g (ms_unknown m)) (\<lambda>unk.
      and_then (quantity_at g (ms_total m)) (\<lambda>tot.
      and_then (scaled_size strength_unsigned cap (bs_min_size style) (bs_max_size style)) (\<lambda>size.
      and_then (ok_or (checked_uint 16 (length grp)) (ArithmeticOverflow ''converting merged bubble count'')) (\<lambda>count.
      Inr \<lparr>ob_id = foldl (\<lambda>h b. hash_bytes h (le_bytes 8 (uint (ob_id b)))) fnv_offset grp,
           ob_instrument = ob_instrument anchor, ob_candle_start_ns = ob_candle_start_ns anchor,
           ob_candle_end_ns = ob_candle_end_ns anchor, ob_segment = ob_segment anchor,
           ob_sources = map fst (ms_sources m), ob_tier = ms_tier m, ob_mode = ob_mode anchor,
           ob_direction = direction_of_delta delta, ob_anchor_price = ob_anchor_price anchor,
           ob_low_price = ms_low m, ob_high_price = ms_high m, ob_buy_volume = buy, ob_sell_volume = sell,
           ob_unknown_volume = unk, ob_total_volume = tot, ob_delta = fixed_new delta (g_quantity_scale g),
           ob_strength = fixed_new (ms_strength m) (g_quantity_scale g),
           ob_threshold = unwrap_or (max_by (\<lambda>l r. ord_cmp (coefficient l) (coefficient r)) (map ob_threshold grp)) fixed_zero,
           ob_visual_size = size,
           ob_label = (case bs_label_mode style of LabelOff \<Rightarrow> None
             | LabelRaw \<Rightarrow> Some (fixed_new (case ob_mode anchor of VolumeMode \<Rightarrow> ms_total m | DeltaMode \<Rightarrow> delta)
                 (g_quantity_scale g))),
           ob_shape = bs_shape style, ob_merged_count = count\<rparr>)))))))))))))"

text \<open>The inner loop: how far the group that starts with \<open>previous\<close> extends.\<close>

fun merge_run ::
    "bubble_detector \<Rightarrow> order_flow_bubble \<Rightarrow> order_flow_bubble list \<Rightarrow>
     analytics_error + order_flow_bubble list \<times> order_flow_bubble list" where
  "merge_run d previous [] = Inr ([], [])"
| "merge_run d previous (nxt # rest) =
     (if ob_segment previous \<noteq> ob_segment nxt \<or> ob_direction previous \<noteq> ob_direction nxt
         \<or> \<not> mc_enabled_tiers (bc_merge (bd_config d)) (ob_tier nxt) then Inr ([], nxt # rest)
      else
        and_then (price_bucket_of (bd_grid d) (ob_anchor_price previous)) (\<lambda>previous_bucket.
        and_then (price_bucket_of (bd_grid d) (ob_anchor_price nxt)) (\<lambda>next_bucket.
        and_then (ok_or (case checked_i128 (previous_bucket - next_bucket) of None \<Rightarrow> None
                         | Some x \<Rightarrow> checked_abs_i128 x) (ArithmeticOverflow ''calculating bubble merge distance'')) (\<lambda>distance.
        and_then (to_u128 distance ''converting bubble merge distance'') (\<lambda>distance.
        if int (mc_max_distance_buckets (bc_merge (bd_config d))) < distance then Inr ([], nxt # rest)
        else map_ok (\<lambda>(run, others). (nxt # run, others)) (merge_run d nxt rest))))))"

lemma merge_run_append: "merge_run d b bs = Inr (run, rest) \<Longrightarrow> bs = run @ rest"
proof (induction bs arbitrary: b run rest)
  case (Cons nxt more)
  from Cons.prems show ?case by (auto simp: result_iffs split: if_splits dest: Cons.IH)
qed simp

function merge_groups :: "bubble_detector \<Rightarrow> order_flow_bubble list \<Rightarrow> analytics_error + order_flow_bubble list" where
  "merge_groups d [] = Inr []"
| "merge_groups d (b # bs) =
     (if \<not> mc_enabled_tiers (bc_merge (bd_config d)) (ob_tier b) then map_ok (Cons b) (merge_groups d bs)
      else
        and_then (merge_run d b bs) (\<lambda>(run, rest).
        and_then (if run = [] then Inr b else merge_group d (b # run)) (\<lambda>m.
        map_ok (Cons m) (merge_groups d rest))))"
  by pat_completeness auto

termination
  by (relation "measure (\<lambda>(_, bs). length bs)") (auto dest: merge_run_append)

definition merge_bubbles :: "bubble_detector \<Rightarrow> order_flow_bubble list \<Rightarrow> analytics_error + order_flow_bubble list" where
  "merge_bubbles d bubbles = merge_groups d (sort_by merge_order bubbles)"

section \<open>Detection\<close>

definition active_tiers :: "bubble_detector \<Rightarrow> detection_phase \<Rightarrow> bubble_tier list" where
  "active_tiers d phase =
     (case (phase, bc_performance (bd_config d)) of
        (LivePhase, HighPerformance n _) \<Rightarrow> take n [F3, F2, F1]
      | _ \<Rightarrow> [F3, F2, F1])"

fun tier_filter :: "bubble_detector \<Rightarrow> bubble_tier \<Rightarrow> bubble_filter" where
  "tier_filter d F1 = bc_f1 (bd_config d)"
| "tier_filter d F2 = bc_f2 (bd_config d)"
| "tier_filter d F3 = bc_f3 (bd_config d)"

type_synonym baseline_cache = "bubble_tier \<times> market_segment \<Rightarrow> threshold_baseline option"

definition cached_baseline ::
    "bubble_detector \<Rightarrow> baseline_cache \<Rightarrow> bubble_tier \<Rightarrow> market_segment \<Rightarrow>
     analytics_error + threshold_baseline \<times> baseline_cache" where
  "cached_baseline d cache tier segment =
     (case cache (tier, segment) of
        Some b \<Rightarrow> Inr (b, cache)
      | None \<Rightarrow> map_ok (\<lambda>b. (b, cache((tier, segment) \<mapsto> b))) (detector_baseline d (tier_filter d tier) segment))"

text \<open>The tiers of one key, highest first, until one accepts it.\<close>

primrec detect_key ::
    "bubble_detector \<Rightarrow> candle_flow \<Rightarrow> candidate_key \<Rightarrow> bubble_tier list \<Rightarrow> baseline_cache \<Rightarrow>
     analytics_error + (bubble_tier \<times> order_flow_bubble) option \<times> baseline_cache" where
  "detect_key d candle key [] cache = Inr (None, cache)"
| "detect_key d candle key (tier # tiers) cache =
     (let f = tier_filter d tier in
      if bf_threshold f = ThresholdOff then detect_key d candle key tiers cache
      else
        and_then (aggregate_for candle key (bf_sources f) (bd_grid d)) (\<lambda>a.
        if ag_sources a = [] then detect_key d candle key tiers cache
        else
          and_then (strength_units a (bf_mode f)) (\<lambda>strength.
          if bf_mode f = DeltaMode \<and> strength = 0 then detect_key d candle key tiers cache
          else
            and_then (cached_baseline d cache tier (fst key)) (\<lambda>(baseline, cache).
            and_then (threshold_units baseline strength) (\<lambda>threshold.
            case threshold of
              None \<Rightarrow> detect_key d candle key tiers cache
            | Some t \<Rightarrow>
              if t \<le> strength then
                map_ok (\<lambda>b. (Some (tier, b), cache)) (materialize d candle tier f a strength t)
              else detect_key d candle key tiers cache)))))"

definition detect_step ::
    "bubble_detector \<Rightarrow> candle_flow \<Rightarrow> bubble_tier list \<Rightarrow>
     (bubble_tier \<Rightarrow> order_flow_bubble list) \<times> baseline_cache \<Rightarrow> candidate_key \<times> unit \<Rightarrow>
     analytics_error + (bubble_tier \<Rightarrow> order_flow_bubble list) \<times> baseline_cache" where
  "detect_step d candle tiers = (\<lambda>(by_tier, cache) (key, _).
     map_ok (\<lambda>(found, cache).
       (case found of None \<Rightarrow> by_tier | Some (tier, b) \<Rightarrow> by_tier(tier := by_tier tier @ [b]), cache))
       (detect_key d candle key tiers cache))"

definition row_order :: "order_flow_bubble \<Rightarrow> order_flow_bubble \<Rightarrow> ordering" where
  "row_order l r =
     then_with (ord_cmp (strength_coeff r) (strength_coeff l))
     (then_with (compare_price (ob_anchor_price l) (ob_anchor_price r)) (ord_cmp (ob_id l) (ob_id r)))"

definition output_order :: "order_flow_bubble \<Rightarrow> order_flow_bubble \<Rightarrow> ordering" where
  "output_order l r =
     then_with (ord_cmp (tier_priority (ob_tier r)) (tier_priority (ob_tier l)))
     (then_with (ord_cmp (strength_coeff r) (strength_coeff l))
     (then_with (ord_cmp (ob_segment l) (ob_segment r))
     (then_with (compare_price (ob_anchor_price l) (ob_anchor_price r)) (ord_cmp (ob_id l) (ob_id r)))))"

definition tier_rows :: "bubble_detector \<Rightarrow> (bubble_tier \<Rightarrow> order_flow_bubble list) \<Rightarrow> bubble_tier \<Rightarrow> order_flow_bubble list" where
  "tier_rows d by_tier tier =
     take (bf_max_bubbles_per_candle (tier_filter d tier)) (sort_by row_order (by_tier tier))"

definition merging_deferred :: "bubble_detector \<Rightarrow> detection_phase \<Rightarrow> bool" where
  "merging_deferred d phase \<longleftrightarrow>
     (case bc_performance (bd_config d) of HighPerformance _ defer_merge \<Rightarrow> defer_merge | _ \<Rightarrow> False) \<and> phase = LivePhase"

definition detect :: "bubble_detector \<Rightarrow> candle_flow \<Rightarrow> detection_phase \<Rightarrow> analytics_error + order_flow_bubble list" where
  "detect d candle phase =
     and_then (candidate_keys candle (bd_grid d)) (\<lambda>keys.
     and_then (try_fold (detect_step d candle (active_tiers d phase)) (\<lambda>_. [], Map.empty) keys) (\<lambda>(by_tier, _).
     let output = tier_rows d by_tier F3 @ tier_rows d by_tier F2 @ tier_rows d by_tier F1;
         enabled = mc_enabled_tiers (bc_merge (bd_config d))
     in map_ok (sort_by output_order)
          (if \<not> merging_deferred d phase \<and> (enabled F1 \<or> enabled F2 \<or> enabled F3) then merge_bubbles d output
           else Inr output)))"

definition detect_batch :: "bubble_detector \<Rightarrow> candle_flow \<Rightarrow> detection_phase \<Rightarrow> analytics_error + bubble_batch" where
  "detect_batch d candle phase =
     map_ok (\<lambda>bubbles. \<lparr>bb_candle_start_ns = cf_start_ts candle, bb_candle_end_ns = cf_end_ts candle,
       bb_phase = phase, bb_bubbles = bubbles\<rparr>) (detect d candle phase)"

section \<open>History\<close>

primrec pop_history :: "usize \<Rightarrow> candle_flow list \<Rightarrow> candle_flow list" where
  "pop_history limit [] = []"
| "pop_history limit (c # cs) = (if limit < length (c # cs) then pop_history limit cs else c # cs)"

definition record_finalized :: "bubble_detector \<Rightarrow> candle_flow \<Rightarrow> (analytics_error + unit) \<times> bubble_detector" where
  "record_finalized d candle =
     (if cf_state candle \<noteq> FinalFlow then
        (Inl (InvalidConfig ''finalized bubble history'' ''only finalized candles may be recorded''), d)
      else
        case bd_last_finalized_start_ns d of
          Some lst \<Rightarrow>
            if cf_start_ts candle \<le> lst then (Inl (LateTrade (cf_start_ts candle) lst), d)
            else (Inr (), d\<lparr>bd_history := pop_history (bc_max_history_candles (bd_config d)) (bd_history d @ [candle]),
                            bd_last_finalized_start_ns := Some (cf_start_ts candle)\<rparr>)
        | None \<Rightarrow>
            (Inr (), d\<lparr>bd_history := pop_history (bc_max_history_candles (bd_config d)) (bd_history d @ [candle]),
                       bd_last_finalized_start_ns := Some (cf_start_ts candle)\<rparr>))"

fun validate_history :: "i64 option \<Rightarrow> candle_flow list \<Rightarrow> analytics_error + unit" where
  "validate_history previous [] = Inr ()"
| "validate_history previous (c # cs) =
     (if cf_state c \<noteq> FinalFlow then Inl (CorruptSnapshot ''bubble history contains a live candle'')
      else if (case previous of None \<Rightarrow> False | Some v \<Rightarrow> cf_start_ts c \<le> v) then
        Inl (CorruptSnapshot ''bubble history is not strictly ordered'')
      else validate_history (Some (cf_start_ts c)) cs)"

definition detector_validate :: "bubble_detector \<Rightarrow> analytics_error + unit" where
  "detector_validate d =
     and_then (grid_validate (bd_grid d)) (\<lambda>_. and_then (bubble_config_validate (bd_config d)) (\<lambda>_.
       if bc_max_history_candles (bd_config d) < length (bd_history d) then
         Inl (CorruptSnapshot ''bubble history exceeds capacity'')
       else validate_history None (bd_history d)))"

section \<open>Sizes and percentiles\<close>

text \<open>
  The rendered size of a bubble is always within the style's bounds: it is the minimum for strength
  zero, the maximum from the cap on, and never shrinks as the strength grows.  The computation succeeds
  whenever the scaled product fits 128 bits.
\<close>

theorem bubble_size_bounds:
  assumes "bubble_style_validate style = Inr ()" and "bs_max_size style < 2 ^ 16" and "0 \<le> s" and "s \<le> t"
    and "min t (max cap 1) * 2 ^ 16 < 2 ^ 128"
  shows "\<exists>n m. scaled_size s cap (bs_min_size style) (bs_max_size style) = Inr n \<and>
    scaled_size t cap (bs_min_size style) (bs_max_size style) = Inr m \<and>
    bs_min_size style \<le> n \<and> n \<le> m \<and> m \<le> bs_max_size style \<and>
    (s = 0 \<longrightarrow> n = bs_min_size style) \<and> (max cap 1 \<le> t \<longrightarrow> m = bs_max_size style)"
proof -
  let ?lo = "bs_min_size style" and ?hi = "bs_max_size style"
  define c where "c = max cap 1"
  define r where "r = int (?hi - ?lo)"
  have sizes: "?lo \<le> ?hi" using assms(1)
    by (auto simp: bubble_style_validate_def bubble_style_new_def result_iffs split: if_splits)
  have c: "0 < c" and r: "0 \<le> r" "r < 2 ^ 16" "int ?lo + r = int ?hi"
    using sizes assms(2) by (auto simp: c_def r_def)
  have le: "min x c * r div c \<le> r" for x
    using zdiv_mono1 [of "min x c * r" "c * r" c] mult_right_mono [of "min x c" c r] c r by simp
  have size: "scaled_size x cap ?lo ?hi = Inr (nat (int ?lo + min x c * r div c))" if "0 \<le> x" "x \<le> t" for x
  proof -
    have "min x c * r \<le> min t c * 2 ^ 16" using that c r by (intro mult_mono) auto
    moreover have "0 \<le> min x c * r" using that c r by simp
    ultimately have "checked_u128 (min x c * r) = Some (min x c * r)"
      using assms(5) unfolding c_def [symmetric] by (simp add: checked_u128_def)
    moreover note le [of x]
    moreover have "0 \<le> min x c * r div c" using that c r by (simp add: pos_imp_zdiv_nonneg_iff)
    ultimately show ?thesis
      using r assms(2) by (auto simp: scaled_size_def Let_def c_def [symmetric] r_def [symmetric] checked_uint_def nat_less_iff)
  qed
  have mono: "min s c * r div c \<le> min t c * r div c"
    using assms(4) c r by (intro zdiv_mono1 mult_right_mono) auto
  have bounds: "0 \<le> min s c * r div c" "min t c * r div c \<le> r"
    using assms(3) c r le [of t] by (simp_all add: pos_imp_zdiv_nonneg_iff)
  have full: "min t c * r div c = r" if "c \<le> t" using that c by simp
  have zero: "min s c * r div c = 0" if "s = 0" using that c by simp
  define x y where "x = min s c * r div c" and "y = min t c * r div c"
  have run: "scaled_size s cap ?lo ?hi = Inr (nat (int ?lo + x))" "scaled_size t cap ?lo ?hi = Inr (nat (int ?lo + y))"
    using size assms(3,4) by (simp_all add: x_def y_def)
  show ?thesis
    unfolding c_def [symmetric] run
    using mono bounds full zero r unfolding x_def [symmetric] y_def [symmetric]
    by (intro exI conjI refl) auto
qed

section \<open>The finalized history\<close>

lemma pop_history_eq: "pop_history n h = drop (length h - n) h"
  by (induction h) (auto simp: Suc_diff_le)

text \<open>\<open>detector_reach cs d\<close>: recording the candles \<open>cs\<close>, refused ones left out, leads from a new detector to \<open>d\<close>.\<close>

inductive detector_reach :: "candle_flow list \<Rightarrow> bubble_detector \<Rightarrow> bool" where
  fresh: "detector_new g c = Inr d \<Longrightarrow> detector_reach [] d"
| recorded: "detector_reach cs d \<Longrightarrow> record_finalized d candle = (Inr (), d') \<Longrightarrow> detector_reach (cs @ [candle]) d'"
| unrecorded: "detector_reach cs d \<Longrightarrow> record_finalized d candle = (Inl e, d') \<Longrightarrow> detector_reach cs d'"

definition history_inv :: "candle_flow list \<Rightarrow> bubble_detector \<Rightarrow> bool" where
  "history_inv cs d \<longleftrightarrow>
     bd_history d = drop (length cs - bc_max_history_candles (bd_config d)) cs \<and>
     sorted_wrt (<) (map cf_start_ts cs) \<and> (\<forall>c \<in> set cs. cf_state c = FinalFlow) \<and>
     bd_last_finalized_start_ns d = (if cs = [] then None else Some (cf_start_ts (last cs))) \<and>
     grid_validate (bd_grid d) = Inr () \<and> bubble_config_validate (bd_config d) = Inr ()"

lemma record_finalized_Inr:
  assumes "record_finalized d candle = (Inr (), d')"
  shows "cf_state candle = FinalFlow"
    and "bd_last_finalized_start_ns d = Some lst \<Longrightarrow> lst < cf_start_ts candle"
    and "d' = d\<lparr>bd_history := pop_history (bc_max_history_candles (bd_config d)) (bd_history d @ [candle]),
               bd_last_finalized_start_ns := Some (cf_start_ts candle)\<rparr>"
  using assms by (auto simp: record_finalized_def split: if_splits option.splits)

lemma pop_history_snoc: "pop_history n (drop (length h - n) h @ [c]) = drop (length (h @ [c]) - n) (h @ [c])"
  unfolding pop_history_eq by (rule drop_last_snoc)

lemma sorted_last_less:
  "sorted_wrt (<) (map f xs) \<Longrightarrow> (xs \<noteq> [] \<Longrightarrow> f (last xs) < v) \<Longrightarrow> \<forall>x \<in> set xs. f x < (v :: int)"
  by (cases xs rule: rev_cases) (auto simp: sorted_wrt_append)

lemma detector_reach_inv: "detector_reach cs d \<Longrightarrow> history_inv cs d"
proof (induction rule: detector_reach.induct)
  case (fresh g c d)
  then show ?case by (auto simp: detector_new_def history_inv_def result_iffs)
next
  case (recorded cs d candle d')
  note step = record_finalized_Inr [OF recorded(2)]
  have "\<forall>c \<in> set cs. cf_start_ts c < cf_start_ts candle"
    using recorded(3) step(2) by (intro sorted_last_less) (auto simp: history_inv_def)
  then have "sorted_wrt (<) (map cf_start_ts (cs @ [candle]))"
    using recorded(3) by (auto simp: history_inv_def sorted_wrt_append)
  moreover have "bd_history d' = drop (length (cs @ [candle]) - bc_max_history_candles (bd_config d)) (cs @ [candle])"
    using recorded(3) using pop_history_snoc by (simp add: step(3) history_inv_def)
  ultimately show ?case
    using recorded(3) step(1) by (simp add: history_inv_def step(3))
next
  case (unrecorded cs d candle e d')
  then show ?case by (auto simp: record_finalized_def split: if_splits option.splits)
qed

lemma validate_history_ok:
  "sorted_wrt (<) (map cf_start_ts cs) \<Longrightarrow> \<forall>c \<in> set cs. cf_state c = FinalFlow \<Longrightarrow>
     (case prev of None \<Rightarrow> True | Some v \<Rightarrow> \<forall>c \<in> set cs. v < cf_start_ts c) \<Longrightarrow> validate_history prev cs = Inr ()"
  by (induction cs arbitrary: prev) (auto split: option.splits)

text \<open>
  A detector's history is exactly the most recent candles it accepted, up to its capacity, all of
  them final and strictly ordered by start; every such detector passes its own validation.
\<close>

theorem detector_history_exact:
  assumes "detector_reach cs d"
  shows "bd_history d = drop (length cs - bc_max_history_candles (bd_config d)) cs \<and>
    sorted_wrt (<) (map cf_start_ts (bd_history d)) \<and> detector_validate d = Inr ()"
proof -
  have inv: "history_inv cs d" using assms by (rule detector_reach_inv)
  let ?k = "length cs - bc_max_history_candles (bd_config d)"
  have h: "bd_history d = drop ?k cs" and "sorted_wrt (<) (map cf_start_ts cs)" and final: "\<forall>c \<in> set cs. cf_state c = FinalFlow"
    using inv by (simp_all add: history_inv_def)
  then have sorted: "sorted_wrt (<) (map cf_start_ts (drop ?k cs))" by (simp add: sorted_wrt_drop flip: drop_map)
  have "validate_history None (drop ?k cs) = Inr ()"
    using sorted final by (intro validate_history_ok) (auto dest: in_set_dropD)
  with inv h sorted show ?thesis by (simp add: history_inv_def detector_validate_def)
qed

section \<open>The baseline cache\<close>

text \<open>Detection without the cache: the threshold baseline is recomputed for every key.\<close>

primrec accept_key ::
    "bubble_detector \<Rightarrow> candle_flow \<Rightarrow> candidate_key \<Rightarrow> bubble_tier list \<Rightarrow>
     analytics_error + (bubble_tier \<times> order_flow_bubble) option" where
  "accept_key d candle key [] = Inr None"
| "accept_key d candle key (tier # tiers) =
     (let f = tier_filter d tier in
      if bf_threshold f = ThresholdOff then accept_key d candle key tiers
      else
        and_then (aggregate_for candle key (bf_sources f) (bd_grid d)) (\<lambda>a.
        if ag_sources a = [] then accept_key d candle key tiers
        else
          and_then (strength_units a (bf_mode f)) (\<lambda>strength.
          if bf_mode f = DeltaMode \<and> strength = 0 then accept_key d candle key tiers
          else
            and_then (detector_baseline d f (fst key)) (\<lambda>baseline.
            and_then (threshold_units baseline strength) (\<lambda>threshold.
            case threshold of
              None \<Rightarrow> accept_key d candle key tiers
            | Some t \<Rightarrow>
              if t \<le> strength then map_ok (\<lambda>b. Some (tier, b)) (materialize d candle tier f a strength t)
              else accept_key d candle key tiers)))))"

definition cache_ok :: "bubble_detector \<Rightarrow> baseline_cache \<Rightarrow> bool" where
  "cache_ok d cache \<longleftrightarrow> (\<forall>tier segment b. cache (tier, segment) = Some b \<longrightarrow>
     detector_baseline d (tier_filter d tier) segment = Inr b)"

text \<open>A result with a cache agrees with a plain result, and the cache it leaves is sound.\<close>

definition cached_agrees ::
    "bubble_detector \<Rightarrow> (analytics_error + 'a \<times> baseline_cache) \<Rightarrow> (analytics_error + 'a) \<Rightarrow> bool" where
  "cached_agrees d r plain \<longleftrightarrow> map_ok fst r = plain \<and> (\<forall>x cache. r = Inr (x, cache) \<longrightarrow> cache_ok d cache)"

lemma cached_baseline_agrees:
  "cache_ok d cache \<Longrightarrow> cached_agrees d (cached_baseline d cache tier segment) (detector_baseline d (tier_filter d tier) segment)"
  by (cases "cache (tier, segment)"; cases "detector_baseline d (tier_filter d tier) segment")
    (auto simp: cached_agrees_def cached_baseline_def cache_ok_def)

lemma cached_agrees_bind:
  assumes "cached_agrees d r plain" and "\<And>x cache. cache_ok d cache \<Longrightarrow> cached_agrees d (k (x, cache)) (k' x)"
  shows "cached_agrees d (and_then r k) (and_then plain k')"
  using assms by (cases r) (auto simp: cached_agrees_def)

lemma cached_agrees_lift:
  assumes "\<And>x. cached_agrees d (k x) (k' x)"
  shows "cached_agrees d (and_then r k) (and_then r k')"
  using assms by (cases r) (auto simp: cached_agrees_def)

lemma detect_key_agrees:
  "cache_ok d cache \<Longrightarrow> cached_agrees d (detect_key d candle key tiers cache) (accept_key d candle key tiers)"
proof (induction tiers arbitrary: cache)
  case (Cons tier tiers)
  have found: "cached_agrees d (map_ok (\<lambda>b. (Some (tier, b), c)) r) (map_ok (\<lambda>b. Some (tier, b)) r)" if "cache_ok d c" for c r
    using that by (cases r) (auto simp: cached_agrees_def)
  show ?case
    using Cons by (auto simp: Let_def found intro!: cached_agrees_lift cached_agrees_bind [OF cached_baseline_agrees]
        split: option.split)
qed (simp add: cached_agrees_def)

section \<open>The orders of the detector are total\<close>

lemma total_compare_key_down: "total_compare (\<lambda>a b. ord_cmp (key b) (key a))"
  by (rule total_compare_reverse [OF total_compare_key])

lemmas key_orders = total_compare_then total_compare_key total_compare_key_down

interpretation row: total_compare row_order
  unfolding row_order_def [abs_def] compare_price_def by (intro key_orders)

interpretation emitted: total_compare output_order
  unfolding output_order_def [abs_def] compare_price_def by (intro key_orders)

interpretation anchor: total_compare anchor_order
  unfolding anchor_order_def [abs_def] compare_price_def by (intro key_orders)

interpretation merging: total_compare merge_order
  unfolding merge_order_def [abs_def] compare_price_def by (intro key_orders)

section \<open>Detection without the cache\<close>

definition some_of :: "'a option list \<Rightarrow> 'a list" where
  "some_of xs = map the (filter (\<lambda>x. x \<noteq> None) xs)"

lemma some_of_simps [simp]: "some_of [] = []" "some_of (None # xs) = some_of xs" "some_of (Some x # xs) = x # some_of xs"
  by (simp_all add: some_of_def)

lemma set_some_of: "x \<in> set (some_of xs) \<longleftrightarrow> Some x \<in> set xs"
  by (force simp: some_of_def image_iff)

definition winners ::
    "bubble_detector \<Rightarrow> candle_flow \<Rightarrow> bubble_tier list \<Rightarrow> (candidate_key \<times> unit) list \<Rightarrow>
     analytics_error + (bubble_tier \<times> order_flow_bubble) list" where
  "winners d candle tiers keys = map_ok some_of (try_map (\<lambda>k. accept_key d candle (fst k) tiers) keys)"

definition of_tier :: "(bubble_tier \<times> order_flow_bubble) list \<Rightarrow> bubble_tier \<Rightarrow> order_flow_bubble list" where
  "of_tier ws tier = map snd (filter (\<lambda>w. fst w = tier) ws)"

definition reference_detect ::
    "bubble_detector \<Rightarrow> candle_flow \<Rightarrow> detection_phase \<Rightarrow> analytics_error + order_flow_bubble list" where
  "reference_detect d candle phase =
     and_then (candidate_keys candle (bd_grid d)) (\<lambda>keys.
     and_then (winners d candle (active_tiers d phase) keys) (\<lambda>ws.
     let output = concat (map (tier_rows d (of_tier ws)) [F3, F2, F1]);
         enabled = mc_enabled_tiers (bc_merge (bd_config d))
     in map_ok (sort_by output_order)
          (if \<not> merging_deferred d phase \<and> (\<exists>tier \<in> {F1, F2, F3}. enabled tier) then merge_bubbles d output
           else Inr output)))"

lemma of_tier_simps [simp]:
  "of_tier [] = (\<lambda>_. [])" "of_tier (w # ws) = (\<lambda>t. if fst w = t then snd w # of_tier ws t else of_tier ws t)"
  by (auto simp: of_tier_def)

lemma detect_fold:
  "cache_ok d cache \<Longrightarrow>
     map_ok fst (try_fold (detect_step d candle tiers) (by_tier, cache) keys) =
     map_ok (\<lambda>ws t. by_tier t @ of_tier ws t) (winners d candle tiers keys)"
proof (induction keys arbitrary: by_tier cache)
  case Nil
  then show ?case by (simp add: winners_def)
next
  case (Cons key keys)
  obtain k where key: "key = (k, ())" by (cases key) simp
  have agrees: "cached_agrees d (detect_key d candle k tiers cache) (accept_key d candle k tiers)"
    using Cons.prems by (rule detect_key_agrees)
  show ?case
  proof (cases "detect_key d candle k tiers cache")
    case (Inl e)
    then have "accept_key d candle k tiers = Inl e" using agrees by (simp add: cached_agrees_def)
    with Inl show ?thesis by (simp add: key detect_step_def winners_def)
  next
    case (Inr r)
    obtain found c where r: "r = (found, c)" by (cases r)
    have plain: "accept_key d candle k tiers = Inr found" and ok: "cache_ok d c"
      using agrees Inr r by (auto simp: cached_agrees_def)
    define bt where "bt = (case found of None \<Rightarrow> by_tier | Some (tier, b) \<Rightarrow> by_tier(tier := by_tier tier @ [b]))"
    have "map_ok fst (try_fold (detect_step d candle tiers) (bt, c) keys) =
        map_ok (\<lambda>ws t. bt t @ of_tier ws t) (winners d candle tiers keys)" using ok by (rule Cons.IH)
    then show ?thesis
      using Inr plain
      by (cases "try_map (\<lambda>k. accept_key d candle (fst k) tiers) keys")
        (auto simp: key r detect_step_def winners_def bt_def fun_eq_iff split: option.split)
  qed
qed

lemma detect_reference_eq: "detect d candle phase = reference_detect d candle phase"
proof (cases "candidate_keys candle (bd_grid d)")
  case (Inr keys)
  let ?run = "try_fold (detect_step d candle (active_tiers d phase)) (\<lambda>_. [], Map.empty) keys"
  have fold: "map_ok fst ?run = map_ok of_tier (winners d candle (active_tiers d phase) keys)"
    using detect_fold [of d Map.empty candle "active_tiers d phase" "\<lambda>_. []" keys] by (simp add: cache_ok_def)
  show ?thesis
    using fold Inr
    by (cases ?run; cases "winners d candle (active_tiers d phase) keys") (auto simp: detect_def reference_detect_def Let_def)
qed (simp add: detect_def reference_detect_def)

text \<open>
  C21: Caching the threshold baselines per tier and segment changes nothing: detection, errors included,
  equals the definition that recomputes the baseline for every price level.
\<close>

theorem detect_is_reference: "detect d candle phase = reference_detect d candle phase"
  by (rule detect_reference_eq)

section \<open>Strict priority\<close>

lemma accept_key_Cons:
  "accept_key d candle key (t # ts) =
     and_then (accept_key d candle key [t]) (\<lambda>r. case r of None \<Rightarrow> accept_key d candle key ts | Some w \<Rightarrow> Inr (Some w))"
proof -
  have bind: "and_then (and_then r k) h = and_then r (\<lambda>x. and_then (k x) h)"
    for r :: "analytics_error + 'x" and k :: "'x \<Rightarrow> analytics_error + 'y" and h :: "'y \<Rightarrow> analytics_error + 'z"
    by (cases r) simp_all
  have found: "and_then (map_ok (\<lambda>b. Some (t, b)) r) (\<lambda>r. case r of None \<Rightarrow> n | Some w \<Rightarrow> Inr (Some w)) = map_ok (\<lambda>b. Some (t, b)) r"
    for r :: "analytics_error + order_flow_bubble" and n by (cases r) simp_all
  show ?thesis
    by (auto simp: Let_def bind found intro!: and_then_cong split: option.split)
qed

text \<open>One tier's verdict on one key.\<close>

definition tier_verdict ::
    "bubble_detector \<Rightarrow> candle_flow \<Rightarrow> candidate_key \<Rightarrow> bubble_tier \<Rightarrow> analytics_error + order_flow_bubble option" where
  "tier_verdict d candle key tier = map_ok (map_option snd) (accept_key d candle key [tier])"

lemma materialize_fields:
  "materialize d candle tier f a s t = Inr b \<Longrightarrow>
     ob_tier b = tier \<and> coefficient (ob_strength b) = s \<and> coefficient (ob_threshold b) = t \<and> ob_segment b = ag_segment a \<and>
     price_at (bd_grid d) (ag_bucket a) = Inr (ob_anchor_price b)"
  by (auto simp: materialize_def Let_def result_iffs)

lemma aggregate_for_key: "aggregate_for candle key sel g = Inr a \<Longrightarrow> ag_segment a = fst key \<and> ag_bucket a = snd key"
  by (auto simp: aggregate_for_def result_iffs)

lemma accept_one:
  assumes "accept_key d candle key [t] = Inr (Some w)"
  shows "fst w = t \<and> ob_tier (snd w) = t \<and> coefficient (ob_threshold (snd w)) \<le> coefficient (ob_strength (snd w)) \<and>
    ob_segment (snd w) = fst key \<and> price_at (bd_grid d) (snd key) = Inr (ob_anchor_price (snd w))"
  using assms
  by (auto simp: Let_def and_then_Inr_iff map_ok_Inr_iff split: if_splits option.splits dest!: materialize_fields aggregate_for_key)

declare accept_key.simps(2) [simp del]

lemma tier_verdict_Some:
  assumes "tier_verdict d candle key t = Inr (Some b)"
  shows "ob_tier b = t \<and> coefficient (ob_threshold b) \<le> coefficient (ob_strength b) \<and> ob_segment b = fst key \<and>
    price_at (bd_grid d) (snd key) = Inr (ob_anchor_price b)"
proof -
  obtain r where r: "accept_key d candle key [t] = Inr r" "map_option snd r = Some b"
    using assms unfolding tier_verdict_def map_ok_Inr_iff by metis
  then obtain w where "r = Some w" "snd w = b" by auto
  with r accept_one show ?thesis by blast
qed

lemma accept_key_first:
  assumes "accept_key d candle key ts = Inr (Some (t, b))"
  shows "\<exists>higher lower. ts = higher @ t # lower \<and> tier_verdict d candle key t = Inr (Some b) \<and>
    (\<forall>u \<in> set higher. tier_verdict d candle key u = Inr None)"
  using assms
proof (induction ts)
  case (Cons u ts)
  from Cons.prems obtain r where r: "accept_key d candle key [u] = Inr r"
    and rest: "(case r of None \<Rightarrow> accept_key d candle key ts | Some w \<Rightarrow> Inr (Some w)) = Inr (Some (t, b))"
    unfolding accept_key_Cons [of d candle key u ts] and_then_Inr_iff by blast
  show ?case
  proof (cases r)
    case None
    then obtain higher lower where "ts = higher @ t # lower" "tier_verdict d candle key t = Inr (Some b)"
      "\<forall>u \<in> set higher. tier_verdict d candle key u = Inr None" using Cons.IH rest by auto
    then have "u # ts = (u # higher) @ t # lower \<and> tier_verdict d candle key t = Inr (Some b) \<and>
        (\<forall>v \<in> set (u # higher). tier_verdict d candle key v = Inr None)" using r None by (simp add: tier_verdict_def)
    then show ?thesis by blast
  next
    case (Some w)
    then have w: "w = (t, b)" using rest by simp
    then have "u = t" using accept_one r Some by fastforce
    then show ?thesis using r Some w by (intro exI [of _ "[]"] exI [of _ ts]) (simp add: tier_verdict_def)
  qed
qed simp

lemma winners_from_keys:
  assumes "winners d candle tiers keys = Inr ws" and "w \<in> set ws"
  shows "\<exists>k \<in> set keys. accept_key d candle (fst k) tiers = Inr (Some w)"
proof -
  obtain rs where rs: "list_all2 (\<lambda>k r. accept_key d candle (fst k) tiers = Inr r) keys rs" "ws = some_of rs"
    using assms(1) by (auto simp: winners_def map_ok_Inr_iff try_map_Inr_iff)
  then have "Some w \<in> set rs" using assms(2) by (simp add: set_some_of)
  then obtain i where "i < length rs" "rs ! i = Some w" by (auto simp: in_set_conv_nth)
  with rs(1) show ?thesis by (intro bexI [of _ "keys ! i"]) (auto simp: list_all2_conv_all_nth)
qed

lemma winner_tier:
  assumes "winners d candle tiers keys = Inr ws" and "b \<in> set (of_tier ws t)"
  shows "ob_tier b = t" and "\<exists>k \<in> set keys. accept_key d candle (fst k) tiers = Inr (Some (t, b))"
proof -
  have "(t, b) \<in> set ws" using assms(2) by (auto simp: of_tier_def)
  then show found: "\<exists>k \<in> set keys. accept_key d candle (fst k) tiers = Inr (Some (t, b))"
    using winners_from_keys [OF assms(1)] by simp
  then obtain k :: "candidate_key \<times> unit" where "accept_key d candle (fst k) tiers = Inr (Some (t, b))" by blast
  from accept_key_first [OF this] have "tier_verdict d candle (fst k) t = Inr (Some b)" by blast
  then show "ob_tier b = t" using tier_verdict_Some by blast
qed

text \<open>What is kept of a sorted list is no worse than what is cut.\<close>

lemma take_sort_by:
  assumes "x \<in> set xs" and "x \<notin> set (take n (sort_by row_order xs))"
  shows "length (take n (sort_by row_order xs)) = n \<and> (\<forall>y \<in> set (take n (sort_by row_order xs)). row_order y x \<noteq> GreaterThan)"
proof -
  let ?s = "sort_by row_order xs"
  have split: "take n ?s @ drop n ?s = ?s" by simp
  have "x \<in> set ?s" using assms(1) by simp
  then have x: "x \<in> set (drop n ?s)" using assms(2) by (metis Un_iff set_append split)
  then have "n < length ?s" by (metis drop_all empty_iff list.set(1) not_less)
  moreover have "sorted_wrt (\<lambda>a b. row_order a b \<noteq> GreaterThan) (take n ?s @ drop n ?s)"
    unfolding split by (rule row.sorted_sort_by)
  ultimately show ?thesis using x unfolding sorted_wrt_append by simp
qed

definition unmerged :: "bubble_detector \<Rightarrow> detection_phase \<Rightarrow> bool" where
  "unmerged d phase \<longleftrightarrow> merging_deferred d phase \<or> \<not> (\<exists>tier \<in> {F1, F2, F3}. mc_enabled_tiers (bc_merge (bd_config d)) tier)"

lemma filter_concat_rows:
  assumes "winners d candle tiers keys = Inr ws"
  shows "filter (\<lambda>b. ob_tier b = t) (concat (map (tier_rows d (of_tier ws)) [F3, F2, F1])) = tier_rows d (of_tier ws) t"
proof -
  have mem: "b \<in> set (tier_rows d (of_tier ws) u) \<Longrightarrow> ob_tier b = u" for b u
    using winner_tier(1) [OF assms] by (auto simp: tier_rows_def dest!: in_set_takeD)
  have "filter (\<lambda>b. ob_tier b = t) (tier_rows d (of_tier ws) u) = (if u = t then tier_rows d (of_tier ws) u else [])" for u
    using mem by (auto simp: filter_empty_conv filter_id_conv)
  then show ?thesis by (cases t) simp_all
qed

lemma unmerged_output:
  assumes "reference_detect d candle phase = Inr out" and "unmerged d phase"
  shows "\<exists>keys ws. candidate_keys candle (bd_grid d) = Inr keys \<and> winners d candle (active_tiers d phase) keys = Inr ws \<and>
    out = sort_by output_order (concat (map (tier_rows d (of_tier ws)) [F3, F2, F1]))"
  using assms by (auto simp: reference_detect_def unmerged_def and_then_Inr_iff map_ok_Inr_iff Let_def simp del: concat.simps split: if_splits)

lemma winners_complete:
  assumes "winners d candle tiers keys = Inr ws" and "k \<in> set keys" and "accept_key d candle (fst k) tiers = Inr (Some w)"
  shows "w \<in> set ws"
proof -
  obtain rs where rs: "list_all2 (\<lambda>k r. accept_key d candle (fst k) tiers = Inr r) keys rs" "ws = some_of rs"
    using assms(1) by (auto simp: winners_def map_ok_Inr_iff try_map_Inr_iff)
  obtain i where i: "i < length keys" "keys ! i = k" using assms(2) by (auto simp: in_set_conv_nth)
  then have "rs ! i = Some w" "i < length rs" using rs(1) assms(3) by (auto simp: list_all2_conv_all_nth)
  then have "Some w \<in> set rs" by (metis nth_mem)
  then show ?thesis by (simp add: rs(2) set_some_of)
qed

text \<open>
  C22: Detection is strict priority.  With merging off or deferred, every published bubble is the verdict
  of its own tier on one price level, its strength reaches its threshold, and every higher active tier
  declined that level; no tier publishes more than its limit, and a level that is missing from a tier it
  was assigned to was displaced by bubbles that rank before it; the list is ordered by tier, strength,
  segment, price and identifier.
\<close>

theorem detect_strict_priority:
  assumes "detect d candle phase = Inr out" and "unmerged d phase"
  shows "sorted_wrt (\<lambda>a b. output_order a b \<noteq> GreaterThan) out \<and>
    (\<forall>b \<in> set out. \<exists>key higher lower. active_tiers d phase = higher @ ob_tier b # lower \<and>
      tier_verdict d candle key (ob_tier b) = Inr (Some b) \<and> (\<forall>u \<in> set higher. tier_verdict d candle key u = Inr None) \<and>
      coefficient (ob_threshold b) \<le> coefficient (ob_strength b)) \<and>
    (\<forall>t. length (filter (\<lambda>b. ob_tier b = t) out) \<le> bf_max_bubbles_per_candle (tier_filter d t)) \<and>
    (\<forall>keys k t b. candidate_keys candle (bd_grid d) = Inr keys \<and> k \<in> fst ` set keys \<and>
      accept_key d candle k (active_tiers d phase) = Inr (Some (t, b)) \<and> b \<notin> set out \<longrightarrow>
      length (filter (\<lambda>b. ob_tier b = t) out) = bf_max_bubbles_per_candle (tier_filter d t) \<and>
      (\<forall>c \<in> set out. ob_tier c = t \<longrightarrow> row_order c b \<noteq> GreaterThan))"
proof -
  obtain keys ws where keys: "candidate_keys candle (bd_grid d) = Inr keys"
    and ws: "winners d candle (active_tiers d phase) keys = Inr ws"
    and out: "out = sort_by output_order (concat (map (tier_rows d (of_tier ws)) [F3, F2, F1]))"
    using unmerged_output assms unfolding detect_reference_eq by blast
  note rows = filter_concat_rows [OF ws]
  have in_rows: "b \<in> set out \<and> ob_tier b = t \<longleftrightarrow> b \<in> set (tier_rows d (of_tier ws) t)" for b t
    unfolding out set_sort_by rows [symmetric, of t] set_filter by blast
  have count: "length (filter (\<lambda>b. ob_tier b = t) out) = length (tier_rows d (of_tier ws) t)" for t
    unfolding out length_filter_sort_by rows ..
  have found: "\<exists>key higher lower. active_tiers d phase = higher @ ob_tier b # lower \<and>
      tier_verdict d candle key (ob_tier b) = Inr (Some b) \<and> (\<forall>u \<in> set higher. tier_verdict d candle key u = Inr None) \<and>
      coefficient (ob_threshold b) \<le> coefficient (ob_strength b)" if "b \<in> set out" for b
  proof -
    have "b \<in> set (of_tier ws (ob_tier b))"
      using that in_rows [of b "ob_tier b"] by (auto simp: tier_rows_def dest: in_set_takeD)
    from winner_tier(2) [OF ws this] obtain k :: "candidate_key \<times> unit"
      where "accept_key d candle (fst k) (active_tiers d phase) = Inr (Some (ob_tier b, b))" by blast
    from accept_key_first [OF this] tier_verdict_Some show ?thesis by blast
  qed
  have cut: "length (filter (\<lambda>b. ob_tier b = t) out) = bf_max_bubbles_per_candle (tier_filter d t) \<and>
      (\<forall>c \<in> set out. ob_tier c = t \<longrightarrow> row_order c b \<noteq> GreaterThan)"
    if "k \<in> fst ` set keys" "accept_key d candle k (active_tiers d phase) = Inr (Some (t, b))" "b \<notin> set out" for k t b
  proof -
    have "(t, b) \<in> set ws" using that winners_complete [OF ws] by auto
    then have b: "b \<in> set (of_tier ws t)" by (force simp: of_tier_def)
    have "b \<notin> set (tier_rows d (of_tier ws) t)" using that(3) in_rows by blast
    from take_sort_by [OF b this [unfolded tier_rows_def]] show ?thesis
      using in_rows unfolding count tier_rows_def by blast
  qed
  have "sorted_wrt (\<lambda>a b. output_order a b \<noteq> GreaterThan) out" unfolding out by (rule emitted.sorted_sort_by)
  moreover have "length (filter (\<lambda>b. ob_tier b = t) out) \<le> bf_max_bubbles_per_candle (tier_filter d t)" for t
    unfolding count by (simp add: tier_rows_def)
  moreover have "keys' = keys" if "candidate_keys candle (bd_grid d) = Inr keys'" for keys' using keys that by simp
  ultimately show ?thesis using found cut by blast
qed

section \<open>Merging conserves what it merges\<close>

definition bubble_scaled :: "grid_spec \<Rightarrow> order_flow_bubble \<Rightarrow> bool" where
  "bubble_scaled g b \<longleftrightarrow>
     list_all (\<lambda>q. scale (quantity_fixed q) = g_quantity_scale g)
       [ob_buy_volume b, ob_sell_volume b, ob_unknown_volume b, ob_total_volume b]"

lemma rescale_same: "scale f = s \<Longrightarrow> rescale f s ExactOnly = Inr f"
  by (simp add: rescale_def)

lemma scaled_units:
  "scale (quantity_fixed q) = g_quantity_scale g \<Longrightarrow> non_negative_quantity_units g q = Inr u \<Longrightarrow> u = lots q"
  "scale (quantity_fixed q) = g_quantity_scale g \<Longrightarrow> quantity_units_of g q = Inr u \<Longrightarrow> u = lots q"
  by (auto simp: quantity_units_of_def non_negative_quantity_units_def rescale_same result_iffs split: if_splits)

lemma set_insert_sources: "bt_ok m \<Longrightarrow> bt_ok (fold (\<lambda>v. bt_insert v ()) vs m) \<and>
    fst ` set (fold (\<lambda>v. bt_insert v ()) vs m) = fst ` set m \<union> set vs"
proof (induction vs arbitrary: m)
  case (Cons v vs)
  have "fst ` set (bt_insert v () m) = insert v (fst ` set m)" using Cons.prems by (force simp: set_bt_insert)
  with Cons.IH [of "bt_insert v () m"] Cons.prems show ?case by (simp add: bt_ok_insert)
qed simp

text \<open>The running sums of a group.\<close>

definition sums_over :: "merge_sums \<Rightarrow> order_flow_bubble list \<Rightarrow> merge_sums \<Rightarrow> bool" where
  "sums_over m bs n \<longleftrightarrow>
     ms_buy n = ms_buy m + (\<Sum>b\<leftarrow>bs. lots (ob_buy_volume b)) \<and> ms_sell n = ms_sell m + (\<Sum>b\<leftarrow>bs. lots (ob_sell_volume b)) \<and>
     ms_unknown n = ms_unknown m + (\<Sum>b\<leftarrow>bs. lots (ob_unknown_volume b)) \<and>
     ms_total n = ms_total m + (\<Sum>b\<leftarrow>bs. lots (ob_total_volume b)) \<and>
     ms_strength n = ms_strength m + (\<Sum>b\<leftarrow>bs. strength_coeff b) \<and>
     bt_ok (ms_sources n) \<and> fst ` set (ms_sources n) = fst ` set (ms_sources m) \<union> (\<Union>b \<in> set bs. set (ob_sources b))"

lemma merge_one_sums:
  assumes "merge_one g m b = Inr n" and "bubble_scaled g b" and "bt_ok (ms_sources m)"
  shows "sums_over m [b] n"
proof -
  have scales: "scale (quantity_fixed (ob_buy_volume b)) = g_quantity_scale g"
    "scale (quantity_fixed (ob_sell_volume b)) = g_quantity_scale g"
    "scale (quantity_fixed (ob_unknown_volume b)) = g_quantity_scale g"
    "scale (quantity_fixed (ob_total_volume b)) = g_quantity_scale g"
    using assms(2) by (simp_all add: bubble_scaled_def)
  obtain buy sell unk tot where
    "non_negative_quantity_units g (ob_buy_volume b) = Inr buy" "non_negative_quantity_units g (ob_sell_volume b) = Inr sell"
    "non_negative_quantity_units g (ob_unknown_volume b) = Inr unk" "quantity_units_of g (ob_total_volume b) = Inr tot"
    and n: "ms_buy n = ms_buy m + buy" "ms_sell n = ms_sell m + sell" "ms_unknown n = ms_unknown m + unk"
      "ms_total n = ms_total m + tot" "ms_strength n = ms_strength m + strength_coeff b"
      "ms_sources n = fold (\<lambda>v. bt_insert v ()) (ob_sources b) (ms_sources m)"
    using assms(1) by (auto simp: merge_one_def result_iffs)
  with scaled_units(1) [OF scales(1)] scaled_units(1) [OF scales(2)] scaled_units(1) [OF scales(3)]
    scaled_units(2) [OF scales(4)] set_insert_sources [OF assms(3), of "ob_sources b"]
  show ?thesis unfolding sums_over_def by simp
qed

lemma merge_fold_sums:
  "try_fold (merge_one g) m bs = Inr n \<Longrightarrow> \<forall>b \<in> set bs. bubble_scaled g b \<Longrightarrow> bt_ok (ms_sources m) \<Longrightarrow> sums_over m bs n"
proof (induction bs arbitrary: m)
  case Nil
  then show ?case by (simp add: sums_over_def)
next
  case (Cons b bs)
  then obtain k where k: "merge_one g m b = Inr k" "try_fold (merge_one g) k bs = Inr n" by (auto simp: and_then_Inr_iff)
  have one: "sums_over m [b] k" using Cons.prems k by (intro merge_one_sums) auto
  then have "bt_ok (ms_sources k)" by (simp add: sums_over_def)
  with Cons k have "sums_over k bs n" by auto
  with one show ?case by (auto simp: sums_over_def)
qed

definition same_volumes :: "order_flow_bubble list \<Rightarrow> order_flow_bubble list \<Rightarrow> bool" where
  "same_volumes xs ys \<longleftrightarrow>
     (\<Sum>b\<leftarrow>xs. lots (ob_buy_volume b)) = (\<Sum>b\<leftarrow>ys. lots (ob_buy_volume b)) \<and>
     (\<Sum>b\<leftarrow>xs. lots (ob_sell_volume b)) = (\<Sum>b\<leftarrow>ys. lots (ob_sell_volume b)) \<and>
     (\<Sum>b\<leftarrow>xs. lots (ob_unknown_volume b)) = (\<Sum>b\<leftarrow>ys. lots (ob_unknown_volume b)) \<and>
     (\<Sum>b\<leftarrow>xs. lots (ob_total_volume b)) = (\<Sum>b\<leftarrow>ys. lots (ob_total_volume b)) \<and>
     (\<Sum>b\<leftarrow>xs. strength_coeff b) = (\<Sum>b\<leftarrow>ys. strength_coeff b) \<and>
     (\<Union>b \<in> set xs. set (ob_sources b)) = (\<Union>b \<in> set ys. set (ob_sources b))"

lemma same_volumes_Cons:
  "same_volumes [m] grp \<Longrightarrow> same_volumes xs ys \<Longrightarrow> same_volumes (m # xs) (grp @ ys)"
  by (simp add: same_volumes_def)

lemma merge_group_sums:
  assumes "merge_group d grp = Inr m" and "\<forall>b \<in> set grp. bubble_scaled (bd_grid d) b"
  shows "same_volumes [m] grp \<and> ob_merged_count m = length grp"
proof -
  let ?init = "\<lparr>ms_sources = [], ms_buy = 0, ms_sell = 0, ms_unknown = 0, ms_total = 0, ms_strength = 0,
    ms_low = ob_low_price (hd grp), ms_high = ob_high_price (hd grp), ms_tier = F1\<rparr>"
  obtain n where n: "try_fold (merge_one (bd_grid d)) ?init grp = Inr n"
    and m: "lots (ob_buy_volume m) = ms_buy n" "lots (ob_sell_volume m) = ms_sell n" "lots (ob_unknown_volume m) = ms_unknown n"
      "lots (ob_total_volume m) = ms_total n" "strength_coeff m = ms_strength n" "ob_sources m = map fst (ms_sources n)"
      "ob_merged_count m = length grp"
    using assms(1) by (auto simp: merge_group_def Let_def result_iffs strength_coeff_def dest!: quantity_at_Inr)
  have "sums_over ?init grp n" using n assms(2) by (rule merge_fold_sums) simp
  then show ?thesis by (simp add: same_volumes_def sums_over_def m)
qed

lemma merge_groups_sums:
  "merge_groups d bs = Inr out \<Longrightarrow> \<forall>b \<in> set bs. bubble_scaled (bd_grid d) b \<and> ob_merged_count b = 1 \<Longrightarrow>
     same_volumes out bs \<and> (\<Sum>b\<leftarrow>out. ob_merged_count b) = length bs"
proof (induction d bs arbitrary: out rule: merge_groups.induct)
  case (1 d)
  then show ?case by (simp add: same_volumes_def)
next
  case (2 d b bs)
  show ?case
  proof (cases "mc_enabled_tiers (bc_merge (bd_config d)) (ob_tier b)")
    case False
    then obtain rest where rest: "merge_groups d bs = Inr rest" "out = b # rest" using 2(3) by (auto simp: map_ok_Inr_iff)
    with 2(1) [OF False, of rest] 2(4) show ?thesis by (simp add: same_volumes_def)
  next
    case True
    then obtain run others m rest where run: "merge_run d b bs = Inr (run, others)"
      and m: "(if run = [] then Inr b else merge_group d (b # run)) = Inr m"
      and rest: "merge_groups d others = Inr rest" and out: "out = m # rest"
      using 2(3) by (auto simp: map_ok_Inr_iff and_then_Inr_iff split: prod.splits)
    have bs: "bs = run @ others" using run by (rule merge_run_append)
    have "same_volumes [m] (b # run) \<and> ob_merged_count m = length (b # run)"
      using m 2(4) merge_group_sums [of d "b # run" m] by (auto simp: bs same_volumes_def split: if_splits)
    moreover have "same_volumes rest others \<and> (\<Sum>b\<leftarrow>rest. ob_merged_count b) = length others"
      using 2(2) [OF _ run refl m rest] True 2(4) by (auto simp: bs)
    ultimately show ?thesis using same_volumes_Cons [of m "b # run" rest others] by (simp add: out bs)
  qed
qed

lemma same_volumes_mset:
  assumes "mset ys = mset zs"
  shows "same_volumes xs ys = same_volumes xs zs"
proof -
  have "(\<Sum>b\<leftarrow>ys. f b) = (\<Sum>b\<leftarrow>zs. f b)" for f :: "order_flow_bubble \<Rightarrow> int"
    using assms by (metis mset_map sum_mset_sum_list)
  moreover have "set ys = set zs" using assms by (metis set_mset_mset)
  ultimately show ?thesis unfolding same_volumes_def by simp
qed

text \<open>
  C23: Merging neither invents nor loses anything: over the merged list buy, sell, unknown and total
  volume and strength add up to those of the bubbles given, the contributing venues are the same, and
  the merged counts add up to the number of bubbles given.
\<close>

theorem merge_conserves:
  assumes "merge_bubbles d bs = Inr out" and "\<forall>b \<in> set bs. bubble_scaled (bd_grid d) b \<and> ob_merged_count b = 1"
  shows "same_volumes out bs \<and> (\<Sum>b\<leftarrow>out. ob_merged_count b) = length bs"
  using merge_groups_sums [OF assms(1) [unfolded merge_bubbles_def]] assms(2)
    same_volumes_mset [OF mset_sort_by] by simp

section \<open>A concrete detector\<close>

abbreviation (input) small_quantity :: "int \<Rightarrow> quantity" where
  "small_quantity q \<equiv> Quantity \<lparr>coefficient = q, scale = 0\<rparr>"

definition sample_style :: bubble_style where
  "sample_style = \<lparr>bs_shape = Circle, bs_min_size = 8, bs_max_size = 48, bs_volume_cap = small_quantity 10,
     bs_delta_cap = small_quantity 10, bs_label_mode = LabelRaw\<rparr>"

definition sample_filter :: "bubble_tier \<Rightarrow> threshold_mode \<Rightarrow> bubble_filter" where
  "sample_filter tier threshold = \<lparr>bf_tier = tier, bf_mode = VolumeMode, bf_threshold = threshold,
     bf_sources = selector_all, bf_max_bubbles_per_candle = 1, bf_style = sample_style\<rparr>"

definition sample_detector :: "bool \<Rightarrow> bubble_detector" where
  "sample_detector merge =
     \<lparr>bd_grid = fb_grid sample_flow_builder,
      bd_config = \<lparr>bc_f1 = sample_filter F1 ThresholdOff, bc_f2 = sample_filter F2 (ThresholdManual (small_quantity 3)),
        bc_f3 = sample_filter F3 (ThresholdManual (small_quantity 4)),
        bc_merge = \<lparr>mc_enabled_tiers = (\<lambda>_. merge), mc_max_distance_buckets = 1, mc_style = sample_style\<rparr>,
        bc_performance = FullPerformance, bc_max_history_candles = 2\<rparr>,
      bd_history = [], bd_last_finalized_start_ns = None\<rparr>"

definition sample_level :: "int \<Rightarrow> int \<Rightarrow> price_level_flow" where
  "sample_level price q = \<lparr>pl_price = Price \<lparr>coefficient = price, scale = 0\<rparr>, pl_buy_volume = small_quantity q,
     pl_sell_volume = small_quantity 0, pl_unknown_volume = small_quantity 0, pl_total_volume = small_quantity q,
     pl_delta = \<lparr>coefficient = q, scale = 0\<rparr>, pl_trade_count = 1, pl_first_timestamp_ns = 1, pl_last_timestamp_ns = 1\<rparr>"

definition sample_candle :: candle_flow where
  "sample_candle =
     \<lparr>cf_schema_version = 1, cf_state = FinalFlow, cf_instrument = InstrumentId 7, cf_start_ts = 0, cf_end_ts = 60,
      cf_high = Some (Price \<lparr>coefficient = 20, scale = 0\<rparr>), cf_low = Some (Price \<lparr>coefficient = 10, scale = 0\<rparr>),
      cf_total_volume = small_quantity 7, cf_trade_count = 2,
      cf_sources = [\<lparr>sc_source = FlowSource (VenueId 1) SpotSegment, sc_high = None, sc_low = None,
        sc_buy_volume = small_quantity 7, sc_sell_volume = small_quantity 0, sc_unknown_volume = small_quantity 0,
        sc_total_volume = small_quantity 7, sc_delta = \<lparr>coefficient = 7, scale = 0\<rparr>, sc_trade_count = 2,
        sc_levels = [sample_level 10 3, sample_level 20 4]\<rparr>]\<rparr>"

lemmas sample_bubble_defs = sample_detector_def sample_filter_def sample_style_def sample_candle_def sample_level_def
  sample_flow_builder_def

theorem bubble_size_bounds_witness:
  "\<exists>n m. scaled_size 2 10 8 48 = Inr n \<and> scaled_size 12 10 8 48 = Inr m \<and> 8 \<le> n \<and> n \<le> m \<and> m = 48"
proof -
  have "bubble_style_validate sample_style = Inr ()" unfolding sample_style_def by code_simp
  from bubble_size_bounds [OF this, of 2 12 10] show ?thesis by (auto simp: sample_style_def)
qed

theorem detector_history_exact_witness:
  "bd_history (snd (record_finalized (sample_detector False) sample_candle)) = [sample_candle]"
proof -
  have "grid_validate (bd_grid (sample_detector False)) = Inr ()" "bubble_config_validate (bd_config (sample_detector False)) = Inr ()"
    unfolding sample_bubble_defs by code_simp+
  then have "detector_new (bd_grid (sample_detector False)) (bd_config (sample_detector False)) = Inr (sample_detector False)"
    by (simp add: detector_new_def) (simp add: sample_detector_def)
  moreover have "fst (record_finalized (sample_detector False) sample_candle) = Inr ()"
    unfolding sample_bubble_defs by code_simp
  then have "record_finalized (sample_detector False) sample_candle =
      (Inr (), snd (record_finalized (sample_detector False) sample_candle))" by (metis prod.collapse)
  ultimately have "detector_reach ([] @ [sample_candle]) (snd (record_finalized (sample_detector False) sample_candle))"
    by (intro recorded fresh)
  moreover have "bc_max_history_candles (bd_config (snd (record_finalized (sample_detector False) sample_candle))) = 2"
    unfolding sample_bubble_defs by code_simp
  ultimately show ?thesis using detector_history_exact [of "[] @ [sample_candle]"] by simp
qed

theorem detect_strict_priority_witness:
  "case detect (sample_detector False) sample_candle FinalPhase of Inl _ \<Rightarrow> False
   | Inr out \<Rightarrow> map ob_tier out = [F3, F2] \<and> map strength_coeff out = [4, 3] \<and>
       sorted_wrt (\<lambda>a b. output_order a b \<noteq> GreaterThan) out"
proof -
  let ?r = "detect (sample_detector False) sample_candle FinalPhase"
  have "case ?r of Inl _ \<Rightarrow> False | Inr out \<Rightarrow> map ob_tier out = [F3, F2] \<and> map strength_coeff out = [4, 3]"
    unfolding sample_bubble_defs by code_simp
  then obtain out where out: "?r = Inr out" "map ob_tier out = [F3, F2]" "map strength_coeff out = [4, 3]"
    by (cases ?r) auto
  have "unmerged (sample_detector False) FinalPhase" by (simp add: unmerged_def sample_detector_def)
  from detect_strict_priority [OF out(1) this] have "sorted_wrt (\<lambda>a b. output_order a b \<noteq> GreaterThan) out" by (rule conjunct1)
  with out show ?thesis by simp
qed

theorem merge_conserves_witness:
  "case detect (sample_detector False) sample_candle FinalPhase of Inl _ \<Rightarrow> False
   | Inr bs \<Rightarrow> (case merge_bubbles (sample_detector True) bs of Inl _ \<Rightarrow> False
     | Inr out \<Rightarrow> length out = 1 \<and> (\<Sum>b\<leftarrow>out. ob_merged_count b) = 2 \<and> same_volumes out bs)"
proof -
  let ?r = "detect (sample_detector False) sample_candle FinalPhase"
  have "case ?r of Inl _ \<Rightarrow> False | Inr bs \<Rightarrow> length bs = 2 \<and>
      list_all (\<lambda>b. bubble_scaled (bd_grid (sample_detector True)) b \<and> ob_merged_count b = 1) bs \<and>
      (case merge_bubbles (sample_detector True) bs of Inl _ \<Rightarrow> False | Inr out \<Rightarrow> length out = 1)"
    unfolding sample_bubble_defs by code_simp
  then obtain bs out where bs: "?r = Inr bs" "length bs = 2"
    "\<forall>b \<in> set bs. bubble_scaled (bd_grid (sample_detector True)) b \<and> ob_merged_count b = 1"
    and out: "merge_bubbles (sample_detector True) bs = Inr out" "length out = 1"
    by (auto simp: list_all_iff split: sum.splits)
  from merge_conserves [OF out(1) bs(3)] bs out show ?thesis by simp
qed

end
