(* ===== verification/Levels.thy ===== *)
theory Levels
  imports Bubbles
begin

text \<open>
  The structural-level engine of \<^verbatim>\<open>analytics/src/levels.rs\<close>: naked, reaction and top levels derived from
  finalized candles and their bubbles.  The levels of an engine are explained by the history of candles it
  accepted, bounded, and the top levels of a window are its strongest.
\<close>

section \<open>Data\<close>

datatype structural_level_kind = Naked | ReactionHigh | ReactionLow | TopDay | TopWeek

datatype structural_level_state = ActiveLevel | TouchedLevel

record structural_level =
  sl_id :: w64
  sl_kind :: structural_level_kind
  sl_state :: structural_level_state
  sl_source_bubble_id :: w64
  sl_direction :: bubble_direction
  sl_tier :: bubble_tier
  sl_price :: price
  sl_strength :: fixed
  sl_created_at_ns :: i64
  sl_touched_at_ns :: "i64 option"
  sl_window_start_ns :: "i64 option"
  sl_expires_at_ns :: "i64 option"

record structural_level_config =
  slc_touch_tolerance_ticks :: u32
  slc_max_levels :: usize
  slc_top_per_side :: usize

definition level_config_new :: "u32 \<Rightarrow> usize \<Rightarrow> usize \<Rightarrow> analytics_error + structural_level_config" where
  "level_config_new tolerance limit per_side =
     (if limit = 0 then Inl (InvalidConfig ''max_levels'' ''must be greater than zero'')
      else if per_side = 0 then Inl (InvalidConfig ''top_per_side'' ''must be greater than zero'')
      else
        and_then (ok_or (checked_uint 64 (per_side * 4))
          (InvalidConfig ''top_per_side'' ''is too large to reserve daily and weekly levels'')) (\<lambda>reserved.
        if limit < reserved then
          Inl (InvalidConfig ''max_levels'' ''must fit daily and weekly top levels for both sides'')
        else Inr \<lparr>slc_touch_tolerance_ticks = tolerance, slc_max_levels = limit, slc_top_per_side = per_side\<rparr>))"

record candle_frame =
  fr_candle :: candle_flow
  fr_bubbles :: "order_flow_bubble list"

record structural_level_engine =
  se_grid :: grid_spec
  se_config :: structural_level_config
  se_last_candle_start_ns :: "i64 option"
  se_frames :: "candle_frame list"
  se_pending_naked :: "order_flow_bubble list"
  se_levels :: "structural_level list"

definition DAY_NS :: i64 where "DAY_NS = 86400000000000"
definition WEEK_NS :: i64 where "WEEK_NS = 604800000000000"

section \<open>Operations\<close>

definition engine_new :: "grid_spec \<Rightarrow> structural_level_config \<Rightarrow> analytics_error + structural_level_engine" where
  "engine_new g c =
     and_then (grid_validate g) (\<lambda>_.
     and_then (level_config_new (slc_touch_tolerance_ticks c) (slc_max_levels c) (slc_top_per_side c)) (\<lambda>_.
     Inr \<lparr>se_grid = g, se_config = c, se_last_candle_start_ns = None, se_frames = [], se_pending_naked = [],
          se_levels = []\<rparr>))"

definition compare_fixed :: "fixed \<Rightarrow> fixed \<Rightarrow> ordering" where
  "compare_fixed l r =
     (if scale l = scale r then ord_cmp (coefficient l) (coefficient r)
      else
        let s = max (scale l) (scale r) in
        case (rescale l s ExactOnly, rescale r s ExactOnly) of
          (Inr l', Inr r') \<Rightarrow> ord_cmp (coefficient l') (coefficient r')
        | _ \<Rightarrow> then_with (ord_cmp (scale l) (scale r)) (ord_cmp (coefficient l) (coefficient r)))"

fun kind_number :: "structural_level_kind \<Rightarrow> w64" where
  "kind_number Naked = 1"
| "kind_number ReactionHigh = 2"
| "kind_number ReactionLow = 3"
| "kind_number TopDay = 4"
| "kind_number TopWeek = 5"

definition level_id :: "structural_level_kind \<Rightarrow> w64 \<Rightarrow> i64 \<Rightarrow> w64" where
  "level_id kind bubble salt =
     foldl (\<lambda>v part. (xor v part) * 0x00000100000001b3) 0xcbf29ce484222325 [kind_number kind, bubble, word_of_int salt]"

definition level_from_bubble ::
  "structural_level_kind \<Rightarrow> price \<Rightarrow> i64 \<Rightarrow> i64 option \<Rightarrow> i64 option \<Rightarrow> order_flow_bubble \<Rightarrow> structural_level" where
  "level_from_bubble kind p created window expires b =
     \<lparr>sl_id = level_id kind (ob_id b) (unwrap_or window created), sl_kind = kind, sl_state = ActiveLevel,
      sl_source_bubble_id = ob_id b, sl_direction = ob_direction b, sl_tier = ob_tier b, sl_price = p,
      sl_strength = ob_strength b, sl_created_at_ns = created, sl_touched_at_ns = None,
      sl_window_start_ns = window, sl_expires_at_ns = expires\<rparr>"

text \<open>Whether the tick range of a candle comes within the tolerance of a tick.\<close>

definition tick_touched :: "structural_level_config \<Rightarrow> i128 \<Rightarrow> i128 \<Rightarrow> i128 \<Rightarrow> bool" where
  "tick_touched c low high tick \<longleftrightarrow>
     low \<le> saturate_i128 (tick + int (slc_touch_tolerance_ticks c)) \<and>
     saturate_i128 (tick - int (slc_touch_tolerance_ticks c)) \<le> high"

text \<open>
  \<^verbatim>\<open>ingest_finalized\<close> runs the private methods on a clone and drops the clone on an error, so they return
  the new engine or the error alone.
\<close>

definition touch_level ::
  "structural_level_engine \<Rightarrow> candle_flow \<Rightarrow> i128 \<Rightarrow> i128 \<Rightarrow> structural_level \<Rightarrow> analytics_error + structural_level" where
  "touch_level e candle low high l =
     (if sl_state l \<noteq> ActiveLevel \<or> sl_kind l \<in> {TopDay, TopWeek} \<or> cf_end_ts candle \<le> sl_created_at_ns l then Inr l
      else
        and_then (price_tick_of (se_grid e) (sl_price l)) (\<lambda>tick.
        Inr (if tick_touched (se_config e) low high tick
             then l\<lparr>sl_state := TouchedLevel, sl_touched_at_ns := Some (cf_end_ts candle)\<rparr> else l)))"

definition touch_existing ::
  "structural_level_engine \<Rightarrow> candle_flow \<Rightarrow> i128 \<Rightarrow> i128 \<Rightarrow> analytics_error + structural_level_engine" where
  "touch_existing e candle low high =
     map_ok (\<lambda>ls. e\<lparr>se_levels := ls\<rparr>) (try_map (touch_level e candle low high) (se_levels e))"

definition activate_naked ::
  "structural_level_engine \<Rightarrow> candle_flow \<Rightarrow> i128 \<Rightarrow> i128 \<Rightarrow> analytics_error + structural_level_engine" where
  "activate_naked e candle low high =
     try_fold (\<lambda>e b.
         and_then (price_tick_of (se_grid e) (ob_anchor_price b)) (\<lambda>tick.
         Inr (if tick_touched (se_config e) low high tick then e
              else e\<lparr>se_levels := se_levels e @ [level_from_bubble Naked (ob_anchor_price b) (cf_end_ts candle) None None b]\<rparr>)))
       (e\<lparr>se_pending_naked := []\<rparr>) (se_pending_naked e)"

definition strongest_order :: "order_flow_bubble \<Rightarrow> order_flow_bubble \<Rightarrow> ordering" where
  "strongest_order l r = then_with (compare_fixed (ob_strength l) (ob_strength r)) (ord_cmp (ob_id r) (ob_id l))"

definition reaction_levels ::
  "bool \<Rightarrow> bool \<Rightarrow> price \<Rightarrow> price \<Rightarrow> i64 \<Rightarrow> order_flow_bubble \<Rightarrow> structural_level list" where
  "reaction_levels is_high is_low high low created b =
     (if is_high then [level_from_bubble ReactionHigh high created None None b] else []) @
     (if is_low then [level_from_bubble ReactionLow low created None None b] else [])"

definition confirm_reactions :: "structural_level_engine \<Rightarrow> analytics_error + structural_level_engine" where
  "confirm_reactions e =
     (case se_frames e of
        [left, center, right] \<Rightarrow>
          (case (cf_high (fr_candle left), cf_high (fr_candle center), cf_high (fr_candle right),
                 cf_low (fr_candle left), cf_low (fr_candle center), cf_low (fr_candle right)) of
             (Some lh, Some ch, Some rh, Some ll, Some cl, Some rl) \<Rightarrow>
               and_then (price_tick_of (se_grid e) lh) (\<lambda>lht. and_then (price_tick_of (se_grid e) ch) (\<lambda>cht.
               and_then (price_tick_of (se_grid e) rh) (\<lambda>rht. and_then (price_tick_of (se_grid e) ll) (\<lambda>llt.
               and_then (price_tick_of (se_grid e) cl) (\<lambda>clt. and_then (price_tick_of (se_grid e) rl) (\<lambda>rlt.
               Inr (case max_by strongest_order (fr_bubbles center) of
                  None \<Rightarrow> e
                | Some b \<Rightarrow> e\<lparr>se_levels := se_levels e @
                    reaction_levels (lht < cht \<and> rht < cht) (clt < llt \<and> clt < rlt) ch cl
                      (cf_end_ts (fr_candle right)) b\<rparr>)))))))
           | _ \<Rightarrow> Inr e)
      | _ \<Rightarrow> Inr e)"

text \<open>\<^verbatim>\<open>start.div_euclid(window) * window\<close> is an unchecked multiplication: it wraps to 64 bits.\<close>

definition wrap_i64 :: "int \<Rightarrow> i64" where
  "wrap_i64 x = sint (word_of_int x :: 64 word)"

definition window_start :: "i64 \<Rightarrow> i64 \<Rightarrow> i64" where
  "window_start ts window = wrap_i64 (div_euclid ts window * window)"

definition top_order :: "nat \<times> fixed \<times> w64 \<Rightarrow> nat \<times> fixed \<times> w64 \<Rightarrow> ordering" where
  "top_order a b =
     then_with (then_with (compare_fixed (fst (snd b)) (fst (snd a))) (ord_cmp (snd (snd a)) (snd (snd b))))
       (ord_cmp (fst a) (fst b))"

definition remove_at :: "nat \<Rightarrow> 'a list \<Rightarrow> 'a list" where
  "remove_at i xs = take i xs @ drop (Suc i) xs"

definition is_top :: "structural_level_kind \<Rightarrow> i64 \<Rightarrow> bubble_direction \<Rightarrow> structural_level \<Rightarrow> bool" where
  "is_top kind window direction l \<longleftrightarrow>
     sl_kind l = kind \<and> sl_window_start_ns l = Some window \<and> sl_direction l = direction"

definition top_matches ::
  "structural_level_kind \<Rightarrow> i64 \<Rightarrow> bubble_direction \<Rightarrow> structural_level list \<Rightarrow> (nat \<times> fixed \<times> w64) list" where
  "top_matches kind window direction ls =
     map (\<lambda>(i, l). (i, sl_strength l, sl_source_bubble_id l))
       (filter (\<lambda>(i, l). is_top kind window direction l) (enumerate 0 ls))"

definition trim_side ::
  "usize \<Rightarrow> structural_level_kind \<Rightarrow> i64 \<Rightarrow> structural_level list \<Rightarrow> bubble_direction \<Rightarrow> structural_level list" where
  "trim_side per_side kind window ls direction =
     (let remove = map fst (drop per_side (sort_by top_order (top_matches kind window direction ls)))
      in foldl (\<lambda>ls i. remove_at i ls) ls (rev (sort remove)))"

definition trim_top :: "structural_level_engine \<Rightarrow> structural_level_kind \<Rightarrow> i64 \<Rightarrow> structural_level_engine" where
  "trim_top e kind window =
     e\<lparr>se_levels := foldl (trim_side (slc_top_per_side (se_config e)) kind window) (se_levels e) [BuyBubble, SellBubble]\<rparr>"

definition update_window ::
  "candle_flow \<Rightarrow> order_flow_bubble list \<Rightarrow> structural_level_engine \<Rightarrow> structural_level_kind \<times> i64 \<Rightarrow>
   analytics_error + structural_level_engine" where
  "update_window candle bubbles e kw =
     (case kw of (kind, window_ns) \<Rightarrow>
       let window = window_start (cf_start_ts candle) window_ns in
       and_then (ok_or (checked_i64 (window + window_ns)) (ArithmeticOverflow ''calculating structural level expiry'')) (\<lambda>expires.
       Inr (trim_top
         (e\<lparr>se_levels := filter (\<lambda>l. sl_kind l \<noteq> kind \<or> sl_window_start_ns l = Some window) (se_levels e) @
            map (\<lambda>b. level_from_bubble kind (ob_anchor_price b) (cf_end_ts candle) (Some window) (Some expires) b) (filter (\<lambda>b. ob_direction b \<noteq> NeutralBubble) bubbles)\<rparr>)
         kind window)))"

definition update_top_levels ::
  "structural_level_engine \<Rightarrow> candle_flow \<Rightarrow> order_flow_bubble list \<Rightarrow> analytics_error + structural_level_engine" where
  "update_top_levels e candle bubbles =
     try_fold (update_window candle bubbles) e [(TopDay, DAY_NS), (TopWeek, WEEK_NS)]"

definition is_touched :: "structural_level \<Rightarrow> bool" where
  "is_touched l \<longleftrightarrow> sl_state l = TouchedLevel"

function evict :: "usize \<Rightarrow> structural_level list \<Rightarrow> structural_level list" where
  "evict limit ls =
     (if length ls \<le> limit then ls else evict limit (remove_at (unwrap_or (position is_touched ls) 0) ls))"
  by pat_completeness auto
termination
proof (relation "measure (length \<circ> snd)", simp, goal_cases)
  case (1 limit ls)
  then have "0 < length ls" by auto
  moreover have "position is_touched ls = Some i \<Longrightarrow> i < length ls" for i by (rule position_less)
  ultimately show ?case by (auto simp: remove_at_def split: option.split)
qed

declare evict.simps [simp del]

definition enforce_capacity :: "structural_level_engine \<Rightarrow> structural_level_engine" where
  "enforce_capacity e = e\<lparr>se_levels := evict (slc_max_levels (se_config e)) (se_levels e)\<rparr>"

definition check_bubble :: "grid_spec \<Rightarrow> candle_flow \<Rightarrow> order_flow_bubble \<Rightarrow> analytics_error + price_tick" where
  "check_bubble g candle b =
     (if ob_instrument b \<noteq> cf_instrument candle \<or> ob_candle_start_ns b \<noteq> cf_start_ts candle \<or>
         ob_candle_end_ns b \<noteq> cf_end_ts candle then
        Inl (CorruptSnapshot ''bubble does not belong to finalized candle'')
      else price_tick_of g (ob_anchor_price b))"

text \<open>The guards of \<^verbatim>\<open>ingest_checked\<close>, with the tick range of the candle as their result.\<close>

definition check_candle ::
  "structural_level_engine \<Rightarrow> candle_flow \<Rightarrow> order_flow_bubble list \<Rightarrow> analytics_error + i128 \<times> i128" where
  "check_candle e candle bubbles =
     (if cf_state candle \<noteq> FinalFlow then Inl (CorruptSnapshot ''structural levels require a finalized candle'')
      else
        and_then (case se_last_candle_start_ns e of
            None \<Rightarrow> Inr ()
          | Some previous \<Rightarrow>
              if cf_start_ts candle \<le> previous then Inl (LateTrade (cf_start_ts candle) (saturate_i64 (previous + 1)))
              else Inr ()) (\<lambda>_.
        and_then (try_map (check_bubble (se_grid e) candle) bubbles) (\<lambda>_.
        and_then (ok_or (cf_high candle) (CorruptSnapshot ''finalized candle is missing high'')) (\<lambda>high.
        and_then (ok_or (cf_low candle) (CorruptSnapshot ''finalized candle is missing low'')) (\<lambda>low.
        and_then (price_tick_of (se_grid e) high) (\<lambda>high_tick.
        and_then (price_tick_of (se_grid e) low) (\<lambda>low_tick.
        if high_tick < low_tick then Inl (CorruptSnapshot ''finalized candle low exceeds high'')
        else Inr (low_tick, high_tick))))))))"

primrec pop_frames :: "candle_frame list \<Rightarrow> candle_frame list" where
  "pop_frames [] = []"
| "pop_frames (f # fs) = (if 3 < length (f # fs) then pop_frames fs else f # fs)"

definition ingest_checked ::
  "structural_level_engine \<Rightarrow> candle_flow \<Rightarrow> order_flow_bubble list \<Rightarrow> analytics_error + structural_level_engine" where
  "ingest_checked e candle bubbles =
     and_then (check_candle e candle bubbles) (\<lambda>(low, high).
     and_then (touch_existing e candle low high) (\<lambda>e.
     and_then (activate_naked e candle low high) (\<lambda>e.
     and_then (confirm_reactions
       (e\<lparr>se_frames := pop_frames (se_frames e @ [\<lparr>fr_candle = candle, fr_bubbles = bubbles\<rparr>])\<rparr>)) (\<lambda>e.
     and_then (update_top_levels e candle bubbles) (\<lambda>e.
     Inr (enforce_capacity (e\<lparr>se_pending_naked := bubbles, se_last_candle_start_ns := Some (cf_start_ts candle)\<rparr>)))))))"

definition ingest_finalized ::
  "structural_level_engine \<Rightarrow> candle_flow \<Rightarrow> order_flow_bubble list \<Rightarrow>
   (analytics_error + unit) \<times> structural_level_engine" where
  "ingest_finalized e candle bubbles =
     (case ingest_checked e candle bubbles of
        Inl err \<Rightarrow> (Inl err, e)
      | Inr e' \<Rightarrow> (Inr (), e'))"

definition engine_snapshot :: "structural_level_engine \<Rightarrow> structural_level list" where
  "engine_snapshot e = se_levels e"

section \<open>Removal by index\<close>

lemma set_remove_at: "set (remove_at i xs) \<subseteq> set xs"
  by (auto simp: remove_at_def dest: in_set_takeD in_set_dropD)

lemma remove_at_nths:
  assumes "\<forall>j \<in> S. i < j"
  shows "remove_at i (nths xs (- S)) = nths xs (- insert i S)"
proof -
  have left: "nths (take i xs) (- S) = take i xs" "nths (take i xs) (- insert i S) = take i xs"
    using assms by (auto intro!: nths_all)
  show ?thesis
  proof (cases "i < length xs")
    case True
    have split: "xs = take i xs @ xs ! i # drop (Suc i) xs" using True by (rule id_take_nth_drop)
    have sets: "{j. Suc (j + i) \<notin> S} = {j. Suc j + i \<in> - S}" "{j. Suc (j + i) \<notin> insert i S} = {j. Suc j + i \<in> - insert i S}"
      by auto
    have a: "nths xs (- S) = take i xs @ xs ! i # nths (drop (Suc i) xs) {j. Suc (j + i) \<notin> S}"
      using True assms by (subst split) (auto simp: nths_append nths_Cons left)
    have "nths xs (- insert i S) = take i xs @ nths (drop (Suc i) xs) {j. Suc (j + i) \<notin> S}"
      using True by (subst split) (auto simp: nths_append nths_Cons left)
    with a True show ?thesis by (simp add: remove_at_def)
  next
    case False
    then have "nths xs (- S) = xs" "nths xs (- insert i S) = xs" using assms by (auto intro!: nths_all)
    with False show ?thesis by (simp add: remove_at_def)
  qed
qed

text \<open>Removing indices from the highest down leaves the elements at the other indices.\<close>

lemma remove_descending:
  "sorted_wrt (<) is \<Longrightarrow> foldl (\<lambda>xs i. remove_at i xs) xs (rev is) = nths xs (- set is)"
proof (induction "is")
  case (Cons i "is")
  then show ?case using remove_at_nths [of "set is" i xs] by simp
qed (simp add: nths_all)

lemma length_remove_at: "i < length xs \<Longrightarrow> length (remove_at i xs) = length xs - 1"
  by (simp add: remove_at_def)

section \<open>Eviction\<close>

text \<open>Removes the first \<open>k\<close> elements that satisfy a predicate.\<close>

fun drop_first :: "nat \<Rightarrow> ('a \<Rightarrow> bool) \<Rightarrow> 'a list \<Rightarrow> 'a list" where
  "drop_first 0 p xs = xs"
| "drop_first (Suc k) p [] = []"
| "drop_first (Suc k) p (x # xs) = (if p x then drop_first k p xs else x # drop_first (Suc k) p xs)"

lemma drop_first_none: "\<forall>x \<in> set xs. \<not> p x \<Longrightarrow> drop_first k p xs = xs"
  by (induction k p xs rule: drop_first.induct) auto

lemma drop_first_split:
  "\<forall>x \<in> set xs. \<not> p x \<Longrightarrow> p y \<Longrightarrow> drop_first (Suc k) p (xs @ y # ys) = xs @ drop_first k p ys"
  by (induction xs) auto

lemma drop_first_skip:
  "\<forall>x \<in> set xs. \<not> p x \<Longrightarrow> drop_first k p (xs @ ys) = xs @ drop_first k p ys"
  by (induction xs) (cases k; simp)+

lemma length_drop_first: "k \<le> length (filter p xs) \<Longrightarrow> length (drop_first k p xs) = length xs - k"
proof (induction k p xs rule: drop_first.induct)
  case (3 k p x xs)
  then have "\<not> p x \<Longrightarrow> Suc k \<le> length xs" using length_filter_le [of p xs] by (auto intro: order_trans)
  with 3 show ?case by (auto simp: Suc_diff_le split: if_splits)
qed simp_all

lemma evict_eq:
  "evict limit ls =
     (let k = length ls - limit; t = length (filter is_touched ls)
      in if k \<le> t then drop_first k is_touched ls else drop (k - t) (filter (\<lambda>l. \<not> is_touched l) ls))"
proof (induction "length ls" arbitrary: ls rule: less_induct)
  case less
  show ?case
  proof (cases "length ls \<le> limit")
    case True
    then show ?thesis by (simp add: evict.simps [of limit ls])
  next
    case False
    then obtain k where k: "length ls - limit = Suc k" by (cases "length ls - limit") auto
    show ?thesis
    proof (cases "position is_touched ls")
      case None
      then have none: "\<forall>l \<in> set ls. \<not> is_touched l" by (simp add: position_None_iff)
      then have f: "filter is_touched ls = []" "filter (\<lambda>l. \<not> is_touched l) ls = ls"
        "filter is_touched (drop 1 ls) = []" "filter (\<lambda>l. \<not> is_touched l) (drop 1 ls) = drop 1 ls"
        by (auto simp: filter_empty_conv filter_id_conv dest: in_set_dropD)
      have "length (drop 1 ls) < length ls" "length (drop 1 ls) - limit = k" using False k by auto
      with less [of "drop 1 ls"] have "evict limit (drop 1 ls) = drop k (drop 1 ls)" using f by (simp add: Let_def)
      then show ?thesis
        using False k f None by (simp add: evict.simps [of limit ls] remove_at_def Let_def)
    next
      case (Some i)
      define xs ys y where "xs = take i ls" and "ys = drop (Suc i) ls" and "y = ls ! i"
      have ls: "ls = xs @ y # ys" using position_split [OF Some] by (simp add: xs_def ys_def y_def)
      have p: "is_touched y" "\<forall>x \<in> set xs. \<not> is_touched x"
        using Some by (auto simp: position_Some_iff xs_def y_def)
      have "remove_at i ls = xs @ ys" by (simp add: remove_at_def xs_def ys_def)
      then have "evict limit ls = evict limit (xs @ ys)"
        using False Some by (simp add: evict.simps [of limit ls])
      moreover have "filter is_touched xs = []" using p by (simp add: filter_empty_conv)
      moreover have "filter (\<lambda>l. \<not> is_touched l) (xs @ ys) = filter (\<lambda>l. \<not> is_touched l) ls" using p ls by simp
      moreover have "length (xs @ ys) - limit = k" using k ls by simp
      ultimately show ?thesis
        using less [of "xs @ ys"] p k
        by (simp add: ls Let_def drop_first_skip)
    qed
  qed
qed

lemma length_evict: "length (evict limit ls) = min limit (length ls)"
proof -
  have "length (filter is_touched ls) + length (filter (\<lambda>l. \<not> is_touched l) ls) = length ls"
    by (rule sum_length_filter_compl)
  then show ?thesis by (auto simp: evict_eq Let_def length_drop_first)
qed

lemma set_drop_first: "set (drop_first k p xs) \<subseteq> set xs"
  by (induction k p xs rule: drop_first.induct) auto

lemma set_evict: "set (evict limit ls) \<subseteq> set ls"
  using set_drop_first [of "length ls - limit" is_touched ls] by (auto simp: evict_eq Let_def dest: in_set_dropD)

section \<open>Selection by index\<close>

lemma filter_nths: "filter p (nths xs A) = nths xs {i \<in> A. i < length xs \<and> p (xs ! i)}"
proof (induction xs arbitrary: A)
  case (Cons x xs)
  have "{j. Suc j \<in> {i \<in> A. i < length (x # xs) \<and> p ((x # xs) ! i)}} = {i \<in> {j. Suc j \<in> A}. i < length xs \<and> p (xs ! i)}"
    by auto
  with Cons.IH [of "{j. Suc j \<in> A}"] show ?case by (auto simp: nths_Cons)
qed simp

lemma mset_nths_compl: "mset (nths xs A) + mset (nths xs (- A)) = mset xs"
proof (induction xs arbitrary: A)
  case (Cons x xs)
  have "{j. Suc j \<in> - A} = - {j. Suc j \<in> A}" by auto
  with Cons.IH [of "{j. Suc j \<in> A}"] show ?case by (auto simp: nths_Cons)
qed simp

lemma filter_nths_all:
  "(\<And>i. i < length xs \<Longrightarrow> p (xs ! i) \<Longrightarrow> i \<in> A) \<Longrightarrow> filter p (nths xs A) = filter p xs"
  using filter_nths [of p xs A] filter_nths [of p xs UNIV] by (metis (mono_tags, lifting) Collect_cong iso_tuple_UNIV_I nths_all)

lemma sort_by_cong:
  "(\<And>x y. x \<in> set xs \<Longrightarrow> y \<in> set xs \<Longrightarrow> c x y = d x y) \<Longrightarrow> sort_by c xs = sort_by d xs"
proof (induction xs)
  case (Cons x xs)
  have "\<forall>y \<in> set ys. c x y = d x y \<Longrightarrow> insert_by c x ys = insert_by d x ys" for ys
    by (induction ys) auto
  moreover have "sort_by c xs = sort_by d xs" using Cons by simp
  ultimately show ?case using Cons.prems by simp
qed simp

section \<open>The strongest levels of a window\<close>

text \<open>
  \<^verbatim>\<open>compare_fixed\<close> is a total order on decimals of one scale.  Bubbles of one grid have one scale, so that is
  the order \<^verbatim>\<open>trim_top\<close> ranks them by: strongest first, then by identifier, then by age.
\<close>

definition scaled_order :: "nat \<times> fixed \<times> w64 \<Rightarrow> nat \<times> fixed \<times> w64 \<Rightarrow> ordering" where
  "scaled_order a b =
     then_with (then_with (ord_cmp (coefficient (fst (snd b))) (coefficient (fst (snd a)))) (ord_cmp (snd (snd a)) (snd (snd b))))
       (ord_cmp (fst a) (fst b))"

interpretation ranking: total_compare scaled_order
  unfolding scaled_order_def by (intro total_compare_intros)

lemma top_order_scaled: "scale (fst (snd a)) = scale (fst (snd b)) \<Longrightarrow> top_order a b = scaled_order a b"
  by (simp add: top_order_def scaled_order_def compare_fixed_def)

definition top_key :: "structural_level list \<Rightarrow> nat \<Rightarrow> nat \<times> fixed \<times> w64" where
  "top_key ls i = (i, sl_strength (ls ! i), sl_source_bubble_id (ls ! i))"

lemma top_matches_eq:
  "top_matches kind window direction ls =
     map (top_key ls) (filter (\<lambda>i. is_top kind window direction (ls ! i)) [0..<length ls])"
proof -
  have "enumerate 0 ls = map (\<lambda>i. (i, ls ! i)) [0..<length ls]"
    by (rule nth_equalityI) (auto simp: nth_enumerate_eq)
  then show ?thesis by (simp add: top_matches_def filter_map comp_def top_key_def)
qed

text \<open>The ranked indices: the first \<open>n\<close> stay, the others go.\<close>

definition ranked :: "structural_level_kind \<Rightarrow> i64 \<Rightarrow> bubble_direction \<Rightarrow> structural_level list \<Rightarrow> (nat \<times> fixed \<times> w64) list" where
  "ranked kind window direction ls = sort_by top_order (top_matches kind window direction ls)"

definition kept :: "usize \<Rightarrow> structural_level_kind \<Rightarrow> i64 \<Rightarrow> structural_level list \<Rightarrow> bubble_direction \<Rightarrow> nat list" where
  "kept n kind window ls direction = map fst (take n (ranked kind window direction ls))"

definition trimmed :: "usize \<Rightarrow> structural_level_kind \<Rightarrow> i64 \<Rightarrow> structural_level list \<Rightarrow> bubble_direction \<Rightarrow> nat list" where
  "trimmed n kind window ls direction = map fst (drop n (ranked kind window direction ls))"

lemma mset_kept_trimmed:
  "mset (kept n kind window ls direction @ trimmed n kind window ls direction) =
     mset (filter (\<lambda>i. is_top kind window direction (ls ! i)) [0..<length ls])"
proof -
  have "map fst (top_matches kind window direction ls) = filter (\<lambda>i. is_top kind window direction (ls ! i)) [0..<length ls]"
    by (simp add: top_matches_eq top_key_def comp_def)
  then have "mset (map fst (ranked kind window direction ls)) =
      mset (filter (\<lambda>i. is_top kind window direction (ls ! i)) [0..<length ls])"
    unfolding ranked_def mset_map mset_sort_by by (simp only: flip: mset_map)
  then show ?thesis by (simp add: kept_def trimmed_def flip: map_append mset_append)
qed

lemma set_kept_trimmed:
  "set (kept n kind window ls direction) \<union> set (trimmed n kind window ls direction) =
     {i. i < length ls \<and> is_top kind window direction (ls ! i)}"
  using arg_cong [OF mset_kept_trimmed [of n kind window ls direction], of set_mset] by auto

lemma distinct_kept_trimmed: "distinct (kept n kind window ls direction @ trimmed n kind window ls direction)"
  using mset_kept_trimmed [of n kind window ls direction] by (metis distinct_filter distinct_upt mset_eq_imp_distinct_iff)

lemma length_kept: "length (kept n kind window ls direction) = min n (length (filter (is_top kind window direction) ls))"
proof -
  have "filter (is_top kind window direction) ls = map ((!) ls) (filter (\<lambda>i. is_top kind window direction (ls ! i)) [0..<length ls])"
    using map_nth [of ls] filter_map [of "is_top kind window direction" "(!) ls" "[0..<length ls]"] by (simp add: comp_def)
  then show ?thesis by (simp add: kept_def ranked_def top_matches_eq min.commute)
qed

lemma kept_before_trimmed:
  assumes scale: "\<forall>l \<in> set ls. is_top kind window direction l \<longrightarrow> scale (sl_strength l) = s"
    and i: "i \<in> set (kept n kind window ls direction)" and j: "j \<in> set (trimmed n kind window ls direction)"
  shows "scaled_order (top_key ls i) (top_key ls j) \<noteq> GreaterThan"
proof -
  let ?S = "ranked kind window direction ls"
  have key: "top_key ls (fst a) = a" if "a \<in> set ?S" for a using that by (auto simp: ranked_def top_matches_eq top_key_def)
  have "?S = sort_by scaled_order (top_matches kind window direction ls)" unfolding ranked_def
    by (rule sort_by_cong, rule top_order_scaled) (use scale in \<open>auto simp: top_matches_eq top_key_def\<close>)
  then have "sorted_wrt (\<lambda>a b. scaled_order a b \<noteq> GreaterThan) (take n ?S @ drop n ?S)"
    using ranking.sorted_sort_by by simp
  moreover obtain a b where ab: "a \<in> set (take n ?S)" "i = fst a" "b \<in> set (drop n ?S)" "j = fst b"
    using i j unfolding kept_def trimmed_def set_map by blast
  ultimately have "scaled_order a b \<noteq> GreaterThan" unfolding sorted_wrt_append by blast
  with key [OF in_set_takeD [OF ab(1)]] key [OF in_set_dropD [OF ab(3)]] ab(2,4) show ?thesis by simp
qed

lemma trim_side_nths: "trim_side n kind window ls direction = nths ls (- set (trimmed n kind window ls direction))"
proof -
  have "sorted_wrt (<) (sort (trimmed n kind window ls direction))"
    using distinct_kept_trimmed [of n kind window ls direction] by (simp add: strict_sorted_iff)
  from remove_descending [OF this, of ls] show ?thesis by (simp add: trim_side_def trimmed_def ranked_def Let_def)
qed

lemma set_trim_side: "set (trim_side n kind window ls direction) \<subseteq> set ls"
  by (simp add: trim_side_nths set_nths_subset)

text \<open>Trimming one side leaves every other level alone.\<close>

lemma trim_side_others:
  assumes "\<And>l. p l \<Longrightarrow> \<not> is_top kind window direction l"
  shows "filter p (trim_side n kind window ls direction) = filter p ls"
  unfolding trim_side_nths using set_kept_trimmed [of n kind window ls direction]
  by (intro filter_nths_all) (use assms in auto)

lemma trim_side_count:
  "length (filter (is_top kind window direction) (trim_side n kind window ls direction)) =
     min n (length (filter (is_top kind window direction) ls))"
proof -
  let ?R = "set (trimmed n kind window ls direction)"
  let ?K = "set (kept n kind window ls direction)"
  have "?K \<union> ?R = {i. i < length ls \<and> is_top kind window direction (ls ! i)}" "?K \<inter> ?R = {}"
    using set_kept_trimmed distinct_kept_trimmed [of n kind window ls direction] by simp_all
  then have "{i \<in> - ?R. i < length ls \<and> is_top kind window direction (ls ! i)} = ?K" "{i. i < length ls \<and> i \<in> ?K} = ?K"
    by auto
  then show ?thesis
    using distinct_kept_trimmed [of n kind window ls direction] length_kept [of n kind window ls direction]
    by (simp add: trim_side_nths filter_nths length_nths distinct_card)
qed

lemma trim_side_strongest:
  assumes "\<forall>l \<in> set ls. is_top kind window direction l \<longrightarrow> scale (sl_strength l) = s"
  shows "\<exists>gone. mset (filter (is_top kind window direction) ls) =
      mset (filter (is_top kind window direction) (trim_side n kind window ls direction)) + mset gone \<and>
    (\<forall>g \<in> set gone. \<forall>k \<in> set (filter (is_top kind window direction) (trim_side n kind window ls direction)).
      coefficient (sl_strength g) < coefficient (sl_strength k) \<or>
      sl_strength g = sl_strength k \<and> sl_source_bubble_id k \<le> sl_source_bubble_id g)"
proof -
  let ?t = "is_top kind window direction" and ?R = "set (trimmed n kind window ls direction)"
  have "mset (filter ?t ls) = mset (filter ?t (nths ls (- ?R))) + mset (filter ?t (nths ls ?R))"
    by (metis mset_nths_compl [of ls ?R] filter_union_mset mset_filter union_commute)
  moreover have "coefficient (sl_strength g) < coefficient (sl_strength k) \<or>
      sl_strength g = sl_strength k \<and> sl_source_bubble_id k \<le> sl_source_bubble_id g"
    if g: "g \<in> set (filter ?t (nths ls ?R))" and h: "k \<in> set (filter ?t (nths ls (- ?R)))" for g k
  proof -
    obtain i j where i: "k = ls ! i" "i \<in> set (kept n kind window ls direction)" and j: "g = ls ! j" "j \<in> ?R"
      using g h set_kept_trimmed [of n kind window ls direction] by (auto simp: set_nths)
    have "scale (sl_strength k) = s" "scale (sl_strength g) = s" using assms g h by (auto simp: set_nths)
    moreover have "scaled_order (top_key ls i) (top_key ls j) \<noteq> GreaterThan" using assms i(2) j(2) by (rule kept_before_trimmed)
    ultimately show ?thesis
      by (cases "sl_strength k"; cases "sl_strength g") (auto simp: scaled_order_def top_key_def ord_cmp_def i j split: if_splits)
  qed
  ultimately show ?thesis unfolding trim_side_nths by blast
qed

section \<open>What one candle adds\<close>

definition touches :: "grid_spec \<Rightarrow> structural_level_config \<Rightarrow> candle_flow \<Rightarrow> price \<Rightarrow> bool" where
  "touches g c candle p =
     (case (cf_low candle, cf_high candle) of
        (Some low, Some high) \<Rightarrow>
          (case (price_tick_of g low, price_tick_of g high, price_tick_of g p) of
             (Inr l, Inr h, Inr t) \<Rightarrow> tick_touched c l h t
           | _ \<Rightarrow> False)
      | _ \<Rightarrow> False)"

lemma level_from_bubble_sel [simp]:
  "sl_kind (level_from_bubble kind p created window expires b) = kind"
  "sl_state (level_from_bubble kind p created window expires b) = ActiveLevel"
  "sl_touched_at_ns (level_from_bubble kind p created window expires b) = None"
  "sl_price (level_from_bubble kind p created window expires b) = p"
  "sl_created_at_ns (level_from_bubble kind p created window expires b) = created"
  "sl_window_start_ns (level_from_bubble kind p created window expires b) = window"
  by (simp_all add: level_from_bubble_def)

lemma check_candle_Inr:
  assumes "check_candle e candle bubbles = Inr (low, high)"
  shows "\<exists>l h. cf_low candle = Some l \<and> cf_high candle = Some h \<and>
      price_tick_of (se_grid e) l = Inr low \<and> price_tick_of (se_grid e) h = Inr high"
    and "cf_state candle = FinalFlow"
    and "se_last_candle_start_ns e = Some previous \<Longrightarrow> previous < cf_start_ts candle"
    and "b \<in> set bubbles \<Longrightarrow> ob_instrument b = cf_instrument candle \<and> ob_candle_start_ns b = cf_start_ts candle \<and>
      ob_candle_end_ns b = cf_end_ts candle \<and> (\<exists>t. price_tick_of (se_grid e) (ob_anchor_price b) = Inr t)"
  using assms
  by (auto simp: check_candle_def result_iffs check_bubble_def try_map_Inr_iff list_all2_conv_all_nth in_set_conv_nth
      split: if_splits option.splits)

lemma checked_touches:
  assumes "check_candle e candle bubbles = Inr (low, high)" and "price_tick_of (se_grid e) p = Inr t"
  shows "touches (se_grid e) (se_config e) candle p \<longleftrightarrow> tick_touched (se_config e) low high t"
  using check_candle_Inr(1) [OF assms(1)] assms(2) by (auto simp: touches_def)

lemma activate_naked_Inr:
  assumes "activate_naked e candle low high = Inr e'"
  obtains ns where "e' = e\<lparr>se_pending_naked := [], se_levels := se_levels e @ ns\<rparr>"
    and "\<forall>n \<in> set ns. \<exists>b \<in> set (se_pending_naked e). \<exists>t. price_tick_of (se_grid e) (ob_anchor_price b) = Inr t \<and>
      \<not> tick_touched (se_config e) low high t \<and>
      n = level_from_bubble Naked (ob_anchor_price b) (cf_end_ts candle) None None b"
proof -
  let ?I = "\<lambda>e'. \<exists>ns. e' = e\<lparr>se_pending_naked := [], se_levels := se_levels e @ ns\<rparr> \<and>
    (\<forall>n \<in> set ns. \<exists>b \<in> set (se_pending_naked e). \<exists>t. price_tick_of (se_grid e) (ob_anchor_price b) = Inr t \<and>
      \<not> tick_touched (se_config e) low high t \<and>
      n = level_from_bubble Naked (ob_anchor_price b) (cf_end_ts candle) None None b)"
  have "?I e'"
  proof (rule try_fold_invariant [OF assms [unfolded activate_naked_def]], goal_cases)
    case 1
    show ?case by (rule exI [of _ "[]"]) (cases e, simp)
  next
    case (2 s b s')
    then obtain ns t where s: "s = e\<lparr>se_pending_naked := [], se_levels := se_levels e @ ns\<rparr>"
      and ns: "\<forall>n \<in> set ns. \<exists>b \<in> set (se_pending_naked e). \<exists>t. price_tick_of (se_grid e) (ob_anchor_price b) = Inr t \<and>
        \<not> tick_touched (se_config e) low high t \<and>
        n = level_from_bubble Naked (ob_anchor_price b) (cf_end_ts candle) None None b"
      and t: "price_tick_of (se_grid e) (ob_anchor_price b) = Inr t"
      and s': "s' = (if tick_touched (se_config e) low high t then s
        else s\<lparr>se_levels := se_levels s @ [level_from_bubble Naked (ob_anchor_price b) (cf_end_ts candle) None None b]\<rparr>)"
      by (auto simp: result_iffs)
    show ?case
    proof (cases "tick_touched (se_config e) low high t")
      case True
      with s s' ns show ?thesis by auto
    next
      case False
      with s s' ns t 2(1) show ?thesis
        by (intro exI [of _ "ns @ [level_from_bubble Naked (ob_anchor_price b) (cf_end_ts candle) None None b]"]) auto
    qed
  qed
  with that show ?thesis by blast
qed

text \<open>The strongest bubble of a frame that is a local extremum between its neighbours.\<close>

definition reaction ::
  "grid_spec \<Rightarrow> candle_frame \<Rightarrow> candle_frame \<Rightarrow> candle_frame \<Rightarrow> structural_level \<Rightarrow> bool" where
  "reaction g left center right l \<longleftrightarrow>
     (\<exists>b p pl pr t tl tr. max_by strongest_order (fr_bubbles center) = Some b \<and>
        price_tick_of g p = Inr t \<and> price_tick_of g pl = Inr tl \<and> price_tick_of g pr = Inr tr \<and>
        (cf_high (fr_candle left), cf_high (fr_candle center), cf_high (fr_candle right)) = (Some pl, Some p, Some pr) \<and>
        tl < t \<and> tr < t \<and> l = level_from_bubble ReactionHigh p (cf_end_ts (fr_candle right)) None None b) \<or>
     (\<exists>b p pl pr t tl tr. max_by strongest_order (fr_bubbles center) = Some b \<and>
        price_tick_of g p = Inr t \<and> price_tick_of g pl = Inr tl \<and> price_tick_of g pr = Inr tr \<and>
        (cf_low (fr_candle left), cf_low (fr_candle center), cf_low (fr_candle right)) = (Some pl, Some p, Some pr) \<and>
        t < tl \<and> t < tr \<and> l = level_from_bubble ReactionLow p (cf_end_ts (fr_candle right)) None None b)"

lemma confirm_reactions_Inr:
  assumes "confirm_reactions e = Inr e'"
  obtains rs where "e' = e\<lparr>se_levels := se_levels e @ rs\<rparr>"
    and "\<forall>r \<in> set rs. \<exists>left center right. se_frames e = [left, center, right] \<and> reaction (se_grid e) left center right r"
proof (cases "e' = e")
  case True
  then show ?thesis by (intro that [of "[]"]) (cases e, simp_all)
next
  case False
  have "max_by strongest_order (fr_bubbles (se_frames e ! 1)) \<noteq> None"
    using assms False by (auto simp: confirm_reactions_def result_iffs split: list.splits option.splits)
  then obtain b where "max_by strongest_order (fr_bubbles (se_frames e ! 1)) = Some b" by blast
  with assms False obtain left center right lh ch rh ll cl rl lht cht rht llt clt rlt where
    frames: "se_frames e = [left, center, right]"
    and prices: "cf_high (fr_candle left) = Some lh" "cf_high (fr_candle center) = Some ch" "cf_high (fr_candle right) = Some rh"
      "cf_low (fr_candle left) = Some ll" "cf_low (fr_candle center) = Some cl" "cf_low (fr_candle right) = Some rl"
    and ticks: "price_tick_of (se_grid e) lh = Inr lht" "price_tick_of (se_grid e) ch = Inr cht" "price_tick_of (se_grid e) rh = Inr rht"
      "price_tick_of (se_grid e) ll = Inr llt" "price_tick_of (se_grid e) cl = Inr clt" "price_tick_of (se_grid e) rl = Inr rlt"
    and b: "max_by strongest_order (fr_bubbles center) = Some b"
    and e': "e' = e\<lparr>se_levels := se_levels e @
        reaction_levels (lht < cht \<and> rht < cht) (clt < llt \<and> clt < rlt) ch cl (cf_end_ts (fr_candle right)) b\<rparr>"
    by (auto simp: confirm_reactions_def result_iffs split: list.splits option.splits)
  have hi: "reaction (se_grid e) left center right (level_from_bubble ReactionHigh ch (cf_end_ts (fr_candle right)) None None b)"
    if "lht < cht" "rht < cht" unfolding reaction_def
    by (intro disjI1 exI conjI, rule b, rule ticks(2), rule ticks(1), rule ticks(3)) (simp_all add: prices that)
  have lo: "reaction (se_grid e) left center right (level_from_bubble ReactionLow cl (cf_end_ts (fr_candle right)) None None b)"
    if "clt < llt" "clt < rlt" unfolding reaction_def
    by (intro disjI2 exI conjI, rule b, rule ticks(5), rule ticks(4), rule ticks(6)) (simp_all add: prices that)
  show ?thesis
    by (rule that [OF e']) (use frames hi lo in \<open>auto simp: reaction_levels_def\<close>)
qed

lemma pop_frames_eq: "pop_frames fs = drop (length fs - 3) fs"
proof (induction fs)
  case (Cons f fs)
  have "2 < length fs \<Longrightarrow> length fs - 2 = Suc (length fs - 3)" by arith
  with Cons show ?case by simp
qed simp

lemma trim_top_frame:
  "se_grid (trim_top e kind window) = se_grid e" "se_config (trim_top e kind window) = se_config e"
  "se_last_candle_start_ns (trim_top e kind window) = se_last_candle_start_ns e"
  "se_frames (trim_top e kind window) = se_frames e" "se_pending_naked (trim_top e kind window) = se_pending_naked e"
  by (simp_all add: trim_top_def)

lemma set_trim_top: "set (se_levels (trim_top e kind window)) \<subseteq> set (se_levels e)"
  using set_trim_side by (simp add: trim_top_def) (meson order_trans)

definition top_of :: "candle_flow \<Rightarrow> order_flow_bubble list \<Rightarrow> structural_level_kind \<Rightarrow> i64 \<Rightarrow> structural_level \<Rightarrow> bool" where
  "top_of candle bubbles kind window_ns l \<longleftrightarrow>
     (\<exists>b \<in> set bubbles. ob_direction b \<noteq> NeutralBubble \<and>
        l = level_from_bubble kind (ob_anchor_price b) (cf_end_ts candle) (Some (window_start (cf_start_ts candle) window_ns))
              (Some (window_start (cf_start_ts candle) window_ns + window_ns)) b)"

lemma top_of_sel:
  "top_of candle bubbles kind window_ns l \<Longrightarrow>
     sl_kind l = kind \<and> sl_window_start_ns l = Some (window_start (cf_start_ts candle) window_ns) \<and>
     sl_state l = ActiveLevel \<and> sl_touched_at_ns l = None"
  by (auto simp: top_of_def)

lemma update_window_Inr:
  assumes "update_window candle bubbles e (kind, window_ns) = Inr e'"
  shows "\<exists>ls. e' = e\<lparr>se_levels := ls\<rparr>"
    and "l \<in> set (se_levels e') \<Longrightarrow>
      l \<in> set (se_levels e) \<and> (sl_kind l = kind \<longrightarrow> sl_window_start_ns l = Some (window_start (cf_start_ts candle) window_ns)) \<or>
      top_of candle bubbles kind window_ns l"
proof -
  let ?w = "window_start (cf_start_ts candle) window_ns"
  obtain e0 where e': "e' = trim_top e0 kind ?w" and e0: "e0 = e\<lparr>se_levels := se_levels e0\<rparr>"
    and ls: "se_levels e0 = filter (\<lambda>l. sl_kind l \<noteq> kind \<or> sl_window_start_ns l = Some ?w) (se_levels e) @
      map (\<lambda>b. level_from_bubble kind (ob_anchor_price b) (cf_end_ts candle) (Some ?w) (Some (?w + window_ns)) b)
        (filter (\<lambda>b. ob_direction b \<noteq> NeutralBubble) bubbles)"
    using assms by (auto simp: update_window_def Let_def result_iffs)
  show "\<exists>ls. e' = e\<lparr>se_levels := ls\<rparr>" unfolding e' trim_top_def by (subst e0) auto
  show "l \<in> set (se_levels e) \<and> (sl_kind l = kind \<longrightarrow> sl_window_start_ns l = Some ?w) \<or> top_of candle bubbles kind window_ns l"
    if "l \<in> set (se_levels e')"
  proof -
    have "l \<in> set (se_levels e0)" using that set_trim_top unfolding e' by blast
    then show ?thesis unfolding ls by (auto simp: top_of_def)
  qed
qed

text \<open>The number of levels a window keeps per side, and the levels of other kinds.\<close>

lemma update_window_count:
  assumes "update_window candle bubbles e (kind, window_ns) = Inr e'" and "direction \<noteq> NeutralBubble"
  shows "length (filter (\<lambda>l. sl_kind l = kind \<and> sl_direction l = direction) (se_levels e')) \<le> slc_top_per_side (se_config e)"
proof -
  let ?w = "window_start (cf_start_ts candle) window_ns" and ?n = "slc_top_per_side (se_config e)"
  obtain ls where ls: "se_levels e' = trim_side ?n kind ?w (trim_side ?n kind ?w ls BuyBubble) SellBubble"
    using assms(1) by (auto simp: update_window_def Let_def result_iffs trim_top_def)
  have "sl_window_start_ns l = Some ?w" if "l \<in> set (se_levels e')" "sl_kind l = kind" for l
    using update_window_Inr(2) [OF assms(1) that(1)] that(2) top_of_sel by blast
  then have "filter (\<lambda>l. sl_kind l = kind \<and> sl_direction l = direction) (se_levels e') = filter (is_top kind ?w direction) (se_levels e')"
    by (auto simp: is_top_def intro!: filter_cong)
  moreover have "length (filter (is_top kind ?w direction) (se_levels e')) \<le> ?n"
  proof (cases direction)
    case BuyBubble
    then have "filter (is_top kind ?w direction) (se_levels e') = filter (is_top kind ?w direction) (trim_side ?n kind ?w ls BuyBubble)"
      unfolding ls by (intro trim_side_others) (auto simp: is_top_def)
    with BuyBubble show ?thesis by (simp add: trim_side_count)
  qed (use assms(2) in \<open>simp_all add: ls trim_side_count\<close>)
  ultimately show ?thesis by simp
qed

lemma update_window_others:
  assumes "update_window candle bubbles e (kind, window_ns) = Inr e'" and "\<And>l. p l \<Longrightarrow> sl_kind l \<noteq> kind"
  shows "filter p (se_levels e') = filter p (se_levels e)"
proof -
  let ?w = "window_start (cf_start_ts candle) window_ns" and ?n = "slc_top_per_side (se_config e)"
  obtain x where ls: "se_levels e' = trim_side ?n kind ?w (trim_side ?n kind ?w
      (filter (\<lambda>l. sl_kind l \<noteq> kind \<or> sl_window_start_ns l = Some ?w) (se_levels e) @
       map (\<lambda>b. level_from_bubble kind (ob_anchor_price b) (cf_end_ts candle) (Some ?w) (Some x) b)
         (filter (\<lambda>b. ob_direction b \<noteq> NeutralBubble) bubbles)) BuyBubble) SellBubble"
    using assms(1) by (auto simp: update_window_def Let_def result_iffs trim_top_def)
  have no: "\<not> is_top kind ?w direction l" if "p l" for l direction using assms(2) that by (auto simp: is_top_def)
  have "filter (\<lambda>l. (sl_kind l \<noteq> kind \<or> sl_window_start_ns l = Some ?w) \<and> p l) (se_levels e) = filter p (se_levels e)"
    using assms(2) by (intro filter_cong) auto
  moreover have "\<not> p (level_from_bubble kind q t v x b)" for q t v x b
    using assms(2) [of "level_from_bubble kind q t v x b"] by auto
  ultimately show ?thesis
    unfolding ls by (simp only: trim_side_others [OF no]) (simp add: filter_map comp_def)
qed

section \<open>Histories\<close>

text \<open>\<open>engine_reach h e\<close>: the accepted candles \<open>h\<close>, with their bubbles, lead from a new engine to \<open>e\<close>.\<close>

inductive engine_reach :: "candle_frame list \<Rightarrow> structural_level_engine \<Rightarrow> bool" where
  fresh: "engine_new g c = Inr e \<Longrightarrow> engine_reach [] e"
| accepted: "engine_reach h e \<Longrightarrow> ingest_finalized e candle bubbles = (Inr (), e') \<Longrightarrow>
    engine_reach (h @ [\<lparr>fr_candle = candle, fr_bubbles = bubbles\<rparr>]) e'"
| refused: "engine_reach h e \<Longrightarrow> ingest_finalized e candle bubbles = (Inl err, e') \<Longrightarrow> engine_reach h e'"

definition untouched :: "structural_level \<Rightarrow> structural_level" where
  "untouched l = l\<lparr>sl_state := ActiveLevel, sl_touched_at_ns := None\<rparr>"

text \<open>The level \<open>l\<close> is what candle \<open>i\<close> of the history creates.\<close>

definition created_by :: "grid_spec \<Rightarrow> structural_level_config \<Rightarrow> candle_frame list \<Rightarrow> nat \<Rightarrow> structural_level \<Rightarrow> bool" where
  "created_by g c h i l \<longleftrightarrow>
     (\<exists>j b. i = Suc j \<and> b \<in> set (fr_bubbles (h ! j)) \<and> \<not> touches g c (fr_candle (h ! i)) (ob_anchor_price b) \<and>
        l = level_from_bubble Naked (ob_anchor_price b) (cf_end_ts (fr_candle (h ! i))) None None b) \<or>
     (\<exists>j. i = Suc (Suc j) \<and> reaction g (h ! j) (h ! Suc j) (h ! i) l) \<or>
     top_of (fr_candle (h ! i)) (fr_bubbles (h ! i)) TopDay DAY_NS l \<or>
     top_of (fr_candle (h ! i)) (fr_bubbles (h ! i)) TopWeek WEEK_NS l"

text \<open>The state of a level after the candles \<open>fs\<close>: touched by the first candle that came within the tolerance.\<close>

definition followed :: "grid_spec \<Rightarrow> structural_level_config \<Rightarrow> candle_frame list \<Rightarrow> structural_level \<Rightarrow> bool" where
  "followed g c fs l \<longleftrightarrow>
     (case find (\<lambda>f. sl_created_at_ns l < cf_end_ts (fr_candle f) \<and> touches g c (fr_candle f) (sl_price l)) fs of
        None \<Rightarrow> sl_state l = ActiveLevel \<and> sl_touched_at_ns l = None
      | Some f \<Rightarrow> sl_state l = TouchedLevel \<and> sl_touched_at_ns l = Some (cf_end_ts (fr_candle f)))"

abbreviation (input) top_kind :: "structural_level_kind \<Rightarrow> bool" where
  "top_kind k \<equiv> k = TopDay \<or> k = TopWeek"

definition explained :: "grid_spec \<Rightarrow> structural_level_config \<Rightarrow> candle_frame list \<Rightarrow> structural_level \<Rightarrow> bool" where
  "explained g c h l \<longleftrightarrow>
     (\<exists>i < length h. created_by g c h i (untouched l) \<and>
        (if top_kind (sl_kind l) then l = untouched l else followed g c (drop (Suc i) h) l))"

lemma find_append: "find p (xs @ ys) = (case find p xs of None \<Rightarrow> find p ys | Some x \<Rightarrow> Some x)"
  by (induction xs) auto

lemma touch_level_Inr:
  assumes "touch_level e candle low high l = Inr l'"
  shows "untouched l' = untouched l" "sl_kind l' = sl_kind l" "sl_window_start_ns l' = sl_window_start_ns l"
    "sl_direction l' = sl_direction l" "top_kind (sl_kind l) \<Longrightarrow> l' = l"
  using assms by (auto simp: touch_level_def untouched_def result_iffs split: if_splits)

lemma touch_level_followed:
  assumes "check_candle e candle bubbles = Inr (low, high)" and "touch_level e candle low high l = Inr l'"
    and "followed (se_grid e) (se_config e) fs l" and "\<not> top_kind (sl_kind l)"
  shows "followed (se_grid e) (se_config e) (fs @ [\<lparr>fr_candle = candle, fr_bubbles = bubbles\<rparr>]) l'"
proof -
  have same: "sl_price l' = sl_price l" "sl_created_at_ns l' = sl_created_at_ns l"
    using assms(2) by (auto simp: touch_level_def result_iffs split: if_splits)
  show ?thesis
  proof (cases "sl_state l = ActiveLevel \<and> sl_created_at_ns l < cf_end_ts candle")
    case True
    with assms(2,4) obtain t where t: "price_tick_of (se_grid e) (sl_price l) = Inr t"
      and l': "l' = (if tick_touched (se_config e) low high t
        then l\<lparr>sl_state := TouchedLevel, sl_touched_at_ns := Some (cf_end_ts candle)\<rparr> else l)"
      by (auto simp: touch_level_def result_iffs)
    with True assms(3) checked_touches [OF assms(1) t] show ?thesis
      by (auto simp: followed_def same find_append split: option.splits)
  next
    case False
    then have "l' = l" using assms(2) by (auto simp: touch_level_def)
    with False assms(3) show ?thesis by (auto simp: followed_def find_append split: option.splits)
  qed
qed

lemma created_by_append:
  "i < length h \<Longrightarrow> created_by g c (h @ fs) i l \<longleftrightarrow> created_by g c h i l"
proof -
  assume i: "i < length h"
  consider "i = 0" | "i = Suc 0" | j where "i = Suc (Suc j)" by (cases i; cases "i - 1") auto
  moreover have "(h @ fs) ! k = h ! k" if "k \<le> i" for k using i that by (simp add: nth_append)
  ultimately show ?thesis by cases (simp_all add: created_by_def)
qed

lemma explained_step:
  assumes "check_candle e candle bubbles = Inr (low, high)" and "touch_level e candle low high l = Inr l'"
    and "explained (se_grid e) (se_config e) h l"
  shows "explained (se_grid e) (se_config e) (h @ [\<lparr>fr_candle = candle, fr_bubbles = bubbles\<rparr>]) l'"
proof -
  from assms(3) obtain i where i: "i < length h" "created_by (se_grid e) (se_config e) h i (untouched l)"
    "if top_kind (sl_kind l) then l = untouched l else followed (se_grid e) (se_config e) (drop (Suc i) h) l"
    by (auto simp: explained_def)
  show ?thesis unfolding explained_def
    using i touch_level_Inr [OF assms(2)] touch_level_followed [OF assms(1,2)]
    by (intro exI [of _ i]) (auto simp: created_by_append)
qed

lemma explained_new:
  assumes "created_by g c (h @ [f]) (length h) l" and "untouched l = l"
  shows "explained g c (h @ [f]) l"
  using assms by (auto simp: explained_def followed_def untouched_def intro!: exI [of _ "length h"])
     (metis structural_level.ext_inject structural_level.surjective structural_level.update_convs(3,10))+

lemma untouched_fresh: "sl_state l = ActiveLevel \<Longrightarrow> sl_touched_at_ns l = None \<Longrightarrow> untouched l = l"
  by (cases l) (simp add: untouched_def)

section \<open>One accepted candle\<close>

lemma update_top_levels_Inr:
  assumes "update_top_levels e candle bubbles = Inr e'"
  obtains e1 where "update_window candle bubbles e (TopDay, DAY_NS) = Inr e1"
    and "update_window candle bubbles e1 (TopWeek, WEEK_NS) = Inr e'"
  using assms by (auto simp: update_top_levels_def result_iffs)

lemma update_top_levels_member:
  assumes "update_top_levels e candle bubbles = Inr e'"
  shows "\<exists>ls. e' = e\<lparr>se_levels := ls\<rparr>"
    and "l \<in> set (se_levels e') \<Longrightarrow>
      l \<in> set (se_levels e) \<or> top_of candle bubbles TopDay DAY_NS l \<or> top_of candle bubbles TopWeek WEEK_NS l"
    and "l \<in> set (se_levels e') \<Longrightarrow>
      (sl_kind l = TopDay \<longrightarrow> sl_window_start_ns l = Some (window_start (cf_start_ts candle) DAY_NS)) \<and>
      (sl_kind l = TopWeek \<longrightarrow> sl_window_start_ns l = Some (window_start (cf_start_ts candle) WEEK_NS))"
proof -
  obtain e1 where e1: "update_window candle bubbles e (TopDay, DAY_NS) = Inr e1"
    "update_window candle bubbles e1 (TopWeek, WEEK_NS) = Inr e'"
    using assms by (rule update_top_levels_Inr)
  show "\<exists>ls. e' = e\<lparr>se_levels := ls\<rparr>" using update_window_Inr(1) [OF e1(1)] update_window_Inr(1) [OF e1(2)] by auto
  show "l \<in> set (se_levels e) \<or> top_of candle bubbles TopDay DAY_NS l \<or> top_of candle bubbles TopWeek WEEK_NS l"
    if "l \<in> set (se_levels e')"
    using that update_window_Inr(2) [OF e1(1)] update_window_Inr(2) [OF e1(2)] by blast
  show "(sl_kind l = TopDay \<longrightarrow> sl_window_start_ns l = Some (window_start (cf_start_ts candle) DAY_NS)) \<and>
      (sl_kind l = TopWeek \<longrightarrow> sl_window_start_ns l = Some (window_start (cf_start_ts candle) WEEK_NS))"
    if "l \<in> set (se_levels e')"
    using that update_window_Inr(2) [OF e1(1), of l] update_window_Inr(2) [OF e1(2), of l]
      top_of_sel [of candle bubbles TopDay DAY_NS l] top_of_sel [of candle bubbles TopWeek WEEK_NS l] by auto
qed

lemma update_top_levels_count:
  assumes "update_top_levels e candle bubbles = Inr e'" and "top_kind kind" and "direction \<noteq> NeutralBubble"
  shows "length (filter (\<lambda>l. sl_kind l = kind \<and> sl_direction l = direction) (se_levels e')) \<le> slc_top_per_side (se_config e)"
proof -
  obtain e1 where e1: "update_window candle bubbles e (TopDay, DAY_NS) = Inr e1"
    "update_window candle bubbles e1 (TopWeek, WEEK_NS) = Inr e'"
    using assms(1) by (rule update_top_levels_Inr)
  have "se_config e1 = se_config e" using update_window_Inr(1) [OF e1(1)] by auto
  moreover have "filter (\<lambda>l. sl_kind l = TopDay \<and> sl_direction l = direction) (se_levels e') =
      filter (\<lambda>l. sl_kind l = TopDay \<and> sl_direction l = direction) (se_levels e1)"
    using e1(2) by (rule update_window_others) simp
  ultimately show ?thesis
    using assms(2) update_window_count [OF e1(1) assms(3)] update_window_count [OF e1(2) assms(3)] by auto
qed

lemma ingest_checked_Inr:
  assumes "ingest_checked e candle bubbles = Inr e'"
  obtains low high ls e1 e2 e3 e4 where "check_candle e candle bubbles = Inr (low, high)"
    and "list_all2 (\<lambda>l l'. touch_level e candle low high l = Inr l') (se_levels e) ls" and "e1 = e\<lparr>se_levels := ls\<rparr>"
    and "activate_naked e1 candle low high = Inr e2"
    and "e3 = e2\<lparr>se_frames := pop_frames (se_frames e2 @ [\<lparr>fr_candle = candle, fr_bubbles = bubbles\<rparr>])\<rparr>"
    and "confirm_reactions e3 = Inr e4"
    and "\<exists>e5. update_top_levels e4 candle bubbles = Inr e5 \<and>
      e' = enforce_capacity (e5\<lparr>se_pending_naked := bubbles, se_last_candle_start_ns := Some (cf_start_ts candle)\<rparr>)"
  using assms by (auto simp: ingest_checked_def touch_existing_def result_iffs try_map_Inr_iff)

definition engine_inv :: "candle_frame list \<Rightarrow> structural_level_engine \<Rightarrow> bool" where
  "engine_inv h e \<longleftrightarrow>
     se_frames e = drop (length h - 3) h \<and>
     se_pending_naked e = (if h = [] then [] else fr_bubbles (last h)) \<and>
     se_last_candle_start_ns e = (if h = [] then None else Some (cf_start_ts (fr_candle (last h)))) \<and>
     length (se_levels e) \<le> slc_max_levels (se_config e) \<and>
     (\<forall>l \<in> set (se_levels e). explained (se_grid e) (se_config e) h l \<and>
        (sl_kind l = TopDay \<longrightarrow> sl_window_start_ns l = Some (window_start (cf_start_ts (fr_candle (last h))) DAY_NS)) \<and>
        (sl_kind l = TopWeek \<longrightarrow> sl_window_start_ns l = Some (window_start (cf_start_ts (fr_candle (last h))) WEEK_NS))) \<and>
     (\<forall>kind direction. top_kind kind \<and> direction \<noteq> NeutralBubble \<longrightarrow>
        length (filter (\<lambda>l. sl_kind l = kind \<and> sl_direction l = direction) (se_levels e)) \<le> slc_top_per_side (se_config e))"

lemma filter_drop_first_le: "length (filter q (drop_first k p xs)) \<le> length (filter q xs)"
  by (induction k p xs rule: drop_first.induct) (auto intro: le_SucI)

lemma filter_drop_le: "length (filter q (drop k xs)) \<le> length (filter q xs)"
proof -
  have "filter q xs = filter q (take k xs) @ filter q (drop k xs)" by (simp flip: filter_append)
  then show ?thesis by simp
qed

lemma filter_evict_le: "length (filter q (evict limit ls)) \<le> length (filter q ls)"
proof -
  have "length (filter q (filter (\<lambda>l. \<not> is_touched l) ls)) \<le> length (filter q ls)"
    using length_filter_le [of "\<lambda>l. \<not> is_touched l" "filter q ls"] by (simp add: conj_commute)
  then show ?thesis
    using filter_drop_first_le [of q _ is_touched ls] order_trans [OF filter_drop_le [of q _ "filter (\<lambda>l. \<not> is_touched l) ls"]]
    by (simp add: evict_eq Let_def del: filter_filter)
qed

lemma last_frames:
  assumes "drop (length (h @ [f]) - 3) (h @ [f]) = [left, center, right]"
  obtains j where "length h = Suc (Suc j)" and "h ! j = left" and "h ! Suc j = center" and "right = f"
proof -
  have "length (drop (length (h @ [f]) - 3) (h @ [f])) = 3" unfolding assms by simp
  then have "2 \<le> length h" by auto
  then obtain j where j: "length h = Suc (Suc j)" by (cases h; cases "tl h") auto
  have "[left, center, right] ! 0 = (h @ [f]) ! j" "[left, center, right] ! 1 = (h @ [f]) ! Suc j"
    "[left, center, right] ! 2 = (h @ [f]) ! Suc (Suc j)"
    unfolding assms [symmetric] using j by (simp_all add: nth_append numeral_2_eq_2)
  with j show ?thesis by (intro that [of j]) (auto simp: nth_append)
qed

text \<open>Every level after an accepted candle is explained by the longer history.\<close>

lemma ingest_explained:
  assumes inv: "engine_inv h e" and run: "ingest_checked e candle bubbles = Inr e'"
  shows "engine_inv (h @ [\<lparr>fr_candle = candle, fr_bubbles = bubbles\<rparr>]) e'"
proof -
  let ?f = "\<lparr>fr_candle = candle, fr_bubbles = bubbles\<rparr>"
  let ?h = "h @ [?f]" and ?g = "se_grid e" and ?c = "se_config e"
  obtain low high ls e1 e2 e3 e4 e5 where chk: "check_candle e candle bubbles = Inr (low, high)"
    and ls: "list_all2 (\<lambda>l l'. touch_level e candle low high l = Inr l') (se_levels e) ls" and e1: "e1 = e\<lparr>se_levels := ls\<rparr>"
    and e2: "activate_naked e1 candle low high = Inr e2"
    and e3: "e3 = e2\<lparr>se_frames := pop_frames (se_frames e2 @ [?f])\<rparr>" and e4: "confirm_reactions e3 = Inr e4"
    and e5: "update_top_levels e4 candle bubbles = Inr e5"
    and e': "e' = enforce_capacity (e5\<lparr>se_pending_naked := bubbles, se_last_candle_start_ns := Some (cf_start_ts candle)\<rparr>)"
    using run by (elim ingest_checked_Inr) blast
  obtain ns where e2': "e2 = e1\<lparr>se_pending_naked := [], se_levels := se_levels e1 @ ns\<rparr>"
    and ns: "\<forall>n \<in> set ns. \<exists>b \<in> set (se_pending_naked e1). \<exists>t. price_tick_of (se_grid e1) (ob_anchor_price b) = Inr t \<and>
      \<not> tick_touched (se_config e1) low high t \<and> n = level_from_bubble Naked (ob_anchor_price b) (cf_end_ts candle) None None b"
    using e2 by (rule activate_naked_Inr)
  obtain rs where e4': "e4 = e3\<lparr>se_levels := se_levels e3 @ rs\<rparr>"
    and rs: "\<forall>r \<in> set rs. \<exists>left center right. se_frames e3 = [left, center, right] \<and> reaction (se_grid e3) left center right r"
    using e4 by (rule confirm_reactions_Inr)
  obtain ts where e5': "e5 = e4\<lparr>se_levels := ts\<rparr>" using update_top_levels_member(1) [OF e5] by blast
  note eqs = e1 e2' e3 e4' e5'
  have frames: "se_frames e3 = drop (length ?h - 3) ?h"
    using inv drop_last_snoc [of h 3 ?f] by (simp add: eqs pop_frames_eq engine_inv_def)
  have old: "explained ?g ?c ?h l" if l: "l \<in> set ls" for l
  proof -
    obtain l0 where "l0 \<in> set (se_levels e)" "touch_level e candle low high l0 = Inr l"
      using list_all2_right [OF ls l] by blast
    with inv explained_step [OF chk] show ?thesis by (simp add: engine_inv_def)
  qed
  have naked: "explained ?g ?c ?h n" if n: "n \<in> set ns" for n
  proof -
    obtain b t where b: "b \<in> set (se_pending_naked e)" "price_tick_of ?g (ob_anchor_price b) = Inr t"
      "\<not> tick_touched ?c low high t" "n = level_from_bubble Naked (ob_anchor_price b) (cf_end_ts candle) None None b"
      using ns n by (auto simp: e1)
    then obtain j where "h \<noteq> []" "length h = Suc j" "b \<in> set (fr_bubbles (h ! j))"
      using inv by (cases "length h") (auto simp: engine_inv_def last_conv_nth split: if_splits)
    with b checked_touches [OF chk b(2)] show ?thesis
      by (intro explained_new untouched_fresh) (auto simp: created_by_def nth_append)
  qed
  have reacted: "explained ?g ?c ?h r" if r: "r \<in> set rs" for r
  proof -
    obtain left center right where lcr: "se_frames e3 = [left, center, right]" "reaction ?g left center right r"
      using rs r by (auto simp: e3 e2' e1)
    obtain j where "length h = Suc (Suc j)" "h ! j = left" "h ! Suc j = center" "right = ?f"
      using lcr(1) unfolding frames by (rule last_frames)
    with lcr(2) show ?thesis
      by (intro explained_new untouched_fresh) (auto simp: created_by_def nth_append reaction_def)
  qed
  have topped: "explained ?g ?c ?h l" if "top_of candle bubbles TopDay DAY_NS l \<or> top_of candle bubbles TopWeek WEEK_NS l" for l
    using that top_of_sel by (intro explained_new untouched_fresh) (auto simp: created_by_def)
  have "explained ?g ?c ?h l" if "l \<in> set (se_levels e5)" for l
    using update_top_levels_member(2) [OF e5 that] old naked reacted topped by (auto simp: e4' e3 e2' e1)
  moreover have levels: "se_levels e' = evict (slc_max_levels ?c) (se_levels e5)" "se_config e' = ?c" "se_grid e' = ?g"
    by (simp_all add: e' enforce_capacity_def eqs)
  moreover have "length (filter (\<lambda>l. sl_kind l = kind \<and> sl_direction l = direction) (se_levels e')) \<le> slc_top_per_side ?c"
    if "top_kind kind" "direction \<noteq> NeutralBubble" for kind direction
    using update_top_levels_count [OF e5 that] filter_evict_le unfolding levels by (auto simp: eqs intro: order_trans)
  moreover note update_top_levels_member(3) [OF e5]
  moreover have "se_frames e' = drop (length ?h - 3) ?h" using frames by (simp add: e' enforce_capacity_def e5' e4')
  ultimately show ?thesis
    using set_evict by (fastforce simp: engine_inv_def length_evict e' enforce_capacity_def)
qed

lemma engine_reach_inv: "engine_reach h e \<Longrightarrow> engine_inv h e"
proof (induction rule: engine_reach.induct)
  case (fresh g c e)
  then show ?case by (auto simp: engine_new_def engine_inv_def result_iffs)
next
  case (accepted h e candle bubbles e')
  then show ?case by (auto simp: ingest_finalized_def intro: ingest_explained split: sum.splits)
next
  case (refused h e candle bubbles err e')
  then show ?case by (auto simp: ingest_finalized_def split: sum.splits)
qed

section \<open>Properties\<close>

text \<open>
  C24: Every structural level an engine shows is explained by the candles it accepted.  A naked level
  comes from a bubble that the following candle did not come back to; a reaction level from the strongest
  bubble of a candle that is a strict high or low between its neighbours; a top level from a directional
  bubble.  A naked or reaction level is touched exactly when a later candle came within the tolerance of its
  price, and carries the end of the first such candle; a top level is never touched.
\<close>

theorem levels_explained:
  assumes "engine_reach h e" and "l \<in> set (engine_snapshot e)"
  shows "explained (se_grid e) (se_config e) h l"
  using engine_reach_inv [OF assms(1)] assms(2) by (simp add: engine_inv_def engine_snapshot_def)

text \<open>
  An engine never holds more levels than its capacity, never more daily or weekly top levels of one
  side than configured, and all of them belong to the day and week of the last accepted candle.
\<close>

theorem levels_bounded:
  assumes "engine_reach h e"
  shows "length (engine_snapshot e) \<le> slc_max_levels (se_config e) \<and>
    (\<forall>kind direction. (kind = TopDay \<or> kind = TopWeek) \<and> direction \<noteq> NeutralBubble \<longrightarrow>
      length (filter (\<lambda>l. sl_kind l = kind \<and> sl_direction l = direction) (engine_snapshot e)) \<le> slc_top_per_side (se_config e)) \<and>
    (\<forall>l \<in> set (engine_snapshot e).
      (sl_kind l = TopDay \<longrightarrow> sl_window_start_ns l = Some (window_start (cf_start_ts (fr_candle (last h))) DAY_NS)) \<and>
      (sl_kind l = TopWeek \<longrightarrow> sl_window_start_ns l = Some (window_start (cf_start_ts (fr_candle (last h))) WEEK_NS)))"
  using engine_reach_inv [OF assms] by (simp add: engine_inv_def engine_snapshot_def)

text \<open>
  Trimming a window keeps, per side, the configured number of its strongest levels, on ties the ones with
  the smaller bubble identifiers, and leaves every other level in place.  Strengths have to share one
  scale, as the strengths of one grid do.
\<close>

theorem top_levels_strongest:
  assumes "direction \<noteq> NeutralBubble"
    and "\<forall>l \<in> set (se_levels e). is_top kind window direction l \<longrightarrow> scale (sl_strength l) = s"
  shows "\<exists>gone stay. stay = filter (is_top kind window direction) (se_levels (trim_top e kind window)) \<and>
    mset (filter (is_top kind window direction) (se_levels e)) = mset stay + mset gone \<and>
    length stay = min (slc_top_per_side (se_config e)) (length (filter (is_top kind window direction) (se_levels e))) \<and>
    (\<forall>g \<in> set gone. \<forall>k \<in> set stay. coefficient (sl_strength g) < coefficient (sl_strength k) \<or>
      sl_strength g = sl_strength k \<and> sl_source_bubble_id k \<le> sl_source_bubble_id g) \<and>
    filter (\<lambda>l. sl_kind l \<noteq> kind \<or> sl_window_start_ns l \<noteq> Some window \<or> sl_direction l = NeutralBubble) (se_levels (trim_top e kind window)) =
    filter (\<lambda>l. sl_kind l \<noteq> kind \<or> sl_window_start_ns l \<noteq> Some window \<or> sl_direction l = NeutralBubble) (se_levels e)"
proof -
  let ?n = "slc_top_per_side (se_config e)" and ?ls = "se_levels e" and ?t = "is_top kind window direction"
  let ?o = "\<lambda>l. sl_kind l \<noteq> kind \<or> sl_window_start_ns l \<noteq> Some window \<or> sl_direction l = NeutralBubble"
  define bs where "bs = trim_side ?n kind window ?ls BuyBubble"
  have ls: "se_levels (trim_top e kind window) = trim_side ?n kind window bs SellBubble" by (simp add: trim_top_def bs_def)
  have "filter ?o (se_levels (trim_top e kind window)) = filter ?o bs" unfolding ls
    by (intro trim_side_others) (auto simp: is_top_def)
  also have "\<dots> = filter ?o ?ls" unfolding bs_def by (intro trim_side_others) (auto simp: is_top_def)
  finally have others: "filter ?o (se_levels (trim_top e kind window)) = filter ?o ?ls" .
  have swap: "filter (is_top kind window d) (trim_side ?n kind window xs d') = filter (is_top kind window d) xs" if "d \<noteq> d'" for d d' xs
    using that by (intro trim_side_others) (auto simp: is_top_def)
  obtain xs where xs: "filter ?t (se_levels (trim_top e kind window)) = filter ?t (trim_side ?n kind window xs direction)"
    "filter ?t xs = filter ?t ?ls" "set xs \<subseteq> set ?ls"
    using assms(1) swap [of BuyBubble SellBubble bs] swap [of SellBubble BuyBubble ?ls] set_trim_side
    unfolding ls bs_def by (cases direction) blast+
  have "\<forall>l \<in> set xs. ?t l \<longrightarrow> scale (sl_strength l) = s" using assms(2) xs(3) by blast
  from trim_side_strongest [OF this, of ?n] trim_side_count [of kind window direction ?n xs]
  have "\<exists>gone. mset (filter ?t ?ls) = mset (filter ?t (se_levels (trim_top e kind window))) + mset gone \<and>
      (\<forall>g \<in> set gone. \<forall>k \<in> set (filter ?t (se_levels (trim_top e kind window))).
        coefficient (sl_strength g) < coefficient (sl_strength k) \<or>
        sl_strength g = sl_strength k \<and> sl_source_bubble_id k \<le> sl_source_bubble_id g)"
    "length (filter ?t (se_levels (trim_top e kind window))) = min ?n (length (filter ?t ?ls))"
    unfolding xs(1,2) by blast+
  then show ?thesis using others by (elim exE conjE, intro exI conjI) (rule refl, assumption+)
qed

section \<open>A concrete engine\<close>

definition level_candle :: "i64 \<Rightarrow> int \<Rightarrow> int \<Rightarrow> candle_flow" where
  "level_candle start high low =
     \<lparr>cf_schema_version = 1, cf_state = FinalFlow, cf_instrument = InstrumentId 7, cf_start_ts = start, cf_end_ts = start + 60,
      cf_high = Some (Price \<lparr>coefficient = high, scale = 0\<rparr>), cf_low = Some (Price \<lparr>coefficient = low, scale = 0\<rparr>),
      cf_total_volume = small_quantity 0, cf_trade_count = 0, cf_sources = []\<rparr>"

definition level_bubble :: "i64 \<Rightarrow> w64 \<Rightarrow> bubble_direction \<Rightarrow> int \<Rightarrow> int \<Rightarrow> order_flow_bubble" where
  "level_bubble start number direction price strength =
     \<lparr>ob_id = number, ob_instrument = InstrumentId 7, ob_candle_start_ns = start, ob_candle_end_ns = start + 60,
      ob_segment = SpotSegment, ob_sources = [], ob_tier = F1, ob_mode = VolumeMode, ob_direction = direction,
      ob_anchor_price = Price \<lparr>coefficient = price, scale = 0\<rparr>, ob_low_price = Price \<lparr>coefficient = price, scale = 0\<rparr>,
      ob_high_price = Price \<lparr>coefficient = price, scale = 0\<rparr>, ob_buy_volume = small_quantity 0, ob_sell_volume = small_quantity 0,
      ob_unknown_volume = small_quantity 0, ob_total_volume = small_quantity strength,
      ob_delta = \<lparr>coefficient = 0, scale = 0\<rparr>, ob_strength = \<lparr>coefficient = strength, scale = 0\<rparr>,
      ob_threshold = \<lparr>coefficient = 1, scale = 0\<rparr>, ob_visual_size = 1, ob_label = None, ob_shape = Circle, ob_merged_count = 1\<rparr>"

definition sample_engine :: structural_level_engine where
  "sample_engine = \<lparr>se_grid = fb_grid sample_flow_builder,
     se_config = \<lparr>slc_touch_tolerance_ticks = 0, slc_max_levels = 4, slc_top_per_side = 1\<rparr>,
     se_last_candle_start_ns = None, se_frames = [], se_pending_naked = [], se_levels = []\<rparr>"

text \<open>The levels a day and a week window create from one bubble.\<close>

definition sample_tops :: "i64 \<Rightarrow> order_flow_bubble \<Rightarrow> structural_level list" where
  "sample_tops created b =
     [level_from_bubble TopDay (ob_anchor_price b) created (Some 0) (Some DAY_NS) b,
      level_from_bubble TopWeek (ob_anchor_price b) created (Some 0) (Some WEEK_NS) b]"

definition sample_engine_one :: structural_level_engine where
  "sample_engine_one =
     (let b = level_bubble 0 1 BuyBubble 20 100 in
      sample_engine\<lparr>se_last_candle_start_ns := Some 0,
        se_frames := [\<lparr>fr_candle = level_candle 0 20 10, fr_bubbles = [b]\<rparr>],
        se_pending_naked := [b], se_levels := sample_tops 60 b\<rparr>)"

definition sample_engine_two :: structural_level_engine where
  "sample_engine_two =
     (let b = level_bubble 0 1 BuyBubble 20 100; c = level_bubble 60 2 SellBubble 10 1 in
      sample_engine\<lparr>se_last_candle_start_ns := Some 60,
        se_frames := [\<lparr>fr_candle = level_candle 0 20 10, fr_bubbles = [b]\<rparr>, \<lparr>fr_candle = level_candle 60 15 10, fr_bubbles = [c]\<rparr>],
        se_pending_naked := [c],
        se_levels := drop 1 (sample_tops 60 b @ [level_from_bubble Naked (ob_anchor_price b) 120 None None b] @ sample_tops 120 c)\<rparr>)"

lemmas sample_engine_defs = sample_engine_def level_candle_def level_bubble_def sample_bubble_defs

lemma sample_first_check:
  "check_candle sample_engine (level_candle 0 20 10) [level_bubble 0 1 BuyBubble 20 100] = Inr (2, 4)"
  by code_simp

lemma sample_first_tops:
  "update_top_levels (sample_engine\<lparr>se_frames := [\<lparr>fr_candle = level_candle 0 20 10, fr_bubbles = [level_bubble 0 1 BuyBubble 20 100]\<rparr>]\<rparr>)
     (level_candle 0 20 10) [level_bubble 0 1 BuyBubble 20 100] =
   Inr (sample_engine\<lparr>se_frames := [\<lparr>fr_candle = level_candle 0 20 10, fr_bubbles = [level_bubble 0 1 BuyBubble 20 100]\<rparr>],
     se_levels := sample_tops 60 (level_bubble 0 1 BuyBubble 20 100)\<rparr>)"
  by code_simp

lemma sample_engine_first:
  "ingest_finalized sample_engine (level_candle 0 20 10) [level_bubble 0 1 BuyBubble 20 100] = (Inr (), sample_engine_one)"
proof -
  have "touch_existing sample_engine c l h = Inr sample_engine" "activate_naked sample_engine c l h = Inr sample_engine" for c l h
    by (simp_all add: touch_existing_def activate_naked_def sample_engine_def)
  moreover have "confirm_reactions (sample_engine\<lparr>se_frames := pop_frames (se_frames sample_engine @ [f])\<rparr>) = Inr (sample_engine\<lparr>se_frames := [f]\<rparr>)" for f
    by (simp add: confirm_reactions_def sample_engine_def)
  ultimately show ?thesis
    by (simp add: ingest_finalized_def ingest_checked_def sample_first_check sample_first_tops)
      (simp add: sample_engine_one_def enforce_capacity_def evict.simps sample_tops_def sample_engine_def level_candle_def Let_def)
qed

definition sample_pending :: structural_level_engine where
  "sample_pending =
     (let b = level_bubble 0 1 BuyBubble 20 100; c = level_bubble 60 2 SellBubble 10 1 in
      sample_engine_one\<lparr>se_frames := [\<lparr>fr_candle = level_candle 0 20 10, fr_bubbles = [b]\<rparr>, \<lparr>fr_candle = level_candle 60 15 10, fr_bubbles = [c]\<rparr>],
        se_pending_naked := [],
        se_levels := sample_tops 60 b @ [level_from_bubble Naked (ob_anchor_price b) 120 None None b]\<rparr>)"

lemma sample_second_check:
  "check_candle sample_engine_one (level_candle 60 15 10) [level_bubble 60 2 SellBubble 10 1] = Inr (2, 3)"
  by code_simp

lemma sample_second_touch:
  "touch_existing sample_engine_one (level_candle 60 15 10) 2 3 = Inr sample_engine_one"
  by (simp add: touch_existing_def sample_engine_one_def Let_def sample_tops_def touch_level_def)

lemma sample_second_naked:
  "activate_naked sample_engine_one (level_candle 60 15 10) 2 3 =
     Inr (sample_pending\<lparr>se_frames := se_frames sample_engine_one\<rparr>)"
  by code_simp

lemma sample_second_tops:
  "update_top_levels sample_pending (level_candle 60 15 10) [level_bubble 60 2 SellBubble 10 1] =
     Inr (sample_pending\<lparr>se_levels := se_levels sample_pending @ sample_tops 120 (level_bubble 60 2 SellBubble 10 1)\<rparr>)"
  by code_simp

lemma sample_second_evict:
  "enforce_capacity (sample_pending\<lparr>se_levels := se_levels sample_pending @ sample_tops 120 (level_bubble 60 2 SellBubble 10 1),
     se_pending_naked := [level_bubble 60 2 SellBubble 10 1], se_last_candle_start_ns := Some 60\<rparr>) = sample_engine_two"
  by code_simp

lemma sample_engine_second:
  "ingest_finalized sample_engine_one (level_candle 60 15 10) [level_bubble 60 2 SellBubble 10 1] = (Inr (), sample_engine_two)"
proof -
  let ?f = "\<lparr>fr_candle = level_candle 60 15 10, fr_bubbles = [level_bubble 60 2 SellBubble 10 1]\<rparr>"
  have "sample_pending\<lparr>se_frames := pop_frames (se_frames sample_engine_one @ [?f])\<rparr> = sample_pending"
    by (simp add: sample_pending_def sample_engine_one_def Let_def)
  moreover have "confirm_reactions sample_pending = Inr sample_pending"
    by (simp add: confirm_reactions_def sample_pending_def Let_def)
  moreover have "cf_start_ts (level_candle 60 15 10) = 60" by (simp add: level_candle_def)
  ultimately show ?thesis
    by (simp add: ingest_finalized_def ingest_checked_def sample_second_check sample_second_touch sample_second_naked
        sample_second_tops sample_second_evict)
qed

lemma sample_engine_reach:
  "engine_reach [\<lparr>fr_candle = level_candle 0 20 10, fr_bubbles = [level_bubble 0 1 BuyBubble 20 100]\<rparr>,
     \<lparr>fr_candle = level_candle 60 15 10, fr_bubbles = [level_bubble 60 2 SellBubble 10 1]\<rparr>] sample_engine_two"
proof -
  have "engine_new (se_grid sample_engine) (se_config sample_engine) = Inr sample_engine" by code_simp
  from accepted [OF accepted [OF fresh [OF this] sample_engine_first] sample_engine_second] show ?thesis by simp
qed

theorem levels_explained_witness:
  "list_all (explained (se_grid sample_engine) (se_config sample_engine)
     [\<lparr>fr_candle = level_candle 0 20 10, fr_bubbles = [level_bubble 0 1 BuyBubble 20 100]\<rparr>,
      \<lparr>fr_candle = level_candle 60 15 10, fr_bubbles = [level_bubble 60 2 SellBubble 10 1]\<rparr>]) (engine_snapshot sample_engine_two) \<and>
   map sl_kind (engine_snapshot sample_engine_two) = [TopWeek, Naked, TopDay, TopWeek]"
proof -
  have "se_grid sample_engine_two = se_grid sample_engine" "se_config sample_engine_two = se_config sample_engine"
    "map sl_kind (engine_snapshot sample_engine_two) = [TopWeek, Naked, TopDay, TopWeek]"
    by (simp_all add: sample_engine_two_def Let_def engine_snapshot_def sample_tops_def)
  with levels_explained [OF sample_engine_reach] show ?thesis by (simp add: list_all_iff)
qed

theorem levels_bounded_witness:
  "length (engine_snapshot sample_engine_two) = 4 \<and>
   length (filter (\<lambda>l. sl_kind l = TopWeek \<and> sl_direction l = BuyBubble) (engine_snapshot sample_engine_two)) \<le> 1"
proof -
  have "slc_top_per_side (se_config sample_engine_two) = 1" "length (engine_snapshot sample_engine_two) = 4"
    by (simp_all add: sample_engine_two_def sample_engine_def Let_def engine_snapshot_def sample_tops_def)
  moreover from levels_bounded [OF sample_engine_reach]
  have "length (filter (\<lambda>l. sl_kind l = TopWeek \<and> sl_direction l = BuyBubble) (engine_snapshot sample_engine_two)) \<le>
      slc_top_per_side (se_config sample_engine_two)" by blast
  ultimately show ?thesis by simp
qed

theorem top_levels_strongest_witness:
  "\<exists>(gone :: structural_level list) stay. map (coefficient \<circ> sl_strength) stay = [100] \<and> map (coefficient \<circ> sl_strength) gone = [7] \<and>
     stay = filter (is_top TopDay 0 BuyBubble) (se_levels (trim_top (sample_engine\<lparr>se_levels := map (\<lambda>b.
       level_from_bubble TopDay (ob_anchor_price b) 60 (Some 0) (Some DAY_NS) b)
       [level_bubble 0 5 BuyBubble 20 7, level_bubble 0 1 BuyBubble 20 100]\<rparr>) TopDay 0))"
proof -
  let ?e = "sample_engine\<lparr>se_levels := map (\<lambda>b. level_from_bubble TopDay (ob_anchor_price b) 60 (Some 0) (Some DAY_NS) b)
    [level_bubble 0 5 BuyBubble 20 7, level_bubble 0 1 BuyBubble 20 100]\<rparr>"
  have stay: "map (coefficient \<circ> sl_strength) (filter (is_top TopDay 0 BuyBubble) (se_levels (trim_top ?e TopDay 0))) = [100]"
    by code_simp
  have all: "mset (map (coefficient \<circ> sl_strength) (filter (is_top TopDay 0 BuyBubble) (se_levels ?e))) = {#7, 100#}"
    by (simp add: is_top_def level_from_bubble_def level_bubble_def)
  have "\<forall>l \<in> set (se_levels ?e). is_top TopDay 0 BuyBubble l \<longrightarrow> scale (sl_strength l) = 0"
    by (simp add: level_from_bubble_def level_bubble_def)
  from top_levels_strongest [OF _ this] obtain gone
    where gone: "mset (filter (is_top TopDay 0 BuyBubble) (se_levels ?e)) =
      mset (filter (is_top TopDay 0 BuyBubble) (se_levels (trim_top ?e TopDay 0))) + mset gone" by auto
  have "{#7, 100#} = mset (map (coefficient \<circ> sl_strength)
      (filter (is_top TopDay 0 BuyBubble) (se_levels (trim_top ?e TopDay 0)))) + mset (map (coefficient \<circ> sl_strength) gone)"
    unfolding all [symmetric] mset_map gone image_mset_union by (rule refl)
  then have "{#7#} = mset (map (coefficient \<circ> sl_strength) gone)" unfolding stay by simp
  then have seven: "map (coefficient \<circ> sl_strength) gone = [7]" by (metis mset_single_iff)
  show ?thesis by (rule exI [of _ gone], rule exI, intro conjI, rule stay, rule seven, rule refl)
qed


end
