(* ===== verification/Crc32c.thy ===== *)
theory Crc32c
  imports Prelude
begin

text \<open>
  The checksum of \<^verbatim>\<open>recording/src/crc32c.rs\<close>: the table-driven code is the bitwise CRC-32C, and it changes with
  every change of up to four consecutive bytes.
\<close>

unbundle bit_operations_syntax

section \<open>Definitions\<close>

definition POLY :: "32 word" where "POLY = 0x82F63B78"

definition crc_shift :: "32 word \<Rightarrow> 32 word" where
  "crc_shift crc = (if crc AND 1 \<noteq> 0 then drop_bit 1 crc XOR POLY else drop_bit 1 crc)"

definition crc_table :: "32 word list" where
  "crc_table = map (\<lambda>i. (crc_shift ^^ 8) (of_nat i)) [0..<256]"

definition crc_step :: "32 word list \<Rightarrow> 32 word \<Rightarrow> 8 word \<Rightarrow> 32 word" where
  "crc_step table crc b = table ! unat ((crc XOR ucast b) AND 0xFF) XOR drop_bit 8 crc"

definition crc32c :: "8 word list \<Rightarrow> 32 word" where
  "crc32c data = (let table = crc_table in foldl (crc_step table) 0xFFFFFFFF data XOR 0xFFFFFFFF)"

text \<open>The checksum one bit at a time, without a table.\<close>

definition crc_byte :: "32 word \<Rightarrow> 8 word \<Rightarrow> 32 word" where
  "crc_byte crc b = (crc_shift ^^ 8) (crc XOR ucast b)"

definition crc32c_bitwise :: "8 word list \<Rightarrow> 32 word" where
  "crc32c_bitwise data = foldl crc_byte 0xFFFFFFFF data XOR 0xFFFFFFFF"

section \<open>One shift\<close>

lemma bit_crc_shift: "n < 32 \<Longrightarrow> bit (crc_shift x) n \<longleftrightarrow> bit x (Suc n) \<noteq> (bit x 0 \<and> bit POLY n)"
proof -
  have "(x AND 1 \<noteq> 0) = bit x 0" by (simp add: bit_0 and_one_eq odd_iff_mod_2_eq_one)
  moreover assume "n < 32"
  ultimately show ?thesis by (auto simp: crc_shift_def bit_xor_iff bit_drop_bit_eq)
qed

lemma crc_shift_xor: "crc_shift (x XOR y) = crc_shift x XOR crc_shift y"
  by (rule bit_eqI) (auto simp: bit_crc_shift bit_xor_iff)

lemma crc_shifts_xor: "(crc_shift ^^ n) (x XOR y) = (crc_shift ^^ n) x XOR (crc_shift ^^ n) y"
  by (induction n) (simp_all add: crc_shift_xor)

text \<open>The top bit of the polynomial is set, so a shift loses nothing.\<close>

lemma crc_shift_zero:
  assumes "crc_shift x = 0"
  shows "x = 0"
proof (rule bit_word_eqI)
  fix n assume "n < LENGTH(32)"
  have no: "bit x (Suc n) \<longleftrightarrow> bit x 0 \<and> bit POLY n" if "n < 32" for n using bit_crc_shift [OF that, of x] assms by simp
  have "bit POLY 31" by (simp add: POLY_def)
  moreover have "\<not> bit x (Suc 31)" using bit_imp_le_length [of x "Suc 31"] by auto
  ultimately have zero: "\<not> bit x 0" using no [of 31] by simp
  with no [of "n - 1"] \<open>n < LENGTH(32)\<close> show "bit x n \<longleftrightarrow> bit (0 :: 32 word) n" by (cases n) auto
qed

lemma xor_eq_0_iff: "x XOR y = 0 \<longleftrightarrow> x = y" for x y :: "32 word"
  by (metis xor.right_neutral xor.left_commute xor_self_eq)

lemma xor_cancel [simp]: "x XOR y = x XOR z \<longleftrightarrow> y = z" "y XOR x = z XOR x \<longleftrightarrow> y = z" for x y z :: "32 word"
proof -
  have same: "x XOR (x XOR y) = y" for x y :: "32 word" by (simp flip: xor.assoc)
  show "x XOR y = x XOR z \<longleftrightarrow> y = z" by (metis same)
  then show "y XOR x = z XOR x \<longleftrightarrow> y = z" by (simp add: xor.commute)
qed

lemma inj_crc_shift: "inj crc_shift"
  by (rule injI) (metis crc_shift_xor crc_shift_zero xor_eq_0_iff)

lemma crc_shifts_eq_iff [simp]: "(crc_shift ^^ n) x = (crc_shift ^^ n) y \<longleftrightarrow> x = y"
  by (induction n) (auto simp: inj_eq [OF inj_crc_shift])

text \<open>Shifting out zeros undoes a left shift that loses no bits.\<close>

lemma crc_shift_push:
  assumes "\<forall>i. bit y i \<longrightarrow> i + Suc n < 32"
  shows "crc_shift (push_bit (Suc n) y) = push_bit n y"
proof (rule bit_word_eqI)
  fix i assume "i < LENGTH(32)"
  then have i: "i < 32" by simp
  have bit: "bit (push_bit m y) j \<longleftrightarrow> m \<le> j \<and> j < 32 \<and> bit y (j - m)" for m j
    using bit_imp_le_length [of y "j - m"] by (auto simp only: bit_push_bit_iff) auto
  show "bit (crc_shift (push_bit (Suc n) y)) i = bit (push_bit n y) i"
    using assms i unfolding bit_crc_shift [OF i] bit by force
qed

lemma crc_shifts_push: "\<forall>i. bit y i \<longrightarrow> i + n < 32 \<Longrightarrow> (crc_shift ^^ n) (push_bit n y) = y"
proof (induction n)
  case (Suc n)
  have "(crc_shift ^^ Suc n) (push_bit (Suc n) y) = (crc_shift ^^ n) (crc_shift (push_bit (Suc n) y))"
    by (simp only: funpow_Suc_right o_apply)
  also have "\<dots> = (crc_shift ^^ n) (push_bit n y)" by (subst crc_shift_push [OF Suc.prems]) (rule refl)
  also have "\<dots> = y" using Suc.prems by (intro Suc.IH) auto
  finally show ?case .
qed simp

section \<open>The table\<close>

lemma byte_bits: "bit (ucast (b :: 8 word) :: 32 word) i \<longleftrightarrow> i < 8 \<and> bit b i"
  using bit_imp_le_length [of b i] by (auto simp: bit_ucast_iff)

lemma low_byte_bits: "bit (x AND 0xFF :: 32 word) i \<longleftrightarrow> i < 8 \<and> bit x i"
proof -
  have mask: "(0xFF :: 32 word) = mask 8" by (simp add: mask_eq_exp_minus_1)
  show ?thesis unfolding mask take_bit_eq_mask [symmetric] by (simp add: bit_take_bit_iff)
qed

lemma table_entry: "crc_table ! unat (x AND 0xFF) = (crc_shift ^^ 8) (x AND 0xFF)"
proof -
  have "x AND 0xFF \<le> 0xFF" by (rule word_and_le1)
  then have "unat (x AND 0xFF) < 256" by (simp add: word_le_nat_alt)
  then show ?thesis by (simp add: crc_table_def)
qed

lemma crc_shifts_byte: "(crc_shift ^^ 8) x = (crc_shift ^^ 8) (x AND 0xFF) XOR drop_bit 8 x"
proof -
  have split: "x = (x AND 0xFF) XOR push_bit 8 (drop_bit 8 x)"
  proof (rule bit_word_eqI)
    fix i assume "i < LENGTH(32)"
    then show "bit x i = bit ((x AND 0xFF) XOR push_bit 8 (drop_bit 8 x)) i"
      by (auto simp: bit_xor_iff low_byte_bits bit_push_bit_iff bit_drop_bit_eq)
  qed
  have "(crc_shift ^^ 8) (push_bit 8 (drop_bit 8 x)) = drop_bit 8 x"
    by (rule crc_shifts_push) (auto simp: bit_drop_bit_eq dest: bit_imp_le_length)
  then show ?thesis by (subst split) (simp only: crc_shifts_xor)
qed

lemma crc_step_eq: "crc_step crc_table = crc_byte"
proof (intro ext)
  fix x :: "32 word" and b :: "8 word"
  have "drop_bit 8 (x XOR ucast b) = drop_bit 8 x"
    by (rule bit_word_eqI) (simp add: bit_drop_bit_eq bit_xor_iff byte_bits)
  then show "crc_step crc_table x b = crc_byte x b"
    unfolding crc_step_def crc_byte_def table_entry by (subst (2) crc_shifts_byte) simp
qed

section \<open>Bursts\<close>

primrec le_word :: "8 word list \<Rightarrow> 32 word" where
  "le_word [] = 0"
| "le_word (b # bs) = ucast b XOR push_bit 8 (le_word bs)"

lemma le_word_bits: "bit (le_word bs) i \<longleftrightarrow> i < 32 \<and> i div 8 < length bs \<and> bit (bs ! (i div 8)) (i mod 8)"
proof (induction bs arbitrary: i)
  case (Cons b bs)
  have "bit (push_bit 8 (le_word bs)) i \<longleftrightarrow> 8 \<le> i \<and> i < 32 \<and> bit (le_word bs) (i - 8)"
    using bit_imp_le_length [of "le_word bs" "i - 8"] by (auto simp: bit_push_bit_iff)
  moreover have "i div 8 = Suc ((i - 8) div 8)" "i mod 8 = (i - 8) mod 8" if "8 \<le> i" using that by (simp_all add: le_div_geq le_mod_geq)
  ultimately show ?case by (cases "i < 8") (auto simp: bit_xor_iff byte_bits Cons.IH)
qed simp

lemma crc_burst:
  "length bs \<le> 4 \<Longrightarrow> foldl crc_byte s bs = (crc_shift ^^ (8 * length bs)) (s XOR le_word bs)"
proof (induction bs arbitrary: s)
  case (Cons b bs)
  have "(crc_shift ^^ 8) (push_bit 8 (le_word bs)) = le_word bs"
    using Cons.prems by (intro crc_shifts_push) (auto simp: le_word_bits div_less_iff_less_mult)
  then have "crc_byte s b XOR le_word bs = (crc_shift ^^ 8) (s XOR le_word (b # bs))"
    by (simp add: crc_byte_def flip: crc_shifts_xor) (simp add: crc_shifts_xor xor.assoc)
  with Cons show ?case by (simp add: funpow_add [symmetric, THEN fun_cong, simplified o_apply] add.commute)
qed simp

lemma le_word_inj:
  assumes "length bs = length cs" and "length bs \<le> 4" and "le_word bs = le_word cs"
  shows "bs = cs"
proof (rule nth_equalityI)
  fix k assume k: "k < length bs"
  show "bs ! k = cs ! k"
  proof (rule bit_word_eqI)
    fix i assume "i < LENGTH(8)"
    then have i: "i < 8" by simp
    then have "(8 * k + i) div 8 = k" "(8 * k + i) mod 8 = i" "8 * k + i < 32" using k assms(2) by auto
    then show "bit (bs ! k) i = bit (cs ! k) i"
      using le_word_bits [of bs "8 * k + i"] le_word_bits [of cs "8 * k + i"] k assms by simp
  qed
qed (rule assms)

lemma crc_fold_inj: "foldl crc_byte s bs = foldl crc_byte t bs \<longleftrightarrow> s = t"
proof (induction bs arbitrary: s t)
  case (Cons b bs)
  have "crc_byte s b = crc_byte t b \<longleftrightarrow> s = t"
    by (simp add: crc_byte_def)
  with Cons.IH show ?case by simp
qed simp

lemma burst_changes_crc:
  assumes "length bad = length good" and "length good \<le> 4" and "bad \<noteq> good"
  shows "crc32c (before @ bad @ after) \<noteq> crc32c (before @ good @ after)"
proof
  assume "crc32c (before @ bad @ after) = crc32c (before @ good @ after)"
  then have "foldl crc_byte 0xFFFFFFFF (before @ bad @ after) = foldl crc_byte 0xFFFFFFFF (before @ good @ after)"
    by (simp add: crc32c_def crc_step_eq Let_def del: foldl_append)
  then have "foldl crc_byte (foldl crc_byte 0xFFFFFFFF before) bad = foldl crc_byte (foldl crc_byte 0xFFFFFFFF before) good"
    by (simp add: crc_fold_inj)
  then have "le_word bad = le_word good"
    using assms by (simp add: crc_burst)
  then have "bad = good" using assms by (intro le_word_inj) simp_all
  with assms(3) show False by simp
qed

section \<open>Properties\<close>

text \<open>
  C31: The table-driven checksum of \<^verbatim>\<open>crc32c\<close> is the bit-by-bit Castagnoli checksum, for every input.
\<close>

theorem crc32c_is_bitwise: "crc32c data = crc32c_bitwise data"
  by (simp add: crc32c_def crc32c_bitwise_def crc_step_eq Let_def)

text \<open>
  The checksum detects every corruption confined to four consecutive bytes, in data of any length.
\<close>

theorem crc32c_detects_bursts:
  assumes "length bad = length good" and "length good \<le> 4" and "bad \<noteq> good"
  shows "crc32c (before @ bad @ after) \<noteq> crc32c (before @ good @ after)"
  using assms by (rule burst_changes_crc)

theorem crc32c_detects_bursts_witness:
  "crc32c ([1, 2] @ [7, 4] @ [5]) \<noteq> crc32c ([1, 2] @ [3, 4] @ [5])"
  by (rule crc32c_detects_bursts) simp_all

end
