(* ===== verification/Recording.thy ===== *)
theory Recording
  imports Bytes Crc32c Model
begin

text \<open>
  The segment format of \<^verbatim>\<open>recording/src/format.rs\<close>, \<^verbatim>\<open>writer.rs\<close> and \<^verbatim>\<open>reader.rs\<close>.  A file is a sink
  that takes bytes until its room is used up, so a write can fail after any byte.  What was acknowledged is
  read back whatever the writer left behind it, a corrupted payload is refused, and a record repeated after a
  partial write makes the segment unreadable.
\<close>

section \<open>Format\<close>

definition MAGIC :: "8 word list" where "MAGIC = [0x4D, 0x46, 0x52, 0x31]"
definition FORMAT_VERSION :: u16 where "FORMAT_VERSION = 3"
definition MIN_SUPPORTED_FORMAT_VERSION :: u16 where "MIN_SUPPORTED_FORMAT_VERSION = 1"
definition HEADER_SIZE :: usize where "HEADER_SIZE = 4 + 2 + 8 + 8"
definition MAX_RAW_RECORD_LEN :: u32 where "MAX_RAW_RECORD_LEN = 16 * 1024 * 1024"
definition RAW_HEADER_BODY_LEN :: usize where "RAW_HEADER_BODY_LEN = 8 + 8 + 8 + 8 + 1 + 1 + 1 + 4 + 4"

datatype direction = Inbound | Outbound

fun direction_u8 :: "direction \<Rightarrow> 8 word" where
  "direction_u8 Inbound = 0"
| "direction_u8 Outbound = 1"

definition direction_from_u8 :: "8 word \<Rightarrow> direction option" where
  "direction_from_u8 v = (if v = 0 then Some Inbound else if v = 1 then Some Outbound else None)"

datatype frame_opcode =
    TextFrame | BinaryFrame | PingFrame | PongFrame | CloseFrame | HttpResponseFrame | MetadataFrame
  | SubscriptionCommandFrame

fun opcode_u8 :: "frame_opcode \<Rightarrow> 8 word" where
  "opcode_u8 TextFrame = 1"
| "opcode_u8 BinaryFrame = 2"
| "opcode_u8 PingFrame = 3"
| "opcode_u8 PongFrame = 4"
| "opcode_u8 CloseFrame = 5"
| "opcode_u8 HttpResponseFrame = 6"
| "opcode_u8 MetadataFrame = 7"
| "opcode_u8 SubscriptionCommandFrame = 8"

definition opcode_from_u8_for_version :: "8 word \<Rightarrow> u16 \<Rightarrow> frame_opcode option" where
  "opcode_from_u8_for_version v version =
     (if v = 1 then Some TextFrame else if v = 2 then Some BinaryFrame else if v = 3 then Some PingFrame
      else if v = 4 then Some PongFrame else if v = 5 then Some CloseFrame
      else if v = 6 \<and> 2 \<le> version then Some HttpResponseFrame
      else if v = 7 \<and> 2 \<le> version then Some MetadataFrame
      else if v = 8 \<and> 3 \<le> version then Some SubscriptionCommandFrame else None)"

record raw_record_header =
  rh_record_len :: u32
  rh_session :: session_id
  rh_frame_seq :: w64
  rh_receive_ts_ns :: i64
  rh_monotonic_ns :: w64
  rh_direction :: direction
  rh_opcode :: frame_opcode
  rh_flags :: "8 word"
  rh_payload_len :: u32
  rh_payload_crc32c :: "32 word"

record raw_record =
  rr_header :: raw_record_header
  rr_payload :: "8 word list"

datatype recording_error =
    Io string
  | BadMagic
  | UnsupportedVersion u16
  | Truncated
  | CrcMismatch
  | InvalidHeader
  | MetadataConflict string
  | InvalidControlCommand string
  | RecordTooLarge u32 u32
  | RecordingQueueFull
  | UnsupportedOverflow overflow_policy
  | ShutdownTimeout usize
  | NormalizedBoundExceeded string w64
  | DiskFull

text \<open>A frame to be recorded; the arguments of \<^verbatim>\<open>write_record\<close> are its fields.\<close>

record pending_frame =
  pf_session :: session_id
  pf_frame_seq :: w64
  pf_receive_ts_ns :: i64
  pf_monotonic_ns :: w64
  pf_direction :: direction
  pf_opcode :: frame_opcode
  pf_flags :: "8 word"
  pf_payload :: "8 word list"

section \<open>Writer\<close>

text \<open>
  An \<^verbatim>\<open>io::Write\<close>: the bytes it has taken, the room it has left (none for a \<^verbatim>\<open>Vec<u8>\<close>) and the message of the
  error it returns when the room is used up.  \<^verbatim>\<open>write_all\<close> then leaves the part that fitted behind.  A sink that has
  run out of room stays full; \<open>retried_record_ruins_segment\<close> below is about one that does not.
\<close>

record byte_sink =
  sk_bytes :: "8 word list"
  sk_room :: "nat option"
  sk_error :: string

definition write_all :: "byte_sink \<Rightarrow> 8 word list \<Rightarrow> (recording_error + unit) \<times> byte_sink" where
  "write_all s bs =
     (case sk_room s of
        None \<Rightarrow> (Inr (), s\<lparr>sk_bytes := sk_bytes s @ bs\<rparr>)
      | Some n \<Rightarrow>
          if length bs \<le> n then (Inr (), s\<lparr>sk_bytes := sk_bytes s @ bs, sk_room := Some (n - length bs)\<rparr>)
          else (Inl (Io (sk_error s)), s\<lparr>sk_bytes := sk_bytes s @ take n bs, sk_room := Some 0\<rparr>))"

record segment_writer =
  sw_writer :: byte_sink
  sw_records_written :: w64
  sw_started :: bool

definition writer_create :: "byte_sink \<Rightarrow> i64 \<Rightarrow> (recording_error + segment_writer) \<times> byte_sink" where
  "writer_create s start_ts_ns =
     sthen (write_all s MAGIC) (\<lambda>_ s.
     sthen (write_all s (le_bytes 2 (int FORMAT_VERSION))) (\<lambda>_ s.
     sthen (write_all s (le_bytes 8 start_ts_ns)) (\<lambda>_ s.
     sthen (write_all s (le_bytes 8 0)) (\<lambda>_ s.
     (Inr \<lparr>sw_writer = s, sw_records_written = 0, sw_started = True\<rparr>, s)))))"

definition session_number :: "session_id \<Rightarrow> w64" where
  "session_number s = (case s of SessionId n \<Rightarrow> n)"

text \<open>One \<^verbatim>\<open>self.writer.write_all\<close>.\<close>

definition put :: "8 word list \<Rightarrow> segment_writer \<Rightarrow> (recording_error + unit) \<times> segment_writer" where
  "put bs w = (case write_all (sw_writer w) bs of (r, s) \<Rightarrow> (r, w\<lparr>sw_writer := s\<rparr>))"

definition write_header :: "segment_writer \<Rightarrow> raw_record_header \<Rightarrow> (recording_error + unit) \<times> segment_writer" where
  "write_header w h =
     sthen (put (le_bytes 4 (int (rh_record_len h))) w) (\<lambda>_ w.
     sthen (put (le_bytes 8 (uint (session_number (rh_session h)))) w) (\<lambda>_ w.
     sthen (put (le_bytes 8 (uint (rh_frame_seq h))) w) (\<lambda>_ w.
     sthen (put (le_bytes 8 (rh_receive_ts_ns h)) w) (\<lambda>_ w.
     sthen (put (le_bytes 8 (uint (rh_monotonic_ns h))) w) (\<lambda>_ w.
     sthen (put [direction_u8 (rh_direction h)] w) (\<lambda>_ w.
     sthen (put [opcode_u8 (rh_opcode h)] w) (\<lambda>_ w.
     sthen (put [rh_flags h] w) (\<lambda>_ w.
     sthen (put (le_bytes 4 (int (rh_payload_len h))) w) (\<lambda>_ w.
     put (le_bytes 4 (uint (rh_payload_crc32c h))) w)))))))))"

definition frame_header :: "pending_frame \<Rightarrow> raw_record_header" where
  "frame_header f =
     \<lparr>rh_record_len = 4 + RAW_HEADER_BODY_LEN + length (pf_payload f), rh_session = pf_session f,
      rh_frame_seq = pf_frame_seq f, rh_receive_ts_ns = pf_receive_ts_ns f, rh_monotonic_ns = pf_monotonic_ns f,
      rh_direction = pf_direction f, rh_opcode = pf_opcode f, rh_flags = pf_flags f,
      rh_payload_len = length (pf_payload f), rh_payload_crc32c = crc32c (pf_payload f)\<rparr>"

definition write_record :: "segment_writer \<Rightarrow> pending_frame \<Rightarrow> (recording_error + unit) \<times> segment_writer" where
  "write_record w f =
     (if \<not> sw_started w then (Inl (Io ''writer not started''), w)
      else
        case checked_uint 32 (length (pf_payload f)) of
          None \<Rightarrow> (Inl InvalidHeader, w)
        | Some payload_len \<Rightarrow>
        case checked_uint 32 (4 + RAW_HEADER_BODY_LEN + length (pf_payload f)) of
          None \<Rightarrow> (Inl InvalidHeader, w)
        | Some record_len \<Rightarrow>
            if MAX_RAW_RECORD_LEN < record_len then (Inl (RecordTooLarge record_len MAX_RAW_RECORD_LEN), w)
            else
              sthen (write_header w (frame_header f)) (\<lambda>_ w.
              sthen (put (pf_payload f) w) (\<lambda>_ w.
              (Inr (), w\<lparr>sw_records_written := sw_records_written w + 1\<rparr>))))"

definition write_raw :: "segment_writer \<Rightarrow> raw_record \<Rightarrow> (recording_error + unit) \<times> segment_writer" where
  "write_raw w r =
     write_record w
       \<lparr>pf_session = rh_session (rr_header r), pf_frame_seq = rh_frame_seq (rr_header r),
        pf_receive_ts_ns = rh_receive_ts_ns (rr_header r), pf_monotonic_ns = rh_monotonic_ns (rr_header r),
        pf_direction = rh_direction (rr_header r), pf_opcode = rh_opcode (rr_header r),
        pf_flags = rh_flags (rr_header r), pf_payload = rr_payload r\<rparr>"

section \<open>Reader\<close>

text \<open>A reader over bytes in memory (\<^verbatim>\<open>RawSegmentReader::from_bytes\<close>): the bytes that are left.\<close>

record segment_reader =
  sr_rest :: "8 word list"
  sr_format_version :: u16
  sr_start_ts_ns :: i64
  sr_records_read :: w64

text \<open>\<^verbatim>\<open>read_exact\<close> on the bytes left; \<open>None\<close> is \<^verbatim>\<open>UnexpectedEof\<close>.\<close>

definition read_exact :: "nat \<Rightarrow> 8 word list \<Rightarrow> (8 word list \<times> 8 word list) option" where
  "read_exact n bs = (if n \<le> length bs then Some (take n bs, drop n bs) else None)"

definition eof :: recording_error where "eof = Io ''failed to fill whole buffer''"

definition reader_open :: "8 word list \<Rightarrow> recording_error + segment_reader" where
  "reader_open bytes =
     and_then (ok_or (read_exact 4 bytes) eof) (\<lambda>(magic, bytes).
     if magic \<noteq> MAGIC then Inl BadMagic
     else
       and_then (ok_or (read_exact 2 bytes) eof) (\<lambda>(v, bytes).
       let version = nat (le_value v) in
       if \<not> (MIN_SUPPORTED_FORMAT_VERSION \<le> version \<and> version \<le> FORMAT_VERSION) then Inl (UnsupportedVersion version)
       else
         and_then (ok_or (read_exact 8 bytes) eof) (\<lambda>(ts, bytes).
         and_then (ok_or (read_exact 8 bytes) eof) (\<lambda>(_, bytes).
         Inr \<lparr>sr_rest = bytes, sr_format_version = version, sr_start_ts_ns = i64_of_bytes ts, sr_records_read = 0\<rparr>))))"

definition byte_slice :: "'a list \<Rightarrow> nat \<Rightarrow> nat \<Rightarrow> 'a list" where
  "byte_slice xs a b = take (b - a) (drop a xs)"

text \<open>The fields of a record after its length, which is known to cover the fixed part.\<close>

definition parse_body :: "u16 \<Rightarrow> u32 \<Rightarrow> 8 word list \<Rightarrow> recording_error + raw_record" where
  "parse_body version record_len rest =
     and_then (ok_or (direction_from_u8 (rest ! 32)) InvalidHeader) (\<lambda>direction.
     and_then (ok_or (opcode_from_u8_for_version (rest ! 33) version) InvalidHeader) (\<lambda>opcode.
     let payload_len = nat (le_value (byte_slice rest 35 39));
         payload_crc = word_of_int (le_value (byte_slice rest 39 43));
         payload = drop RAW_HEADER_BODY_LEN rest in
     if length rest \<noteq> RAW_HEADER_BODY_LEN + payload_len then Inl InvalidHeader
     else if crc32c payload \<noteq> payload_crc then Inl CrcMismatch
     else Inr
       \<lparr>rr_header =
          \<lparr>rh_record_len = record_len, rh_session = SessionId (word_of_int (le_value (byte_slice rest 0 8))),
           rh_frame_seq = word_of_int (le_value (byte_slice rest 8 16)), rh_receive_ts_ns = i64_of_bytes (byte_slice rest 16 24),
           rh_monotonic_ns = word_of_int (le_value (byte_slice rest 24 32)), rh_direction = direction,
           rh_opcode = opcode, rh_flags = rest ! 34, rh_payload_len = payload_len, rh_payload_crc32c = payload_crc\<rparr>,
        rr_payload = payload\<rparr>))"

definition read_record :: "segment_reader \<Rightarrow> (recording_error + raw_record option) \<times> segment_reader" where
  "read_record r =
     (case read_exact 4 (sr_rest r) of
        None \<Rightarrow> (Inr None, r\<lparr>sr_rest := []\<rparr>)
      | Some (len_buf, bytes) \<Rightarrow>
          let record_len = nat (le_value len_buf); r = r\<lparr>sr_rest := bytes\<rparr> in
          if record_len < 4 + RAW_HEADER_BODY_LEN then (Inl InvalidHeader, r)
          else if MAX_RAW_RECORD_LEN < record_len then (Inl (RecordTooLarge record_len MAX_RAW_RECORD_LEN), r)
          else
            (case read_exact (record_len - 4) bytes of
               None \<Rightarrow> (Inl Truncated, r\<lparr>sr_rest := []\<rparr>)
             | Some (rest, bytes) \<Rightarrow>
                 (case parse_body (sr_format_version r) record_len rest of
                    Inl e \<Rightarrow> (Inl e, r\<lparr>sr_rest := bytes\<rparr>)
                  | Inr record \<Rightarrow>
                      (Inr (Some record), r\<lparr>sr_rest := bytes, sr_records_read := sr_records_read r + 1\<rparr>))))"

lemma read_record_shrinks: "read_record r = (Inr (Some record), r') \<Longrightarrow> length (sr_rest r') < length (sr_rest r)"
  by (auto simp: read_record_def read_exact_def Let_def split: if_splits option.splits sum.splits)

function read_all :: "raw_record list \<Rightarrow> segment_reader \<Rightarrow> (recording_error + raw_record list) \<times> segment_reader" where
  "read_all out r =
     (case read_record r of
        (Inr (Some record), r') \<Rightarrow> read_all (out @ [record]) r'
      | (Inr None, r') \<Rightarrow> (Inr out, r')
      | (Inl e, r') \<Rightarrow> if e = Truncated then (Inr out, r') else (Inl e, r'))"
  by pat_completeness auto

termination
  by (relation "measure (\<lambda>(out, r). length (sr_rest r))") (auto dest!: read_record_shrinks [OF sym])

declare read_all.simps [simp del]

section \<open>Codecs\<close>

lemma direction_round_trip [simp]: "direction_from_u8 (direction_u8 d) = Some d"
  by (cases d) (simp_all add: direction_from_u8_def)

lemma opcode_round_trip [simp]: "opcode_from_u8_for_version (opcode_u8 c) FORMAT_VERSION = Some c"
  by (cases c) (simp_all add: opcode_from_u8_for_version_def FORMAT_VERSION_def)

lemmas format_sizes = RAW_HEADER_BODY_LEN_def MAX_RAW_RECORD_LEN_def HEADER_SIZE_def

text \<open>The bytes of one record and of a segment header.\<close>

definition header_bytes :: "raw_record_header \<Rightarrow> 8 word list" where
  "header_bytes h =
     le_bytes 8 (uint (session_number (rh_session h))) @ le_bytes 8 (uint (rh_frame_seq h)) @
     le_bytes 8 (rh_receive_ts_ns h) @ le_bytes 8 (uint (rh_monotonic_ns h)) @ [direction_u8 (rh_direction h)] @
     [opcode_u8 (rh_opcode h)] @ [rh_flags h] @ le_bytes 4 (int (rh_payload_len h)) @ le_bytes 4 (uint (rh_payload_crc32c h))"

definition record_bytes :: "pending_frame \<Rightarrow> 8 word list" where
  "record_bytes f = le_bytes 4 (int (rh_record_len (frame_header f))) @ header_bytes (frame_header f) @ pf_payload f"

definition segment_header :: "i64 \<Rightarrow> 8 word list" where
  "segment_header ts = MAGIC @ le_bytes 2 (int FORMAT_VERSION) @ le_bytes 8 ts @ le_bytes 8 0"

definition frame_ok :: "pending_frame \<Rightarrow> bool" where
  "frame_ok f \<longleftrightarrow> 4 + RAW_HEADER_BODY_LEN + length (pf_payload f) \<le> MAX_RAW_RECORD_LEN \<and> in_i64 (pf_receive_ts_ns f)"

definition recorded :: "pending_frame \<Rightarrow> raw_record" where
  "recorded f = \<lparr>rr_header = frame_header f, rr_payload = pf_payload f\<rparr>"

lemma length_header_bytes [simp]: "length (header_bytes h) = RAW_HEADER_BODY_LEN"
  by (simp add: header_bytes_def format_sizes)

lemma length_record_bytes: "length (record_bytes f) = 4 + RAW_HEADER_BODY_LEN + length (pf_payload f)"
  by (simp add: record_bytes_def)

lemma length_segment_header [simp]: "length (segment_header ts) = HEADER_SIZE"
  by (simp add: segment_header_def format_sizes MAGIC_def)

text \<open>\<open>byte_slice\<close> of a concatenation of pieces of known length.\<close>

lemma slice_append:
  "byte_slice (xs @ ys) a b = (if b \<le> length xs then byte_slice xs a b
     else if length xs \<le> a then byte_slice ys (a - length xs) (b - length xs) else byte_slice xs a (length xs) @ byte_slice ys 0 (b - length xs))"
  by (auto simp: byte_slice_def)

lemma slice_Cons: "0 < a \<Longrightarrow> byte_slice (x # xs) a b = byte_slice xs (a - 1) (b - 1)"
  by (cases a) (simp_all add: byte_slice_def)

lemma slice_all: "length xs = b \<Longrightarrow> byte_slice xs 0 b = xs"
  by (simp add: byte_slice_def)

lemma parse_header_bytes:
  assumes "in_i64 (rh_receive_ts_ns h)" and "rh_payload_len h = length payload" and "length payload < 2 ^ 32"
  shows "parse_body FORMAT_VERSION n (header_bytes h @ payload) =
    (if crc32c payload \<noteq> rh_payload_crc32c h then Inl CrcMismatch
     else Inr \<lparr>rr_header = h\<lparr>rh_record_len := n\<rparr>, rr_payload = payload\<rparr>)"
proof -
  have fields: "byte_slice (header_bytes h @ payload) 0 8 = le_bytes 8 (uint (session_number (rh_session h)))"
    "byte_slice (header_bytes h @ payload) 8 16 = le_bytes 8 (uint (rh_frame_seq h))"
    "byte_slice (header_bytes h @ payload) 16 24 = le_bytes 8 (rh_receive_ts_ns h)"
    "byte_slice (header_bytes h @ payload) 24 32 = le_bytes 8 (uint (rh_monotonic_ns h))"
    "byte_slice (header_bytes h @ payload) 35 39 = le_bytes 4 (int (rh_payload_len h))"
    "byte_slice (header_bytes h @ payload) 39 43 = le_bytes 4 (uint (rh_payload_crc32c h))"
    by (simp_all add: header_bytes_def slice_append slice_Cons slice_all)
  have bytes: "(header_bytes h @ payload) ! 32 = direction_u8 (rh_direction h)"
    "(header_bytes h @ payload) ! 33 = opcode_u8 (rh_opcode h)" "(header_bytes h @ payload) ! 34 = rh_flags h"
    by (simp_all add: header_bytes_def nth_append)
  have "nat (le_value (le_bytes 4 (int (rh_payload_len h)))) = length payload"
    using assms(2,3) by (simp add: le_value_unsigned)
  moreover have "SessionId (session_number s) = s" for s by (cases s) (simp add: session_number_def)
  ultimately show ?thesis
    using assms by (simp add: parse_body_def fields bytes Let_def word_of_le_bytes_64 word_of_le_bytes_32 i64_of_le_bytes)
qed

lemma record_len_bytes: "frame_ok f \<Longrightarrow> nat (le_value (le_bytes 4 (int (rh_record_len (frame_header f))))) = length (record_bytes f)"
  by (simp add: frame_ok_def frame_header_def length_record_bytes format_sizes le_value_unsigned)

lemma parse_recorded:
  assumes "frame_ok f"
  shows "parse_body FORMAT_VERSION (length (record_bytes f)) (header_bytes (frame_header f) @ pf_payload f) = Inr (recorded f)"
proof -
  have "(frame_header f)\<lparr>rh_record_len := length (record_bytes f)\<rparr> = frame_header f"
    by (simp add: frame_header_def length_record_bytes)
  with assms show ?thesis
    by (subst parse_header_bytes) (auto simp: recorded_def frame_ok_def format_sizes frame_header_def)
qed

text \<open>Reading back one complete record, and what a cut record gives.\<close>

lemma read_record_complete:
  assumes "frame_ok f" and "sr_format_version r = FORMAT_VERSION" and "sr_rest r = record_bytes f @ rest"
  shows "read_record r = (Inr (Some (recorded f)), r\<lparr>sr_rest := rest, sr_records_read := sr_records_read r + 1\<rparr>)"
proof -
  let ?len = "le_bytes 4 (int (rh_record_len (frame_header f)))"
  have "read_exact 4 (sr_rest r) = Some (?len, header_bytes (frame_header f) @ pf_payload f @ rest)"
    using assms(3) by (simp add: read_exact_def record_bytes_def)
  moreover have "read_exact (length (record_bytes f) - 4) (header_bytes (frame_header f) @ pf_payload f @ rest) =
      Some (header_bytes (frame_header f) @ pf_payload f, rest)"
    by (simp add: read_exact_def length_record_bytes)
  ultimately show ?thesis
    using assms parse_recorded [OF assms(1)]
    by (simp add: read_record_def record_len_bytes Let_def) (simp add: length_record_bytes frame_ok_def)
qed

lemma read_record_cut:
  assumes "frame_ok f" and "sr_rest r = take n (record_bytes f)" and "n < length (record_bytes f)"
  shows "fst (read_record r) = (if n < 4 then Inr None else Inl Truncated)"
proof (cases "n < 4")
  case True
  then show ?thesis using assms by (simp add: read_record_def read_exact_def)
next
  case False
  let ?len = "le_bytes 4 (int (rh_record_len (frame_header f)))"
  have "read_exact 4 (sr_rest r) = Some (?len, take (n - 4) (header_bytes (frame_header f) @ pf_payload f))"
    using assms(2,3) False by (simp add: read_exact_def record_bytes_def length_record_bytes)
  moreover have "read_exact (length (record_bytes f) - 4) (take (n - 4) (header_bytes (frame_header f) @ pf_payload f)) = None"
    using assms(3) False by (simp add: read_exact_def length_record_bytes)
  ultimately show ?thesis
    using assms False by (simp add: read_record_def record_len_bytes Let_def) (simp add: length_record_bytes frame_ok_def)
qed

text \<open>The frames whose records are complete within the first \<open>n\<close> bytes.\<close>

fun complete :: "nat \<Rightarrow> pending_frame list \<Rightarrow> pending_frame list" where
  "complete n [] = []"
| "complete n (f # fs) = (if length (record_bytes f) \<le> n then f # complete (n - length (record_bytes f)) fs else [])"

lemma read_all_complete:
  "\<forall>f \<in> set fs. frame_ok f \<Longrightarrow> sr_format_version r = FORMAT_VERSION \<Longrightarrow>
     sr_rest r = take n (concat (map record_bytes fs)) \<Longrightarrow>
     fst (read_all out r) = Inr (out @ map recorded (complete n fs))"
proof (induction fs arbitrary: n r out)
  case Nil
  then show ?case by (subst read_all.simps) (simp add: read_record_def read_exact_def)
next
  case (Cons f fs)
  show ?case
  proof (cases "length (record_bytes f) \<le> n")
    case True
    then have rest: "sr_rest r = record_bytes f @ take (n - length (record_bytes f)) (concat (map record_bytes fs))"
      using Cons.prems(3) by simp
    have "read_record r = (Inr (Some (recorded f)), r\<lparr>sr_rest := take (n - length (record_bytes f)) (concat (map record_bytes fs)),
        sr_records_read := sr_records_read r + 1\<rparr>)"
      by (rule read_record_complete [OF _ Cons.prems(2) rest]) (use Cons.prems(1) in simp)
    with True Cons.prems(1,2) show ?thesis
      by (subst read_all.simps) (simp add: Cons.IH [where n = "n - length (record_bytes f)"])
  next
    case False
    then have "sr_rest r = take n (record_bytes f)" using Cons.prems(3) by simp
    then have "fst (read_record r) = (if n < 4 then Inr None else Inl Truncated)"
      using Cons.prems(1) False by (intro read_record_cut) (simp_all add: not_le)
    with False show ?thesis by (subst read_all.simps) (auto split: prod.splits if_splits)
  qed
qed

lemma reader_open_header:
  "in_i64 ts \<Longrightarrow> reader_open (segment_header ts @ rest) =
     Inr \<lparr>sr_rest = rest, sr_format_version = FORMAT_VERSION, sr_start_ts_ns = ts, sr_records_read = 0\<rparr>"
  by (simp add: reader_open_def segment_header_def read_exact_def MAGIC_def le_value_unsigned FORMAT_VERSION_def
      MIN_SUPPORTED_FORMAT_VERSION_def i64_of_le_bytes Let_def)

section \<open>Sinks\<close>

lemma write_all_Inr:
  assumes "write_all s bs = (Inr (), s')"
  shows "sk_bytes s' = sk_bytes s @ bs"
    and "sk_room s' = map_option (\<lambda>n. n - length bs) (sk_room s)" and "\<forall>n. sk_room s = Some n \<longrightarrow> length bs \<le> n"
  using assms by (auto simp: write_all_def split: option.splits if_splits)

text \<open>Writing piece by piece is writing the concatenation, also when the sink runs out of room.\<close>

lemma put_put: "sthen (put a w) (\<lambda>_. put b) = put (a @ b) w"
  by (auto simp: put_def write_all_def split: option.splits if_splits prod.splits)

lemma write_header_put: "write_header w h = put (le_bytes 4 (int (rh_record_len h)) @ header_bytes h) w"
  by (simp add: write_header_def put_put header_bytes_def)

lemma write_record_put:
  assumes "sw_started w" and "4 + RAW_HEADER_BODY_LEN + length (pf_payload f) \<le> MAX_RAW_RECORD_LEN"
  shows "write_record w f = sthen (put (record_bytes f) w) (\<lambda>_ w. (Inr (), w\<lparr>sw_records_written := sw_records_written w + 1\<rparr>))"
proof -
  have assoc: "sthen (sthen p (\<lambda>_. put b)) k = sthen p (\<lambda>x w. sthen (put b w) k)"
    for p :: "(recording_error + unit) \<times> segment_writer" and k :: "unit \<Rightarrow> segment_writer \<Rightarrow> (recording_error + unit) \<times> segment_writer" and b
    by (cases p; cases "fst p") auto
  have "checked_uint 32 (length (pf_payload f)) = Some (length (pf_payload f))"
    "checked_uint 32 (4 + RAW_HEADER_BODY_LEN + length (pf_payload f)) = Some (4 + RAW_HEADER_BODY_LEN + length (pf_payload f))"
    using assms(2) by (simp_all add: checked_uint_def format_sizes)
  then have "write_record w f = sthen (write_header w (frame_header f)) (\<lambda>_ w. sthen (put (pf_payload f) w) (\<lambda>_ w.
      (Inr (), w\<lparr>sw_records_written := sw_records_written w + 1\<rparr>)))"
    using assms by (simp add: write_record_def)
  then show ?thesis
    by (simp add: write_header_put record_bytes_def flip: assoc) (simp add: put_put)
qed

lemma write_record_refused:
  assumes "\<not> 4 + RAW_HEADER_BODY_LEN + length (pf_payload f) \<le> MAX_RAW_RECORD_LEN"
  shows "\<exists>e. write_record w f = (Inl e, w)"
  using assms by (auto simp: write_record_def checked_uint_def)

lemma writer_create_eq:
  "writer_create s ts = sthen (write_all s (segment_header ts)) (\<lambda>_ s. (Inr \<lparr>sw_writer = s, sw_records_written = 0, sw_started = True\<rparr>, s))"
proof -
  have app: "sthen (write_all s a) (\<lambda>_ s. sthen (write_all s b) k) = sthen (write_all s (a @ b)) k"
    for s a b and k :: "unit \<Rightarrow> byte_sink \<Rightarrow> (recording_error + 'a) \<times> byte_sink"
    by (auto simp: write_all_def split: option.splits if_splits)
  show ?thesis by (simp add: writer_create_def segment_header_def app)
qed

text \<open>Frames written one after the other until the first error: the frames that were acknowledged.\<close>

primrec acknowledged :: "segment_writer \<Rightarrow> pending_frame list \<Rightarrow> pending_frame list \<times> segment_writer" where
  "acknowledged w [] = ([], w)"
| "acknowledged w (f # fs) =
     (case write_record w f of
        (Inl e, w') \<Rightarrow> ([], w')
      | (Inr _, w') \<Rightarrow> (case acknowledged w' fs of (ok, w'') \<Rightarrow> (f # ok, w'')))"

abbreviation (input) written :: "segment_writer \<Rightarrow> 8 word list" where
  "written w \<equiv> sk_bytes (sw_writer w)"

lemma put_cases:
  obtains w' where "put bs w = (Inr (), w')" "written w' = written w @ bs" "sw_started w' = sw_started w"
  | e w' n where "put bs w = (Inl e, w')" "n < length bs" "written w' = written w @ take n bs"
proof (cases "sk_room (sw_writer w)")
  case None
  then show ?thesis using that(1) by (auto simp: put_def write_all_def)
next
  case (Some n)
  show ?thesis
  proof (cases "length bs \<le> n")
    case True
    with Some show ?thesis using that(1) by (auto simp: put_def write_all_def)
  next
    case False
    with Some show ?thesis using that(2) [of _ _ n] by (auto simp: put_def write_all_def)
  qed
qed

text \<open>A writer leaves the acknowledged records and at most a part of one more.\<close>

lemma acknowledged_bytes:
  assumes "acknowledged w fs = (ok, w')" and "sw_started w"
  shows "\<exists>f m. written w' = written w @ concat (map record_bytes ok) @ take m (record_bytes f) \<and> m < length (record_bytes f) \<and>
    (\<forall>f \<in> set ok. 4 + RAW_HEADER_BODY_LEN + length (pf_payload f) \<le> MAX_RAW_RECORD_LEN) \<and> ok = take (length ok) fs \<and>
    (0 < m \<longrightarrow> f \<in> set fs \<and> 4 + RAW_HEADER_BODY_LEN + length (pf_payload f) \<le> MAX_RAW_RECORD_LEN)"
  using assms
proof (induction fs arbitrary: w ok)
  case Nil
  have "0 < length (record_bytes f)" for f by (simp add: length_record_bytes)
  with Nil show ?case by auto
next
  case (Cons f fs)
  show ?case
  proof (cases "4 + RAW_HEADER_BODY_LEN + length (pf_payload f) \<le> MAX_RAW_RECORD_LEN")
    case False
    then obtain e where "write_record w f = (Inl e, w)" using write_record_refused by blast
    with Cons.prems show ?thesis by (intro exI [of _ f] exI [of _ 0]) (auto simp: length_record_bytes)
  next
    case True
    show ?thesis
    proof (cases rule: put_cases [of "record_bytes f" w])
      case (1 w1)
      let ?w2 = "w1\<lparr>sw_records_written := sw_records_written w1 + 1\<rparr>"
      have "write_record w f = (Inr (), ?w2)" using 1 write_record_put [OF Cons.prems(2) True] by simp
      then obtain ok' where ok': "acknowledged ?w2 fs = (ok', w')" "ok = f # ok'"
        using Cons.prems(1) by (auto split: prod.splits)
      from Cons.IH [OF ok'(1)] Cons.prems(2) 1(3) True obtain g m where
        "written w' = written ?w2 @ concat (map record_bytes ok') @ take m (record_bytes g)" "m < length (record_bytes g)"
        "\<forall>f \<in> set ok'. 4 + RAW_HEADER_BODY_LEN + length (pf_payload f) \<le> MAX_RAW_RECORD_LEN" "ok' = take (length ok') fs"
        "0 < m \<longrightarrow> g \<in> set fs \<and> 4 + RAW_HEADER_BODY_LEN + length (pf_payload g) \<le> MAX_RAW_RECORD_LEN"
        by auto
      with 1(2) ok'(2) True show ?thesis by (intro exI [of _ g] exI [of _ m]) auto
    next
      case (2 e w1 n)
      then have "write_record w f = (Inl e, w1)" using write_record_put [OF Cons.prems(2) True] by simp
      with Cons.prems(1) 2 True show ?thesis by (intro exI [of _ f] exI [of _ n]) auto
    qed
  qed
qed

lemma complete_cut:
  "m < length (record_bytes f) \<Longrightarrow> complete (length (concat (map record_bytes ok)) + m) (ok @ [f]) = ok"
  by (induction ok) auto

lemma complete_all: "complete (length (concat (map record_bytes ok))) ok = ok"
  by (induction ok) auto

section \<open>Properties\<close>

text \<open>
  C28: A recording survives a crash at any byte.  Cut a segment anywhere after its header: the reader
  opens it and returns exactly the frames whose records are complete, unchanged and in order.
\<close>

theorem cut_segment_recovers:
  assumes "fst (writer_create \<lparr>sk_bytes = [], sk_room = None, sk_error = err\<rparr> ts) = Inr w" and "in_i64 ts"
    and "acknowledged w fs = (fs, w')" and "\<forall>f \<in> set fs. in_i64 (pf_receive_ts_ns f)"
  shows "\<exists>r. reader_open (take (HEADER_SIZE + n) (sk_bytes (sw_writer w'))) = Inr r \<and> sr_start_ts_ns r = ts \<and>
    fst (read_all [] r) = Inr (map recorded (complete n fs))"
proof -
  have w: "written w = segment_header ts" "sw_started w" "sk_room (sw_writer w) = None"
    using assms(1) by (auto simp: writer_create_eq write_all_def)
  have room: "sk_room (sw_writer w) = None \<Longrightarrow> sw_started w \<Longrightarrow> acknowledged w fs = (fs, w') \<Longrightarrow>
      written w' = written w @ concat (map record_bytes fs) \<and>
      (\<forall>f \<in> set fs. 4 + RAW_HEADER_BODY_LEN + length (pf_payload f) \<le> MAX_RAW_RECORD_LEN)" for w fs w'
  proof (induction fs arbitrary: w)
    case (Cons f fs)
    have fits: "4 + RAW_HEADER_BODY_LEN + length (pf_payload f) \<le> MAX_RAW_RECORD_LEN"
      using Cons.prems(3) write_record_refused [of f w] by (auto split: prod.splits sum.splits)
    from write_record_put [OF Cons.prems(2) fits] Cons.prems(1)
    obtain w1 where "write_record w f = (Inr (), w1)" "written w1 = written w @ record_bytes f"
      "sk_room (sw_writer w1) = None" "sw_started w1"
      using Cons.prems(2) by (auto simp: put_def write_all_def)
    with Cons fits show ?case by (auto split: prod.splits)
  qed simp
  from room [OF w(3,2) assms(3)] have "take (HEADER_SIZE + n) (written w') = segment_header ts @ take n (concat (map record_bytes fs))"
    and ok: "\<forall>f \<in> set fs. frame_ok f"
    using assms(4) by (auto simp: w frame_ok_def)
  then show ?thesis
    using assms(2) read_all_complete [OF ok, of _ n "[]"] by (simp add: reader_open_header)
qed

text \<open>
  Every acknowledged frame is in the file.  When the file runs out of room at any point, during a header or in the
  middle of a payload, and stays full, the segment reads back as exactly the frames acknowledged before the failure.
\<close>

theorem acknowledged_frames_survive:
  assumes "fst (writer_create \<lparr>sk_bytes = [], sk_room = room, sk_error = err\<rparr> ts) = Inr w" and "in_i64 ts"
    and "acknowledged w fs = (ok, w')" and "\<forall>f \<in> set fs. in_i64 (pf_receive_ts_ns f)"
  shows "\<exists>r. reader_open (sk_bytes (sw_writer w')) = Inr r \<and> fst (read_all [] r) = Inr (map recorded ok) \<and>
    ok = take (length ok) fs"
proof -
  have w: "written w = segment_header ts" "sw_started w"
    using assms(1) by (auto simp: writer_create_eq write_all_def split: option.splits if_splits)
  obtain f m where fm: "written w' = written w @ concat (map record_bytes ok) @ take m (record_bytes f)"
    "m < length (record_bytes f)" "\<forall>f \<in> set ok. 4 + RAW_HEADER_BODY_LEN + length (pf_payload f) \<le> MAX_RAW_RECORD_LEN"
    "ok = take (length ok) fs"
    "0 < m \<longrightarrow> f \<in> set fs \<and> 4 + RAW_HEADER_BODY_LEN + length (pf_payload f) \<le> MAX_RAW_RECORD_LEN"
    using acknowledged_bytes [OF assms(3) w(2)] by blast
  have ok: "\<forall>f \<in> set ok. frame_ok f" using fm(3,4) assms(4) by (metis frame_ok_def in_set_takeD)
  have opened: "reader_open (written w') = Inr \<lparr>sr_rest = concat (map record_bytes ok) @ take m (record_bytes f),
      sr_format_version = FORMAT_VERSION, sr_start_ts_ns = ts, sr_records_read = 0\<rparr>" (is "_ = Inr ?r")
    using assms(2) by (simp add: fm(1) w reader_open_header)
  have "fst (read_all [] ?r) = Inr (map recorded ok)"
  proof (cases "m = 0")
    case True
    then show ?thesis using read_all_complete [OF ok, of ?r "length (concat (map record_bytes ok))" "[]"]
      by (simp add: complete_all)
  next
    case False
    then have "\<forall>f \<in> set (ok @ [f]). frame_ok f" using ok fm(5) assms(4) by (auto simp: frame_ok_def)
    from read_all_complete [OF this, of ?r "length (concat (map record_bytes ok)) + m" "[]"] fm(2)
    show ?thesis by (simp add: complete_cut)
  qed
  with opened fm(4) show ?thesis by simp
qed

text \<open>
  C29: A corrupted payload is never returned as data.  Whatever bytes replace up to four consecutive bytes of one
  recorded payload, reading the segment ends with a checksum error at that record.
\<close>

theorem corrupted_payload_refused:
  assumes "\<forall>f \<in> set fs. frame_ok f" and "frame_ok f" and "in_i64 ts"
    and "pf_payload f = before @ good @ after" and "length bad = length good" and "length good \<le> 4" and "bad \<noteq> good"
  shows "\<exists>r. reader_open (segment_header ts @ concat (map record_bytes fs) @
      le_bytes 4 (int (rh_record_len (frame_header f))) @ header_bytes (frame_header f) @ (before @ bad @ after) @ rest) = Inr r \<and>
    fst (read_all [] r) = Inl CrcMismatch"
proof -
  let ?p = "before @ bad @ after"
  let ?tail = "le_bytes 4 (int (rh_record_len (frame_header f))) @ header_bytes (frame_header f) @ ?p @ rest"
  have len: "length ?p = length (pf_payload f)" using assms(4,5) by simp
  have crc: "crc32c ?p \<noteq> crc32c (pf_payload f)" using burst_changes_crc [OF assms(5-7)] assms(4) by simp
  have bad: "fst (read_record r) = Inl CrcMismatch" if r: "sr_rest r = ?tail" "sr_format_version r = FORMAT_VERSION" for r
  proof -
    have "read_exact 4 (sr_rest r) = Some (le_bytes 4 (int (rh_record_len (frame_header f))), header_bytes (frame_header f) @ ?p @ rest)"
      by (simp add: r read_exact_def)
    moreover have "read_exact (length (record_bytes f) - 4) (header_bytes (frame_header f) @ ?p @ rest) =
        Some (header_bytes (frame_header f) @ ?p, rest)"
      using len by (simp add: read_exact_def length_record_bytes)
    moreover have "parse_body FORMAT_VERSION (length (record_bytes f)) (header_bytes (frame_header f) @ ?p) = Inl CrcMismatch"
      using assms(2) len crc by (subst parse_header_bytes) (auto simp: frame_ok_def frame_header_def format_sizes)
    ultimately show ?thesis
      using assms(2) r(2) by (simp add: read_record_def record_len_bytes Let_def) (simp add: length_record_bytes frame_ok_def)
  qed
  have "fst (read_all out r) = Inl CrcMismatch"
    if "sr_rest r = concat (map record_bytes fs) @ ?tail" "sr_format_version r = FORMAT_VERSION" for r out
    using assms(1) that
  proof (induction fs arbitrary: r out)
    case Nil
    then have "fst (read_record r) = Inl CrcMismatch" by (intro bad) simp_all
    then show ?case by (subst read_all.simps) (auto split: prod.splits)
  next
    case (Cons g fs)
    then have "read_record r = (Inr (Some (recorded g)), r\<lparr>sr_rest := concat (map record_bytes fs) @ ?tail, sr_records_read := sr_records_read r + 1\<rparr>)"
      by (intro read_record_complete) simp_all
    with Cons show ?case by (subst read_all.simps) simp
  qed
  with assms(3) show ?thesis by (simp add: reader_open_header)
qed

section \<open>Samples\<close>

definition sample_frame :: "w64 \<Rightarrow> 8 word list \<Rightarrow> pending_frame" where
  "sample_frame n payload =
     \<lparr>pf_session = SessionId 1, pf_frame_seq = n, pf_receive_ts_ns = 5, pf_monotonic_ns = 0, pf_direction = Inbound,
      pf_opcode = TextFrame, pf_flags = 0, pf_payload = payload\<rparr>"

lemma sample_frame_sel [simp]: "pf_payload (sample_frame n payload) = payload"
  "pf_receive_ts_ns (sample_frame n payload) = 5"
  by (simp_all add: sample_frame_def)

lemma length_sample_record [simp]: "length (record_bytes (sample_frame n payload)) = 47 + length payload"
  by (simp add: length_record_bytes format_sizes)

lemma sample_frame_ok [simp]: "length payload \<le> 1000 \<Longrightarrow> frame_ok (sample_frame n payload)"
  by (simp add: frame_ok_def format_sizes in_i64_def)

text \<open>A file with room for the header, one record and a half.\<close>

definition sample_sink :: "nat option \<Rightarrow> byte_sink" where
  "sample_sink room = \<lparr>sk_bytes = [], sk_room = room, sk_error = ''disk full''\<rparr>"

lemma sample_create:
  "fst (writer_create (sample_sink None) 0) = Inr \<lparr>sw_writer = (sample_sink None)\<lparr>sk_bytes := segment_header 0\<rparr>,
     sw_records_written = 0, sw_started = True\<rparr>"
  "fst (writer_create (sample_sink (Some 100)) 0) = Inr \<lparr>sw_writer = (sample_sink (Some (100 - HEADER_SIZE)))\<lparr>sk_bytes := segment_header 0\<rparr>,
     sw_records_written = 0, sw_started = True\<rparr>"
  by (simp_all add: writer_create_eq write_all_def sample_sink_def HEADER_SIZE_def)

lemma sample_write:
  assumes "length payload \<le> 1000"
  shows "write_record \<lparr>sw_writer = \<lparr>sk_bytes = bs, sk_room = room, sk_error = err\<rparr>, sw_records_written = n, sw_started = True\<rparr> (sample_frame k payload) =
    (case room of
       None \<Rightarrow> (Inr (), \<lparr>sw_writer = \<lparr>sk_bytes = bs @ record_bytes (sample_frame k payload), sk_room = None, sk_error = err\<rparr>,
         sw_records_written = n + 1, sw_started = True\<rparr>)
     | Some m \<Rightarrow>
         if 47 + length payload \<le> m then
           (Inr (), \<lparr>sw_writer = \<lparr>sk_bytes = bs @ record_bytes (sample_frame k payload), sk_room = Some (m - (47 + length payload)), sk_error = err\<rparr>,
             sw_records_written = n + 1, sw_started = True\<rparr>)
         else (Inl (Io err), \<lparr>sw_writer = \<lparr>sk_bytes = bs @ take m (record_bytes (sample_frame k payload)), sk_room = Some 0, sk_error = err\<rparr>,
             sw_records_written = n, sw_started = True\<rparr>))"
  using assms by (subst write_record_put) (auto simp: format_sizes put_def write_all_def split: option.splits)

theorem cut_segment_recovers_witness:
  "\<exists>w w' r. fst (writer_create (sample_sink None) 0) = Inr w \<and>
     acknowledged w [sample_frame 1 [7], sample_frame 2 [8, 9]] = ([sample_frame 1 [7], sample_frame 2 [8, 9]], w') \<and>
     reader_open (take (HEADER_SIZE + 60) (sk_bytes (sw_writer w'))) = Inr r \<and>
     fst (read_all [] r) = Inr [recorded (sample_frame 1 [7])]"
proof -
  let ?fs = "[sample_frame 1 [7], sample_frame 2 [8, 9]]"
  obtain w where w: "fst (writer_create (sample_sink None) 0) = Inr w" using sample_create(1) by blast
  then obtain w' where w': "acknowledged w ?fs = (?fs, w')"
    using sample_create(1) by (auto simp: sample_sink_def sample_write)
  have "\<exists>r. reader_open (take (HEADER_SIZE + 60) (sk_bytes (sw_writer w'))) = Inr r \<and> sr_start_ts_ns r = 0 \<and>
      fst (read_all [] r) = Inr (map recorded (complete 60 ?fs))"
    by (rule cut_segment_recovers [OF w [unfolded sample_sink_def] _ w']) (simp_all add: in_i64_def)
  with w w' show ?thesis by auto
qed

theorem acknowledged_frames_survive_witness:
  "\<exists>w w' r. fst (writer_create (sample_sink (Some 100)) 0) = Inr w \<and>
     acknowledged w [sample_frame 1 [7], sample_frame 2 [8, 9]] = ([sample_frame 1 [7]], w') \<and>
     reader_open (sk_bytes (sw_writer w')) = Inr r \<and> fst (read_all [] r) = Inr [recorded (sample_frame 1 [7])]"
proof -
  let ?fs = "[sample_frame 1 [7], sample_frame 2 [8, 9]]"
  obtain w where w: "fst (writer_create (sample_sink (Some 100)) 0) = Inr w" using sample_create(2) by blast
  then obtain w' where w': "acknowledged w ?fs = ([sample_frame 1 [7]], w')"
    using sample_create(2) by (auto simp: sample_sink_def sample_write HEADER_SIZE_def)
  have "\<exists>r. reader_open (sk_bytes (sw_writer w')) = Inr r \<and> fst (read_all [] r) = Inr (map recorded [sample_frame 1 [7]]) \<and>
      [sample_frame 1 [7]] = take (length [sample_frame 1 [7]]) ?fs"
    by (rule acknowledged_frames_survive [OF w [unfolded sample_sink_def] _ w']) (simp_all add: in_i64_def)
  with w w' show ?thesis by auto
qed

theorem corrupted_payload_refused_witness:
  "\<exists>r. reader_open (segment_header 0 @ record_bytes (sample_frame 1 [7]) @
      le_bytes 4 (int (rh_record_len (frame_header (sample_frame 2 [1, 2, 3])))) @ header_bytes (frame_header (sample_frame 2 [1, 2, 3])) @
      [1, 9, 3] @ []) = Inr r \<and> fst (read_all [] r) = Inl CrcMismatch"
  using corrupted_payload_refused [of "[sample_frame 1 [7]]" "sample_frame 2 [1, 2, 3]" 0 "[1]" "[2]" "[3]" "[9]" "[]"]
  by (simp add: in_i64_def)

section \<open>Writing on after an error\<close>

text \<open>A part of a record in front of a repetition of the record: the reader takes bytes of the repetition for the rest of the part.\<close>

lemma sample_record_bytes:
  "record_bytes (sample_frame 1 [7]) = le_bytes 4 48 @ header_bytes (frame_header (sample_frame 1 [7])) @ [7]"
  by (simp add: record_bytes_def frame_header_def format_sizes)

lemma nth_le_bytes: "i < n \<Longrightarrow> le_bytes n x ! i = word_of_int (x div 256 ^ i)"
  by (simp add: le_bytes_def)

lemma sample_part:
  "\<exists>a. record_bytes (sample_frame 1 [7]) = le_bytes 4 48 @ a \<and> length a = 44 \<and> a ! 12 = 0 \<and> a ! 13 = 0"
proof (intro exI conjI)
  let ?a = "header_bytes (frame_header (sample_frame 1 [7])) @ [7]"
  show "record_bytes (sample_frame 1 [7]) = le_bytes 4 48 @ ?a" by (rule sample_record_bytes)
  show "length ?a = 44" by (simp add: format_sizes)
  show "?a ! 12 = 0" "?a ! 13 = 0"
    by (simp_all add: header_bytes_def nth_append nth_le_bytes frame_header_def sample_frame_def)
qed

lemma read_ruined:
  assumes "sr_rest r = take 20 (record_bytes (sample_frame 1 [7])) @ record_bytes (sample_frame 1 [7])"
  shows "fst (read_record r) = Inl InvalidHeader"
proof -
  obtain a where a: "record_bytes (sample_frame 1 [7]) = le_bytes 4 48 @ a" "length a = 44" "a ! 12 = 0" "a ! 13 = 0"
    using sample_part by blast
  have rest: "sr_rest r = le_bytes 4 48 @ take 16 a @ le_bytes 4 48 @ a" using assms a(1,2) by simp
  have "read_exact 4 (sr_rest r) = Some (le_bytes 4 48, take 16 a @ le_bytes 4 48 @ a)" by (simp add: rest read_exact_def)
  moreover have "nat (le_value (le_bytes 4 48)) = 48" by (simp add: le_value_unsigned)
  moreover have "read_exact 44 (take 16 a @ le_bytes 4 48 @ a) = Some (take 16 a @ le_bytes 4 48 @ take 24 a, drop 24 a)"
    using a(2) by (simp add: read_exact_def)
  moreover have "parse_body v n (take 16 a @ le_bytes 4 48 @ take 24 a) = Inl InvalidHeader" for v n
    using a by (simp add: parse_body_def nth_append direction_from_u8_def opcode_from_u8_for_version_def)
  ultimately show ?thesis by (simp add: read_record_def Let_def format_sizes)
qed


end
