(* ===== verification/Pipeline.thy ===== *)
theory Pipeline
  imports Recording
begin

text \<open>
  The recording pipeline of \<^verbatim>\<open>recording/src/queue.rs\<close>, \<^verbatim>\<open>metadata.rs\<close> and \<^verbatim>\<open>pipeline.rs\<close>: the bounded
  queue, segment rotation, disk-pressure checks, metadata records and the handle that session runners and the daemon
  share.  What a handle accepted is on disk or waiting, in order, whatever fails; a successful drain
  leaves nothing waiting, and on a working disk it succeeds.
\<close>

section \<open>The bounded queue\<close>

datatype enqueue_outcome = Accepted | DroppedNewest | DroppedOldest usize

record recording_queue =
  rq_capacity :: usize
  rq_policy :: overflow_policy
  rq_items :: "pending_frame list"
  rq_dropped_total :: w64

definition recording_queue_new :: "usize \<Rightarrow> overflow_policy \<Rightarrow> recording_queue" where
  "recording_queue_new capacity policy =
     \<lparr>rq_capacity = capacity, rq_policy = policy, rq_items = [], rq_dropped_total = 0\<rparr>"

definition rq_push :: "recording_queue \<Rightarrow> pending_frame \<Rightarrow> (recording_error + enqueue_outcome) \<times> recording_queue" where
  "rq_push q frame =
     (if length (rq_items q) < rq_capacity q then (Inr Accepted, q\<lparr>rq_items := rq_items q @ [frame]\<rparr>)
      else
        case rq_policy q of
          DropNewest \<Rightarrow> (Inr DroppedNewest, q\<lparr>rq_dropped_total := rq_dropped_total q + 1\<rparr>)
        | DropOldest \<Rightarrow>
            (Inr (DroppedOldest 1), q\<lparr>rq_items := tl (rq_items q) @ [frame], rq_dropped_total := rq_dropped_total q + 1\<rparr>)
        | FailEngine \<Rightarrow> (Inl RecordingQueueFull, q)
        | other \<Rightarrow> (Inl (UnsupportedOverflow other), q))"

definition rq_pop_front :: "recording_queue \<Rightarrow> pending_frame option \<times> recording_queue" where
  "rq_pop_front q = (case rq_items q of [] \<Rightarrow> (None, q) | f # fs \<Rightarrow> (Some f, q\<lparr>rq_items := fs\<rparr>))"

definition drain_front :: "recording_queue \<Rightarrow> usize \<Rightarrow> pending_frame list \<times> recording_queue" where
  "drain_front q limit =
     (let count = min limit (length (rq_items q)) in (take count (rq_items q), q\<lparr>rq_items := drop count (rq_items q)\<rparr>))"

definition overflow_events :: "enqueue_outcome \<Rightarrow> w64 \<Rightarrow> system_event list" where
  "overflow_events outcome dropped_total =
     (case outcome of
        Accepted \<Rightarrow> []
      | _ \<Rightarrow> [QueuePressure ''recording queue full'',
          EventsDropped 1 (''recording_queue dropped_total='' @ show_nat (unat dropped_total))])"

section \<open>Metadata\<close>

record fixed_metadata =
  fm_coefficient :: string
  fm_scale :: u8

record catalog_instrument_metadata =
  cm_instrument_id :: u32
  cm_native_symbol :: string
  cm_kind :: string
  cm_base :: string
  cm_quote :: string
  cm_settlement :: "string option"
  cm_price_scale :: u8
  cm_quantity_scale :: u8
  cm_price_increment :: fixed_metadata
  cm_quantity_increment :: fixed_metadata
  cm_min_quantity :: "fixed_metadata option"
  cm_max_quantity :: "fixed_metadata option"
  cm_min_notional :: "fixed_metadata option"
  cm_contract_size :: "fixed_metadata option"
  cm_expiry_ns :: "i64 option"
  cm_status :: string
  cm_inverse :: bool

record subscription_metadata =
  sm_instrument_id :: u32
  sm_channel :: string
  sm_emit_book_snapshots :: bool
  sm_emit_book_deltas :: bool
  sm_emit_bbo :: bool

record build_metadata =
  bm_schema_version :: u16
  bm_package_name :: string
  bm_package_version :: string
  bm_build_sha :: "string option"
  bm_target_os :: string
  bm_target_arch :: string

record session_recording_metadata =
  srm_schema_version :: u16
  srm_session_id :: w64
  srm_venue_id :: u16
  srm_adapter :: string
  srm_environment :: string
  srm_endpoint :: string
  srm_catalog_version :: w64
  srm_catalog :: "catalog_instrument_metadata list"
  srm_initial_subscriptions :: "subscription_metadata list"

datatype metadata_record = BuildRecord build_metadata | SessionRecord session_recording_metadata

fun metadata_session_id :: "metadata_record \<Rightarrow> session_id" where
  "metadata_session_id (BuildRecord _) = SessionId 0"
| "metadata_session_id (SessionRecord m) = SessionId (srm_session_id m)"

fun stable_key :: "metadata_record \<Rightarrow> string" where
  "stable_key (BuildRecord _) = ''build''"
| "stable_key (SessionRecord m) = ''session:'' @ show_nat (unat (srm_session_id m))"

definition MAX_METADATA_BYTES :: usize where "MAX_METADATA_BYTES = 4 * 1024 * 1024"

text \<open>
  What the pipeline reads from outside: the clock and the free-space probe at their successive calls, the file each
  successive \<^verbatim>\<open>File::create\<close> returns, and the JSON encoder of metadata (\<^verbatim>\<open>serde_json::to_vec\<close>).
\<close>

record world =
  wd_clock :: "nat \<Rightarrow> nat"
  wd_probe :: "nat \<Rightarrow> nat option"
  wd_create :: "nat \<Rightarrow> recording_error + byte_sink"
  wd_to_json :: "metadata_record \<Rightarrow> 8 word list option"

definition encode_metadata :: "world \<Rightarrow> metadata_record \<Rightarrow> recording_error + 8 word list" where
  "encode_metadata W m =
     and_then (ok_or (wd_to_json W m) InvalidHeader) (\<lambda>bytes.
     if MAX_METADATA_BYTES < length bytes then
       Inl (RecordTooLarge (unwrap_or (checked_uint 32 (length bytes)) (2 ^ 32 - 1)) MAX_METADATA_BYTES)
     else Inr bytes)"

definition metadata_frame :: "metadata_record \<Rightarrow> i64 \<Rightarrow> 8 word list \<Rightarrow> pending_frame" where
  "metadata_frame m start_ts_ns payload =
     \<lparr>pf_session = metadata_session_id m, pf_frame_seq = 0, pf_receive_ts_ns = start_ts_ns, pf_monotonic_ns = 0,
      pf_direction = Inbound, pf_opcode = MetadataFrame, pf_flags = 0, pf_payload = payload\<rparr>"

definition write_metadata ::
  "world \<Rightarrow> segment_writer \<Rightarrow> metadata_record \<Rightarrow> i64 \<Rightarrow> (recording_error + unit) \<times> segment_writer" where
  "write_metadata W w m start_ts_ns =
     (case encode_metadata W m of
        Inl e \<Rightarrow> (Inl e, w)
      | Inr payload \<Rightarrow> write_record w (metadata_frame m start_ts_ns payload))"

section \<open>The pipeline\<close>

record pipeline_config =
  pcf_queue_capacity :: usize
  pcf_overflow :: overflow_policy
  pcf_max_bytes :: w64
  pcf_max_duration :: nat
  pcf_min_free_bytes :: nat

text \<open>
  A segment file has the name \<^verbatim>\<open>seg-{start}-{seq}.mfr1\<close>, here the pair of start and sequence number.  A closed
  segment is its name and contents; the file of the open segment holds the bytes its writer has taken.  The
  \<^verbatim>\<open>BufWriter\<close> in front of a file is transparent here: its bytes count as written, so a flush has nothing left to
  write and cannot fail.
\<close>

record recording_pipeline =
  pl_cfg :: pipeline_config
  pl_queue :: recording_queue
  pl_writer :: "segment_writer option"
  pl_current_path :: "(i64 \<times> w64) option"
  pl_current_start_ts_ns :: "i64 option"
  pl_segment_bytes :: w64
  pl_segment_started :: nat
  pl_segment_seq :: w64
  pl_free_space :: bool
  pl_free_space_check_interval :: nat
  pl_last_free_space_check :: "nat option"
  pl_disk_pressure_active :: bool
  pl_system_events :: "system_event list"
  pl_records_written :: w64
  pl_segments_opened :: w64
  pl_rotations :: w64
  pl_metadata :: "metadata_record list"
  pl_closed :: "((i64 \<times> w64) \<times> 8 word list) list"
  pl_clock_reads :: nat
  pl_probes :: nat
  pl_creates :: nat

definition clock_now :: "world \<Rightarrow> recording_pipeline \<Rightarrow> nat \<times> recording_pipeline" where
  "clock_now W p = (wd_clock W (pl_clock_reads p), p\<lparr>pl_clock_reads := Suc (pl_clock_reads p)\<rparr>)"

definition saturating_add_w64 :: "w64 \<Rightarrow> nat \<Rightarrow> w64" where
  "saturating_add_w64 a n = (if unat a + n < 2 ^ 64 then a + of_nat n else - 1)"

text \<open>\<open>validate_metadata_registry\<close>: every record encodes and no key occurs twice.\<close>

primrec validate_metadata_registry :: "world \<Rightarrow> string list \<Rightarrow> metadata_record list \<Rightarrow> recording_error + unit" where
  "validate_metadata_registry W seen [] = Inr ()"
| "validate_metadata_registry W seen (m # ms) =
     and_then (encode_metadata W m) (\<lambda>_.
     if stable_key m \<in> set seen then Inl InvalidHeader else validate_metadata_registry W (stable_key m # seen) ms)"

definition open_with_metadata :: "world \<Rightarrow> pipeline_config \<Rightarrow> metadata_record list \<Rightarrow> recording_error + recording_pipeline" where
  "open_with_metadata W cfg metadata =
     (if pcf_queue_capacity cfg = 0 then Inl (Io ''queue_capacity must be > 0'')
      else
        and_then (validate_metadata_registry W [] metadata) (\<lambda>_.
        Inr \<lparr>pl_cfg = cfg, pl_queue = recording_queue_new (pcf_queue_capacity cfg) (pcf_overflow cfg), pl_writer = None,
          pl_current_path = None, pl_current_start_ts_ns = None, pl_segment_bytes = 0, pl_segment_started = wd_clock W 0,
          pl_segment_seq = 0, pl_free_space = False, pl_free_space_check_interval = 1000000000,
          pl_last_free_space_check = None, pl_disk_pressure_active = False, pl_system_events = [], pl_records_written = 0,
          pl_segments_opened = 0, pl_rotations = 0, pl_metadata = metadata, pl_closed = [], pl_clock_reads = 1,
          pl_probes = 0, pl_creates = 0\<rparr>))"

definition set_free_space_probe_with_interval :: "nat \<Rightarrow> recording_pipeline \<Rightarrow> recording_pipeline" where
  "set_free_space_probe_with_interval interval p =
     p\<lparr>pl_free_space := True, pl_free_space_check_interval := interval, pl_last_free_space_check := None\<rparr>"

definition register_metadata ::
  "world \<Rightarrow> metadata_record \<Rightarrow> recording_pipeline \<Rightarrow> (recording_error + unit) \<times> recording_pipeline" where
  "register_metadata W m p =
     (case find (\<lambda>existing. stable_key existing = stable_key m) (pl_metadata p) of
        Some existing \<Rightarrow> (if existing = m then Inr () else Inl (MetadataConflict (stable_key m)), p)
      | None \<Rightarrow>
          (case encode_metadata W m of
             Inl e \<Rightarrow> (Inl e, p)
           | Inr encoded \<Rightarrow>
               (case pl_writer p of
                  None \<Rightarrow> (Inr (), p\<lparr>pl_metadata := pl_metadata p @ [m]\<rparr>)
                | Some w \<Rightarrow>
                    (case write_metadata W w m (unwrap_or (pl_current_start_ts_ns p) 0) of
                       (Inl e, w) \<Rightarrow> (Inl e, p\<lparr>pl_writer := Some w\<rparr>)
                     | (Inr _, w) \<Rightarrow>
                         (Inr (), p\<lparr>pl_writer := Some w, pl_metadata := pl_metadata p @ [m],
                           pl_segment_bytes := saturating_add_w64 (pl_segment_bytes p) (4 + RAW_HEADER_BODY_LEN + length encoded)\<rparr>)))))"

text \<open>\<^verbatim>\<open>refresh_disk_pressure\<close> never fails.\<close>

definition probe_free_space :: "world \<Rightarrow> recording_pipeline \<Rightarrow> recording_pipeline" where
  "probe_free_space W p =
     (let (now, p) = clock_now W p; free = wd_probe W (pl_probes p);
          p = p\<lparr>pl_last_free_space_check := Some now, pl_probes := Suc (pl_probes p)\<rparr> in
      case free of
        None \<Rightarrow> p
      | Some free \<Rightarrow>
          if free < pcf_min_free_bytes (pl_cfg p) then
            (if \<not> pl_disk_pressure_active p
             then p\<lparr>pl_disk_pressure_active := True, pl_system_events := pl_system_events p @ [DiskPressure]\<rparr> else p)
          else if pl_disk_pressure_active p then
            p\<lparr>pl_disk_pressure_active := False, pl_system_events := pl_system_events p @ [SinkStateChanged ''disk_ok'']\<rparr>
          else p)"

definition refresh_disk_pressure :: "world \<Rightarrow> recording_pipeline \<Rightarrow> recording_pipeline" where
  "refresh_disk_pressure W p =
     (if pcf_min_free_bytes (pl_cfg p) = 0 \<or> \<not> pl_free_space p then p
      else
        case pl_last_free_space_check p of
          None \<Rightarrow> probe_free_space W p
        | Some lst \<Rightarrow>
            (let (now, p) = clock_now W p in
             if now - lst < pl_free_space_check_interval p then p else probe_free_space W p))"

definition fail_closed_if_disk_full :: "recording_pipeline \<Rightarrow> recording_error + unit" where
  "fail_closed_if_disk_full p =
     (if pl_disk_pressure_active p \<and> pcf_overflow (pl_cfg p) = FailEngine then Inl DiskFull else Inr ())"

primrec write_all_metadata ::
  "world \<Rightarrow> i64 \<Rightarrow> metadata_record list \<Rightarrow> segment_writer \<Rightarrow> w64 \<Rightarrow> (recording_error + w64) \<times> segment_writer" where
  "write_all_metadata W ts [] w bytes = (Inr bytes, w)"
| "write_all_metadata W ts (m # ms) w bytes =
     (case encode_metadata W m of
        Inl e \<Rightarrow> (Inl e, w)
      | Inr encoded \<Rightarrow>
          sthen (write_metadata W w m ts) (\<lambda>_ w.
          write_all_metadata W ts ms w (saturating_add_w64 bytes (4 + RAW_HEADER_BODY_LEN + length encoded))))"

definition open_segment :: "world \<Rightarrow> i64 \<Rightarrow> recording_pipeline \<Rightarrow> (recording_error + unit) \<times> recording_pipeline" where
  "open_segment W ts p =
     (let path = (ts, pl_segment_seq p); file = wd_create W (pl_creates p); p = p\<lparr>pl_creates := Suc (pl_creates p)\<rparr> in
      case file of
        Inl e \<Rightarrow> (Inl e, p)
      | Inr sink \<Rightarrow>
          (case writer_create sink ts of
             (Inl e, s) \<Rightarrow> (Inl e, p\<lparr>pl_closed := pl_closed p @ [(path, sk_bytes s)]\<rparr>)
           | (Inr w, _) \<Rightarrow>
               (case write_all_metadata W ts (pl_metadata p) w (of_nat HEADER_SIZE) of
                  (Inl e, w) \<Rightarrow> (Inl e, p\<lparr>pl_closed := pl_closed p @ [(path, sk_bytes (sw_writer w))]\<rparr>)
                | (Inr bytes, w) \<Rightarrow>
                    (let (now, p) = clock_now W p in
                     (Inr (), p\<lparr>pl_writer := Some w, pl_current_path := Some path, pl_current_start_ts_ns := Some ts,
                       pl_segment_bytes := bytes, pl_segment_started := now, pl_segment_seq := pl_segment_seq p + 1,
                       pl_segments_opened := pl_segments_opened p + 1\<rparr>)))))"

definition close_segment :: "recording_pipeline \<Rightarrow> recording_pipeline" where
  "close_segment p =
     (case pl_writer p of
        None \<Rightarrow> p
      | Some w \<Rightarrow> p\<lparr>pl_writer := None,
          pl_closed := pl_closed p @ [(unwrap_or (pl_current_path p) (0, 0), sk_bytes (sw_writer w))]\<rparr>)
     \<lparr>pl_current_path := None, pl_current_start_ts_ns := None, pl_segment_bytes := 0\<rparr>"

definition note_rotation :: "recording_pipeline \<Rightarrow> recording_pipeline" where
  "note_rotation p = p\<lparr>pl_rotations := pl_rotations p + 1, pl_system_events := pl_system_events p @ [RecordingRotated]\<rparr>"

definition rotate_now :: "world \<Rightarrow> i64 \<Rightarrow> recording_pipeline \<Rightarrow> (recording_error + unit) \<times> recording_pipeline" where
  "rotate_now W ts p =
     open_segment W ts (if pl_writer p \<noteq> None then note_rotation (close_segment p) else p)"

definition ensure_segment :: "world \<Rightarrow> i64 \<Rightarrow> recording_pipeline \<Rightarrow> (recording_error + unit) \<times> recording_pipeline" where
  "ensure_segment W ts p = (if pl_writer p = None then open_segment W ts p else (Inr (), p))"

definition should_rotate_before_write :: "world \<Rightarrow> recording_pipeline \<Rightarrow> bool \<times> recording_pipeline" where
  "should_rotate_before_write W p =
     (if pcf_max_duration (pl_cfg p) = 0 then (False, p)
      else
        let (now, p) = clock_now W p in
        (pcf_max_duration (pl_cfg p) \<le> now - pl_segment_started p \<and> pl_writer p \<noteq> None, p))"

definition should_rotate_after_write :: "recording_pipeline \<Rightarrow> bool" where
  "should_rotate_after_write p \<longleftrightarrow>
     0 < pcf_max_bytes (pl_cfg p) \<and> pcf_max_bytes (pl_cfg p) \<le> pl_segment_bytes p \<and> pl_writer p \<noteq> None"

definition append_frame :: "pending_frame \<Rightarrow> recording_pipeline \<Rightarrow> (recording_error + unit) \<times> recording_pipeline" where
  "append_frame f p =
     (case pl_writer p of
        None \<Rightarrow> (Inl (Io ''no open segment''), p)
      | Some w \<Rightarrow>
          (case write_record w f of
             (Inl e, w) \<Rightarrow> (Inl e, p\<lparr>pl_writer := Some w\<rparr>)
           | (Inr _, w) \<Rightarrow>
               (let p = p\<lparr>pl_writer := Some w,
                      pl_segment_bytes := pl_segment_bytes p + of_nat (4 + RAW_HEADER_BODY_LEN + length (pf_payload f)),
                      pl_records_written := pl_records_written p + 1\<rparr> in
                (Inr (), if should_rotate_after_write p then note_rotation (close_segment p) else p))))"

definition write_frame :: "world \<Rightarrow> pending_frame \<Rightarrow> recording_pipeline \<Rightarrow> (recording_error + unit) \<times> recording_pipeline" where
  "write_frame W f p =
     (let p = refresh_disk_pressure W p in
      case fail_closed_if_disk_full p of
        Inl e \<Rightarrow> (Inl e, p)
      | Inr _ \<Rightarrow>
          sthen (ensure_segment W (pf_receive_ts_ns f) p) (\<lambda>_ p.
          let (rotate, p) = should_rotate_before_write W p in
          sthen (if rotate then rotate_now W (pf_receive_ts_ns f) p else (Inr (), p)) (\<lambda>_ p.
          append_frame f p)))"

definition write_pending_frame :: "world \<Rightarrow> pending_frame \<Rightarrow> recording_pipeline \<Rightarrow> (recording_error + unit) \<times> recording_pipeline" where
  "write_pending_frame W f p =
     (let p = refresh_disk_pressure W p in
      case fail_closed_if_disk_full p of Inl e \<Rightarrow> (Inl e, p) | Inr _ \<Rightarrow> write_frame W f p)"

definition pipeline_enqueue :: "world \<Rightarrow> pending_frame \<Rightarrow> recording_pipeline \<Rightarrow> (recording_error + enqueue_outcome) \<times> recording_pipeline" where
  "pipeline_enqueue W f p =
     (let p = refresh_disk_pressure W p in
      case fail_closed_if_disk_full p of
        Inl e \<Rightarrow> (Inl e, p)
      | Inr _ \<Rightarrow>
          (case rq_push (pl_queue p) f of
             (Inl e, q) \<Rightarrow> (Inl e, p\<lparr>pl_queue := q\<rparr>)
           | (Inr outcome, q) \<Rightarrow>
               (Inr outcome, p\<lparr>pl_queue := q,
                 pl_system_events := pl_system_events p @ overflow_events outcome (rq_dropped_total q)\<rparr>)))"

primrec pipeline_flush :: "world \<Rightarrow> usize \<Rightarrow> usize \<Rightarrow> recording_pipeline \<Rightarrow> (recording_error + usize) \<times> recording_pipeline" where
  "pipeline_flush W 0 n p = (Inr n, p)"
| "pipeline_flush W (Suc k) n p =
     (let p = refresh_disk_pressure W p in
      case fail_closed_if_disk_full p of
        Inl e \<Rightarrow> (Inl e, p)
      | Inr _ \<Rightarrow>
          (case rq_pop_front (pl_queue p) of
             (None, _) \<Rightarrow> (Inr n, p)
           | (Some f, q) \<Rightarrow>
               sthen (write_frame W f (p\<lparr>pl_queue := q\<rparr>)) (\<lambda>_ p. pipeline_flush W k (Suc n) p)))"

definition pipeline_flush_pending :: "world \<Rightarrow> usize \<Rightarrow> recording_pipeline \<Rightarrow> (recording_error + usize) \<times> recording_pipeline" where
  "pipeline_flush_pending W limit p = pipeline_flush W limit 0 p"

section \<open>The handle\<close>

record recording_handle =
  hd_queue :: recording_queue
  hd_last_reported_dropped :: w64
  hd_pipeline :: recording_pipeline
  hd_pending :: "pending_frame list"

definition handle_new :: "recording_pipeline \<Rightarrow> recording_handle" where
  "handle_new p =
     \<lparr>hd_queue = recording_queue_new (pcf_queue_capacity (pl_cfg p)) (pcf_overflow (pl_cfg p)),
      hd_last_reported_dropped = 0, hd_pipeline = p, hd_pending = []\<rparr>"

definition handle_enqueue :: "pending_frame \<Rightarrow> recording_handle \<Rightarrow> (recording_error + enqueue_outcome) \<times> recording_handle" where
  "handle_enqueue f h = (case rq_push (hd_queue h) f of (r, q) \<Rightarrow> (r, h\<lparr>hd_queue := q\<rparr>))"

definition handle_register_metadata :: "world \<Rightarrow> metadata_record \<Rightarrow> recording_handle \<Rightarrow> (recording_error + unit) \<times> recording_handle" where
  "handle_register_metadata W m h = (case register_metadata W m (hd_pipeline h) of (r, p) \<Rightarrow> (r, h\<lparr>hd_pipeline := p\<rparr>))"

text \<open>One turn of the write loops: the frame leaves \<^verbatim>\<open>pending\<close> only after it is written.\<close>

definition write_front :: "world \<Rightarrow> pending_frame \<Rightarrow> recording_handle \<Rightarrow> (recording_error + unit) \<times> recording_handle" where
  "write_front W f h =
     (case write_pending_frame W f (hd_pipeline h) of
        (Inl e, p) \<Rightarrow> (Inl e, h\<lparr>hd_pipeline := p\<rparr>)
      | (Inr _, p) \<Rightarrow> (Inr (), h\<lparr>hd_pipeline := p, hd_pending := tl (hd_pending h)\<rparr>))"

primrec handle_flush :: "world \<Rightarrow> usize \<Rightarrow> usize \<Rightarrow> recording_handle \<Rightarrow> (recording_error + usize) \<times> recording_handle" where
  "handle_flush W 0 n h = (Inr n, h)"
| "handle_flush W (Suc k) n h =
     (case hd_pending h of
        [] \<Rightarrow> (Inr n, h)
      | f # _ \<Rightarrow> sthen (write_front W f h) (\<lambda>_ h. handle_flush W k (Suc n) h))"

definition handle_flush_pending :: "world \<Rightarrow> usize \<Rightarrow> recording_handle \<Rightarrow> (recording_error + usize) \<times> recording_handle" where
  "handle_flush_pending W limit h =
     (case drain_front (hd_queue h) limit of
        (incoming, q) \<Rightarrow> handle_flush W limit 0 (h\<lparr>hd_queue := q, hd_pending := hd_pending h @ incoming\<rparr>))"

definition handle_rotate_now :: "world \<Rightarrow> i64 \<Rightarrow> recording_handle \<Rightarrow> (recording_error + unit) \<times> recording_handle" where
  "handle_rotate_now W ts h = (case rotate_now W ts (hd_pipeline h) of (r, p) \<Rightarrow> (r, h\<lparr>hd_pipeline := p\<rparr>))"

definition handle_queue_len :: "recording_handle \<Rightarrow> usize" where
  "handle_queue_len h = length (rq_items (hd_queue h)) + length (hd_pending h)"

definition take_overflow_events :: "recording_handle \<Rightarrow> system_event list \<times> recording_handle" where
  "take_overflow_events h =
     (let total_dropped = rq_dropped_total (hd_queue h);
          dropped = (if hd_last_reported_dropped h \<le> total_dropped then total_dropped - hd_last_reported_dropped h else 0) in
      if dropped = 0 then ([], h)
      else
        ([QueuePressure ''recording queue full'',
          EventsDropped dropped (''recording_queue dropped_total='' @ show_nat (unat total_dropped))],
         h\<lparr>hd_last_reported_dropped := total_dropped\<rparr>))"

text \<open>
  Shutdown of the handle.  The loop moves what is queued behind \<^verbatim>\<open>pending\<close> and writes one frame per turn.  Flushing
  the file at the end adds nothing to what the writer has taken.
\<close>

lemma write_front_shrinks: "hd_pending h = f # fs \<Longrightarrow> write_front W f h = (Inr (), h') \<Longrightarrow>
    hd_queue h' = hd_queue h \<and> hd_pending h' = fs"
  by (auto simp: write_front_def split: prod.splits sum.splits)

definition take_in :: "usize \<Rightarrow> recording_handle \<Rightarrow> recording_handle" where
  "take_in limit h = (case drain_front (hd_queue h) limit of
     (moved, q) \<Rightarrow> h\<lparr>hd_queue := q, hd_pending := hd_pending h @ moved\<rparr>)"

lemma take_in_fields [simp]:
  "hd_pipeline (take_in n h) = hd_pipeline h"
  "hd_pending (take_in n h) @ rq_items (hd_queue (take_in n h)) = hd_pending h @ rq_items (hd_queue h)"
  "rq_policy (hd_queue (take_in n h)) = rq_policy (hd_queue h)"
  "handle_queue_len (take_in n h) = handle_queue_len h"
  by (simp_all add: take_in_def drain_front_def Let_def handle_queue_len_def min_def)

function handle_shutdown_drain :: "world \<Rightarrow> nat \<Rightarrow> recording_handle \<Rightarrow> (recording_error + unit) \<times> recording_handle" where
  "handle_shutdown_drain W deadline h =
     (case clock_now W (hd_pipeline h) of
        (now, p) \<Rightarrow>
          if deadline \<le> now then (Inl (ShutdownTimeout (handle_queue_len h)), h\<lparr>hd_pipeline := p\<rparr>)
          else
            (case hd_pending (take_in 4096 (h\<lparr>hd_pipeline := p\<rparr>)) of
               [] \<Rightarrow> (Inr (), take_in 4096 (h\<lparr>hd_pipeline := p\<rparr>))
             | f # _ \<Rightarrow>
                 (case write_front W f (take_in 4096 (h\<lparr>hd_pipeline := p\<rparr>)) of
                    (Inl e, h) \<Rightarrow> (Inl e, h)
                  | (Inr _, h) \<Rightarrow> handle_shutdown_drain W deadline h)))"
  by pat_completeness auto
termination
proof (relation "measure (\<lambda>(W, deadline, h). handle_queue_len h)")
  fix W deadline h now p f fs r h' u
  assume "hd_pending (take_in 4096 (h\<lparr>hd_pipeline := p\<rparr>)) = f # fs"
    and "(r, h') = write_front W f (take_in 4096 (h\<lparr>hd_pipeline := p\<rparr>))" and "r = Inr u"
  then have "hd_queue h' = hd_queue (take_in 4096 (h\<lparr>hd_pipeline := p\<rparr>))" "hd_pending h' = fs"
    using write_front_shrinks [of "take_in 4096 (h\<lparr>hd_pipeline := p\<rparr>)" f fs W h'] by auto
  then have "Suc (handle_queue_len h') = handle_queue_len (take_in 4096 (h\<lparr>hd_pipeline := p\<rparr>))"
    using \<open>hd_pending _ = f # fs\<close> by (simp add: handle_queue_len_def)
  also have "handle_queue_len (take_in 4096 (h\<lparr>hd_pipeline := p\<rparr>)) = handle_queue_len h" by simp (simp add: handle_queue_len_def)
  finally show "((W, deadline, h'), W, deadline, h) \<in> measure (\<lambda>(W, deadline, h). handle_queue_len h)" by simp
qed simp

declare handle_shutdown_drain.simps [simp del]

lemma handle_flush_pending_take_in: "handle_flush_pending W limit h = handle_flush W limit 0 (take_in limit h)"
  by (simp add: handle_flush_pending_def take_in_def split: prod.splits)

text \<open>The recovery of a file: what the reader returns of it, without the metadata records.\<close>

definition recovered :: "8 word list \<Rightarrow> raw_record list" where
  "recovered bytes =
     (case reader_open bytes of
        Inl _ \<Rightarrow> []
      | Inr r \<Rightarrow> (case fst (read_all [] r) of Inl _ \<Rightarrow> [] | Inr records \<Rightarrow> records))"

definition data_records :: "8 word list \<Rightarrow> raw_record list" where
  "data_records bytes = filter (\<lambda>r. rh_opcode (rr_header r) \<noteq> MetadataFrame) (recovered bytes)"

definition data_of :: "pending_frame list \<Rightarrow> raw_record list" where
  "data_of fs = map recorded (filter (\<lambda>f. pf_opcode f \<noteq> MetadataFrame) fs)"

lemma data_of_simps [simp]: "data_of [] = []" "data_of (fs @ gs) = data_of fs @ data_of gs"
  "data_of [metadata_frame m ts bs] = []"
  by (simp_all add: data_of_def metadata_frame_def)

text \<open>A writer that has completed the records of \<open>fs\<close>; a part of one more only where the file takes no more bytes.\<close>

definition holds :: "segment_writer \<Rightarrow> pending_frame list \<Rightarrow> bool" where
  "holds w fs \<longleftrightarrow> sw_started w \<and> (\<forall>f \<in> set fs. frame_ok f) \<and>
     (\<exists>ts f m. in_i64 ts \<and> written w = segment_header ts @ concat (map record_bytes fs) @ take m (record_bytes f) \<and>
        m < length (record_bytes f) \<and> (0 < m \<longrightarrow> frame_ok f \<and> sk_room (sw_writer w) = Some 0))"

lemma holdsI:
  "sw_started w \<Longrightarrow> \<forall>f \<in> set fs. frame_ok f \<Longrightarrow> in_i64 ts \<Longrightarrow>
   written w = segment_header ts @ concat (map record_bytes fs) @ take m (record_bytes f) \<Longrightarrow> m < length (record_bytes f) \<Longrightarrow>
   (0 < m \<Longrightarrow> frame_ok f \<and> sk_room (sw_writer w) = Some 0) \<Longrightarrow> holds w fs"
  unfolding holds_def by blast

lemma recovered_holds:
  assumes "holds w fs"
  shows "recovered (written w) = map recorded fs"
proof -
  obtain ts f m where b: "in_i64 ts" "written w = segment_header ts @ concat (map record_bytes fs) @ take m (record_bytes f)"
    "m < length (record_bytes f)" "0 < m \<longrightarrow> frame_ok f" and ok: "\<forall>f \<in> set fs. frame_ok f"
    using assms by (auto simp: holds_def)
  have "fst (read_all [] r) = Inr (map recorded fs)"
    if "sr_rest r = concat (map record_bytes fs) @ take m (record_bytes f)" "sr_format_version r = FORMAT_VERSION" for r
  proof (cases "m = 0")
    case True
    then show ?thesis using that read_all_complete [OF ok, of r "length (concat (map record_bytes fs))" "[]"]
      by (simp add: complete_all)
  next
    case False
    then have "\<forall>f \<in> set (fs @ [f]). frame_ok f" using ok b(4) by auto
    from read_all_complete [OF this that(2), of "length (concat (map record_bytes fs)) + m" "[]"] b(3) that(1)
    show ?thesis by (simp add: complete_cut)
  qed
  then show ?thesis using b(1,2) by (simp add: recovered_def reader_open_header)
qed

lemma data_records_holds: "holds w fs \<Longrightarrow> data_records (written w) = data_of fs"
  by (simp add: data_records_def data_of_def recovered_holds filter_map o_def recorded_def frame_header_def)

lemma holds_write_record:
  assumes "holds w fs" and "in_i64 (pf_receive_ts_ns f)"
  shows "(\<exists>w'. write_record w f = (Inr (), w') \<and> holds w' (fs @ [f])) \<or> (\<exists>e w'. write_record w f = (Inl e, w') \<and> holds w' fs)"
proof (cases "4 + RAW_HEADER_BODY_LEN + length (pf_payload f) \<le> MAX_RAW_RECORD_LEN")
  case False
  then show ?thesis using assms(1) write_record_refused [of f w] by blast
next
  case True
  then have ok: "frame_ok f" using assms(2) by (simp add: frame_ok_def)
  obtain ts g m where b: "sw_started w" "in_i64 ts"
    "written w = segment_header ts @ concat (map record_bytes fs) @ take m (record_bytes g)"
    "m < length (record_bytes g)" "0 < m \<longrightarrow> frame_ok g \<and> sk_room (sw_writer w) = Some 0" and fs: "\<forall>f \<in> set fs. frame_ok f"
    using assms(1) by (auto simp: holds_def)
  have pos: "record_bytes f \<noteq> []" using length_record_bytes [of f] by auto
  show ?thesis
  proof (cases "sk_room (sw_writer w) = None \<or> (\<exists>n. sk_room (sw_writer w) = Some n \<and> length (record_bytes f) \<le> n)")
    case fits: True
    then have "m = 0" using b(5) pos by auto
    then have "\<exists>w'. write_record w f = (Inr (), w') \<and> holds w' (fs @ [f])"
      using fits b ok fs write_record_put [OF b(1) True] pos
      by (auto simp: put_def write_all_def intro!: holdsI [where ts = ts and f = f and m = 0])
    then show ?thesis by blast
  next
    case False
    then obtain n where n: "sk_room (sw_writer w) = Some n" "n < length (record_bytes f)" by auto
    show ?thesis
    proof (cases "m = 0")
      case m: True
      then have "\<exists>e w'. write_record w f = (Inl e, w') \<and> holds w' fs"
        using n b ok fs write_record_put [OF b(1) True]
        by (auto simp: put_def write_all_def intro!: holdsI [where ts = ts and f = f and m = n])
      then show ?thesis by blast
    next
      case m: False
      then have "\<exists>e w'. write_record w f = (Inl e, w') \<and> holds w' fs"
        using n b ok fs write_record_put [OF b(1) True]
        by (auto simp: put_def write_all_def intro!: holdsI [where ts = ts and f = g and m = m])
      then show ?thesis by blast
    qed
  qed
qed

section \<open>What is on disk\<close>

definition disk :: "recording_pipeline \<Rightarrow> raw_record list" where
  "disk p = concat (map (\<lambda>s. data_records (snd s)) (pl_closed p)) @
     (case pl_writer p of None \<Rightarrow> [] | Some w \<Rightarrow> data_records (written w))"

definition pl_ok :: "recording_pipeline \<Rightarrow> bool" where
  "pl_ok p \<longleftrightarrow> (\<forall>w. pl_writer p = Some w \<longrightarrow> (\<exists>fs. holds w fs)) \<and> in_i64 (unwrap_or (pl_current_start_ts_ns p) 0)"

definition grows :: "recording_pipeline \<Rightarrow> raw_record list \<Rightarrow> recording_pipeline \<Rightarrow> bool" where
  "grows p rs p' \<longleftrightarrow> pl_ok p' \<and> disk p' = disk p @ rs"

text \<open>\<^verbatim>\<open>File::create\<close> truncates: a new file is empty.\<close>

definition world_ok :: "world \<Rightarrow> bool" where
  "world_ok W \<longleftrightarrow> (\<forall>n s. wd_create W n = Inr s \<longrightarrow> sk_bytes s = [])"

lemma grows_refl: "pl_ok p \<Longrightarrow> grows p [] p"
  by (simp add: grows_def)

lemma grows_trans: "grows p xs q \<Longrightarrow> grows q ys r \<Longrightarrow> grows p (xs @ ys) r"
  by (simp add: grows_def)

lemma grows_ok: "grows p xs q \<Longrightarrow> pl_ok q"
  by (simp add: grows_def)

lemma reader_open_length: "reader_open bytes = Inr r \<Longrightarrow> HEADER_SIZE \<le> length bytes"
  by (auto simp: reader_open_def read_exact_def and_then_Inr_iff ok_or_Inr_iff HEADER_SIZE_def Let_def split: if_splits)

lemma reader_open_cut_header: "k < HEADER_SIZE \<Longrightarrow> \<exists>e. reader_open (take k (segment_header ts)) = Inl e"
  using reader_open_length [of "take k (segment_header ts)"] by (cases "reader_open (take k (segment_header ts))") auto

lemma writer_create_holds:
  assumes "sk_bytes s = []" and "in_i64 ts"
  shows "(\<exists>w s'. writer_create s ts = (Inr w, s') \<and> holds w []) \<or>
    (\<exists>e s'. writer_create s ts = (Inl e, s') \<and> data_records (sk_bytes s') = [])"
proof (cases "\<exists>w s'. writer_create s ts = (Inr w, s')")
  case True
  then obtain w s' where w: "writer_create s ts = (Inr w, s')" by blast
  have "record_bytes f \<noteq> []" for f using length_record_bytes [of f] by auto
  with w have "holds w []"
    by (intro holdsI [where ts = ts and m = 0])
      (auto simp: writer_create_eq write_all_def assms split: option.splits if_splits)
  with w show ?thesis by blast
next
  case False
  then obtain e s' n where "writer_create s ts = (Inl e, s')" "sk_bytes s' = take n (segment_header ts)" "n < HEADER_SIZE"
    using assms(1) by (fastforce simp: writer_create_eq write_all_def split: option.splits if_splits)
  moreover from this(3) have "data_records (take n (segment_header ts)) = []"
    using reader_open_cut_header [of n ts] by (auto simp: data_records_def recovered_def)
  ultimately show ?thesis by auto
qed

lemma write_metadata_holds:
  assumes "holds w fs" and "in_i64 ts"
  shows "\<exists>gs. holds (snd (write_metadata W w m ts)) gs \<and> data_of gs = data_of fs"
proof (cases "encode_metadata W m")
  case (Inl e)
  then show ?thesis using assms by (auto simp: write_metadata_def)
next
  case (Inr payload)
  have "in_i64 (pf_receive_ts_ns (metadata_frame m ts payload))" using assms(2) by (simp add: metadata_frame_def)
  from holds_write_record [OF assms(1) this] Inr show ?thesis
    by (auto simp: write_metadata_def)
qed

lemma write_all_metadata_holds:
  "holds w fs \<Longrightarrow> in_i64 ts \<Longrightarrow> \<exists>gs. holds (snd (write_all_metadata W ts ms w b)) gs \<and> data_of gs = data_of fs"
proof (induction ms arbitrary: w fs b)
  case (Cons m ms)
  obtain gs where gs: "holds (snd (write_metadata W w m ts)) gs" "data_of gs = data_of fs"
    using write_metadata_holds [OF Cons.prems] by blast
  show ?case
  proof (cases "write_metadata W w m ts")
    case (Pair r w')
    with Cons gs show ?thesis by (cases "encode_metadata W m"; cases r) fastforce+
  qed
qed auto

section \<open>Every operation keeps what is on disk\<close>

lemma grows_same: "pl_ok p \<Longrightarrow> pl_writer q = pl_writer p \<Longrightarrow> pl_closed q = pl_closed p \<Longrightarrow>
    pl_current_start_ts_ns q = pl_current_start_ts_ns p \<Longrightarrow> grows p [] q"
  by (simp add: grows_def pl_ok_def disk_def)

lemma clock_now_grows: "pl_ok p \<Longrightarrow> grows p [] (snd (clock_now W p))"
  by (rule grows_same) (simp_all add: clock_now_def)

lemma note_rotation_grows: "pl_ok p \<Longrightarrow> grows p [] (note_rotation p)"
  by (rule grows_same) (simp_all add: note_rotation_def)

lemma refresh_grows: "pl_ok p \<Longrightarrow> grows p [] (refresh_disk_pressure W p)"
  by (rule grows_same)
    (simp_all add: refresh_disk_pressure_def probe_free_space_def clock_now_def Let_def split: option.splits)

lemma close_segment_grows: "pl_ok p \<Longrightarrow> grows p [] (close_segment p) \<and> pl_writer (close_segment p) = None"
  by (auto simp: grows_def pl_ok_def disk_def close_segment_def in_i64_def split: option.splits)

lemma open_segment_grows:
  assumes "pl_ok p" and "pl_writer p = None" and "world_ok W" and "in_i64 ts" and "open_segment W ts p = (r, q)"
  shows "grows p [] q"
proof (cases "wd_create W (pl_creates p)")
  case (Inl e)
  with assms(1,5) show ?thesis by (auto simp: open_segment_def Let_def intro: grows_same)
next
  case (Inr s)
  then have s: "sk_bytes s = []" using assms(3) by (auto simp: world_ok_def)
  from writer_create_holds [OF s assms(4)] show ?thesis
  proof (elim disjE exE conjE)
    fix w s'
    assume w: "writer_create s ts = (Inr w, s')" "holds w []"
    obtain r' w' where res: "write_all_metadata W ts (pl_metadata p) w (of_nat HEADER_SIZE) = (r', w')" by fastforce
    with write_all_metadata_holds [OF w(2) assms(4), of W "pl_metadata p" "of_nat HEADER_SIZE"]
    obtain gs where gs: "holds w' gs" "data_of gs = []" by auto
    with assms Inr w(1) res show ?thesis
      by (cases r') (auto simp: open_segment_def Let_def grows_def pl_ok_def disk_def clock_now_def data_records_holds)
  next
    fix e s'
    assume "writer_create s ts = (Inl e, s')" "data_records (sk_bytes s') = []"
    with assms Inr show ?thesis by (auto simp: open_segment_def Let_def grows_def pl_ok_def disk_def)
  qed
qed

lemma rotate_now_grows:
  assumes "pl_ok p" and "world_ok W" and "in_i64 ts" and "rotate_now W ts p = (r, q)"
  shows "grows p [] q"
proof (cases "pl_writer p")
  case None
  with assms show ?thesis by (auto simp: rotate_now_def intro: open_segment_grows)
next
  case (Some w)
  let ?c = "note_rotation (close_segment p)"
  have c: "grows p [] ?c" "pl_writer ?c = None"
    using grows_trans [OF conjunct1 [OF close_segment_grows [OF assms(1)]] note_rotation_grows] close_segment_grows [OF assms(1)]
    by (auto simp: note_rotation_def dest: grows_ok)
  from Some assms(4) have "open_segment W ts ?c = (r, q)" by (simp add: rotate_now_def)
  from grows_trans [OF c(1) open_segment_grows [OF grows_ok [OF c(1)] c(2) assms(2,3) this]] show ?thesis by simp
qed

lemma ensure_segment_grows:
  "pl_ok p \<Longrightarrow> world_ok W \<Longrightarrow> in_i64 ts \<Longrightarrow> ensure_segment W ts p = (r, q) \<Longrightarrow> grows p [] q"
  by (auto simp: ensure_segment_def intro: open_segment_grows grows_refl split: if_splits)

text \<open>Either the frame is recorded or nothing is.\<close>

definition records :: "pending_frame \<Rightarrow> (recording_error + unit) \<times> recording_pipeline \<Rightarrow> recording_pipeline \<Rightarrow> bool" where
  "records f res p \<longleftrightarrow> (case res of (Inl _, q) \<Rightarrow> grows p [] q | (Inr _, q) \<Rightarrow> grows p (data_of [f]) q)"

lemma records_error [simp]: "records f (Inl e, q) p \<longleftrightarrow> grows p [] q"
  by (simp add: records_def)

lemma records_after: "grows p [] q \<Longrightarrow> records f res q \<Longrightarrow> records f res p"
  by (auto simp: records_def split: prod.splits sum.splits dest: grows_trans [where xs = "[]"])

lemma append_frame_records:
  assumes "pl_ok p" and "in_i64 (pf_receive_ts_ns f)"
  shows "records f (append_frame f p) p"
proof (cases "pl_writer p")
  case None
  with assms(1) show ?thesis by (simp add: append_frame_def records_def grows_refl)
next
  case (Some w)
  then obtain fs where fs: "holds w fs" using assms(1) by (auto simp: pl_ok_def)
  have base: "disk (p\<lparr>pl_writer := Some w', pl_segment_bytes := b, pl_records_written := n\<rparr>) = disk p @ data_of gs"
    if "holds w' (fs @ gs)" for w' gs b n
    using that Some fs by (simp add: disk_def data_records_holds)
  from holds_write_record [OF fs assms(2)] show ?thesis
  proof (elim disjE exE conjE)
    fix w'
    assume w': "write_record w f = (Inr (), w')" "holds w' (fs @ [f])"
    let ?q = "p\<lparr>pl_writer := Some w', pl_segment_bytes := pl_segment_bytes p + of_nat (4 + RAW_HEADER_BODY_LEN + length (pf_payload f)),
      pl_records_written := pl_records_written p + 1\<rparr>"
    have q: "grows p (data_of [f]) ?q" using base [OF w'(2)] w'(2) assms(1) by (auto simp: grows_def pl_ok_def)
    then have "grows p (data_of [f]) (note_rotation (close_segment ?q))"
      using close_segment_grows [OF grows_ok [OF q]] note_rotation_grows [of "close_segment ?q"]
      by (auto simp: grows_def)
    with q Some w' show ?thesis
      by (auto simp: append_frame_def records_def Let_def)
  next
    fix e w'
    assume w': "write_record w f = (Inl e, w')" "holds w' fs"
    with base [of w' "[]" "pl_segment_bytes p" "pl_records_written p"] Some assms(1) show ?thesis
      by (auto simp: append_frame_def records_def grows_def pl_ok_def disk_def data_records_holds)
  qed
qed

lemma write_frame_records:
  assumes "pl_ok p" and "world_ok W" and "in_i64 (pf_receive_ts_ns f)"
  shows "records f (write_frame W f p) p"
proof -
  let ?p1 = "refresh_disk_pressure W p"
  have p1: "grows p [] ?p1" using assms(1) by (rule refresh_grows)
  obtain r2 p2 where p2: "ensure_segment W (pf_receive_ts_ns f) ?p1 = (r2, p2)" by fastforce
  have p2': "grows ?p1 [] p2" by (rule ensure_segment_grows [OF grows_ok [OF p1] assms(2,3) p2])
  obtain b p3 where p3: "should_rotate_before_write W p2 = (b, p3)" by fastforce
  have p3': "grows p2 [] p3"
    using p3 clock_now_grows [OF grows_ok [OF p2'], of W] grows_refl [OF grows_ok [OF p2']]
    by (auto simp: should_rotate_before_write_def Let_def split: if_splits prod.splits)
  obtain r4 p4 where p4: "(if b then rotate_now W (pf_receive_ts_ns f) p3 else (Inr (), p3)) = (r4, p4)" by fastforce
  have p4': "grows p3 [] p4"
    using p4 rotate_now_grows [OF grows_ok [OF p3'] assms(2,3)] grows_refl [OF grows_ok [OF p3']] by (auto split: if_splits)
  have all: "grows p [] p2" "grows p [] p4"
    using grows_trans [OF p1 p2'] grows_trans [OF grows_trans [OF grows_trans [OF p1 p2'] p3'] p4'] by simp_all
  have last: "records f (append_frame f p4) p"
    by (rule records_after [OF all(2) append_frame_records [OF grows_ok [OF p4'] assms(3)]])
  show ?thesis
    using p1 p2 p3 p4 all last
    by (cases r2; cases r4) (simp_all add: write_frame_def Let_def fail_closed_if_disk_full_def)
qed

lemma write_pending_frame_records:
  assumes "pl_ok p" and "world_ok W" and "in_i64 (pf_receive_ts_ns f)"
  shows "records f (write_pending_frame W f p) p"
proof -
  let ?p1 = "refresh_disk_pressure W p"
  have p1: "grows p [] ?p1" using assms(1) by (rule refresh_grows)
  from records_after [OF p1 write_frame_records [OF grows_ok [OF p1] assms(2,3)]] p1 show ?thesis
    by (simp add: write_pending_frame_def Let_def fail_closed_if_disk_full_def)
qed

lemma register_metadata_shape:
  assumes "register_metadata W m p = (r, q)"
  shows "q = p \<or> pl_writer q = pl_writer p \<and> pl_closed q = pl_closed p \<and> pl_current_start_ts_ns q = pl_current_start_ts_ns p \<or>
    (\<exists>w. pl_writer p = Some w \<and> pl_writer q = Some (snd (write_metadata W w m (unwrap_or (pl_current_start_ts_ns p) 0))) \<and>
      pl_closed q = pl_closed p \<and> pl_current_start_ts_ns q = pl_current_start_ts_ns p)"
proof (cases "find (\<lambda>existing. stable_key existing = stable_key m) (pl_metadata p)")
  case (Some existing)
  with assms show ?thesis by (auto simp: register_metadata_def)
next
  case None
  show ?thesis
  proof (cases "encode_metadata W m")
    case (Inl e)
    with None assms show ?thesis by (auto simp: register_metadata_def)
  next
    case (Inr encoded)
    with None assms show ?thesis
      by (cases "pl_writer p"; cases "write_metadata W (the (pl_writer p)) m (unwrap_or (pl_current_start_ts_ns p) 0)";
          cases "fst (write_metadata W (the (pl_writer p)) m (unwrap_or (pl_current_start_ts_ns p) 0))")
        (auto simp: register_metadata_def)
  qed
qed

lemma register_metadata_grows:
  assumes "pl_ok p" and "register_metadata W m p = (r, q)"
  shows "grows p [] q"
  using register_metadata_shape [OF assms(2)]
proof (elim disjE exE conjE)
  fix w
  let ?w' = "snd (write_metadata W w m (unwrap_or (pl_current_start_ts_ns p) 0))"
  assume q: "pl_writer p = Some w" "pl_writer q = Some ?w'" "pl_closed q = pl_closed p"
    "pl_current_start_ts_ns q = pl_current_start_ts_ns p"
  obtain fs where fs: "holds w fs" using q(1) assms(1) by (auto simp: pl_ok_def)
  moreover obtain gs where "holds ?w' gs" "data_of gs = data_of fs"
    using write_metadata_holds [OF fs, of "unwrap_or (pl_current_start_ts_ns p) 0" W m] assms(1) unfolding pl_ok_def by blast
  ultimately show ?thesis using q assms(1) by (auto simp: grows_def pl_ok_def disk_def data_records_holds)
qed (use assms(1) in \<open>auto intro: grows_refl grows_same\<close>)

section \<open>Runs of the handle\<close>

text \<open>
  The calls on a handle, each under its lock, with the frames it accepted.  \<open>call_ok\<close> says that timestamps are
  64-bit values.
\<close>

datatype handle_call =
    CallEnqueue pending_frame
  | CallFlush usize
  | CallRotate i64
  | CallRegister metadata_record
  | CallDrain nat
  | CallTakeEvents
  | CallSetProbe

fun handle_step :: "world \<Rightarrow> recording_handle \<Rightarrow> handle_call \<Rightarrow> pending_frame list \<times> recording_handle" where
  "handle_step W h (CallEnqueue f) = (case handle_enqueue f h of (r, h') \<Rightarrow> (if r = Inr Accepted then [f] else [], h'))"
| "handle_step W h (CallFlush limit) = ([], snd (handle_flush_pending W limit h))"
| "handle_step W h (CallRotate ts) = ([], snd (handle_rotate_now W ts h))"
| "handle_step W h (CallRegister m) = ([], snd (handle_register_metadata W m h))"
| "handle_step W h (CallDrain deadline) = ([], snd (handle_shutdown_drain W deadline h))"
| "handle_step W h CallTakeEvents = ([], snd (take_overflow_events h))"
| "handle_step W h CallSetProbe = ([], h\<lparr>hd_pipeline := set_free_space_probe_with_interval 1000000000 (hd_pipeline h)\<rparr>)"

fun call_ok :: "handle_call \<Rightarrow> bool" where
  "call_ok (CallEnqueue f) = in_i64 (pf_receive_ts_ns f)"
| "call_ok (CallRotate ts) = in_i64 ts"
| "call_ok _ = True"

inductive handle_reach :: "world \<Rightarrow> pipeline_config \<Rightarrow> pending_frame list \<Rightarrow> recording_handle \<Rightarrow> bool" for W cfg where
  opened: "open_with_metadata W cfg metadata = Inr p \<Longrightarrow> handle_reach W cfg [] (handle_new p)"
| called: "handle_reach W cfg accepted h \<Longrightarrow> call_ok c \<Longrightarrow> handle_step W h c = (new, h') \<Longrightarrow>
    handle_reach W cfg (accepted @ new) h'"

abbreviation (input) waiting :: "recording_handle \<Rightarrow> pending_frame list" where
  "waiting h \<equiv> hd_pending h @ rq_items (hd_queue h)"

text \<open>Nothing accepted is lost, duplicated or reordered: it is on disk or waiting.\<close>

definition conserves :: "pending_frame list \<Rightarrow> recording_handle \<Rightarrow> bool" where
  "conserves accepted h \<longleftrightarrow> pl_ok (hd_pipeline h) \<and> (\<forall>f \<in> set (waiting h). in_i64 (pf_receive_ts_ns f)) \<and>
     disk (hd_pipeline h) @ data_of (waiting h) = data_of accepted"

lemma data_of_Cons: "data_of (f # fs) = (if pf_opcode f \<noteq> MetadataFrame then [recorded f] else []) @ data_of fs"
  by (simp add: data_of_def)

lemma conserves_grows:
  "conserves accepted h \<Longrightarrow> grows (hd_pipeline h) [] p \<Longrightarrow> conserves accepted (h\<lparr>hd_pipeline := p\<rparr>)"
  by (simp add: conserves_def grows_def)

lemma conserves_take_in: "conserves accepted h \<Longrightarrow> conserves accepted (take_in n h)"
  using take_in_fields(2) [of n h] by (simp add: conserves_def flip: append_assoc)

lemma conserves_write_front:
  assumes "conserves accepted h" and "hd_pending h = f # fs" and "world_ok W"
  shows "conserves accepted (snd (write_front W f h))"
proof -
  have f: "pl_ok (hd_pipeline h)" "in_i64 (pf_receive_ts_ns f)" using assms by (auto simp: conserves_def)
  obtain r p where res: "write_pending_frame W f (hd_pipeline h) = (r, p)" by fastforce
  with write_pending_frame_records [OF f(1) assms(3) f(2)] have rec: "records f (r, p) (hd_pipeline h)" by simp
  show ?thesis
  proof (cases r)
    case (Inl e)
    with rec res assms(1) show ?thesis by (auto simp: write_front_def intro: conserves_grows)
  next
    case (Inr u)
    with rec res assms(1,2) show ?thesis
      by (auto simp: write_front_def records_def grows_def conserves_def data_of_Cons)
  qed
qed

text \<open>What the write loops keep.\<close>

lemma flush_invariant:
  assumes "\<And>h f fs. P h \<Longrightarrow> hd_pending h = f # fs \<Longrightarrow> P (snd (write_front W f h))"
  shows "P h \<Longrightarrow> P (snd (handle_flush W k n h))"
proof (induction k arbitrary: n h)
  case (Suc k)
  show ?case
  proof (cases "hd_pending h")
    case (Cons f fs)
    obtain r h' where res: "write_front W f h = (r, h')" by fastforce
    with assms [OF Suc.prems Cons] have "P h'" by simp
    with Suc.IH Cons res show ?thesis by (cases r) auto
  qed (use Suc in simp)
qed simp

lemma drain_invariant:
  assumes clock: "\<And>h. P h \<Longrightarrow> P (h\<lparr>hd_pipeline := snd (clock_now W (hd_pipeline h))\<rparr>)" and take: "\<And>h. P h \<Longrightarrow> P (take_in 4096 h)"
    and front: "\<And>h f fs. P h \<Longrightarrow> hd_pending h = f # fs \<Longrightarrow> P (snd (write_front W f h))"
  shows "P h \<Longrightarrow> P (snd (handle_shutdown_drain W deadline h))"
  using clock front
proof (induction W deadline h rule: handle_shutdown_drain.induct)
  case (1 W deadline h)
  obtain now p where now: "clock_now W (hd_pipeline h) = (now, p)" by fastforce
  let ?h = "h\<lparr>hd_pipeline := p\<rparr>"
  have p: "P ?h" using "1.prems"(2) [OF "1.prems"(1)] now by simp
  show ?case
  proof (cases "deadline \<le> now \<or> hd_pending (take_in 4096 ?h) = []")
    case True
    with now p take [OF p] show ?thesis by (subst handle_shutdown_drain.simps) auto
  next
    case False
    then obtain f fs where f: "hd_pending (take_in 4096 ?h) = f # fs" by (meson list.exhaust)
    obtain r h' where res: "write_front W f (take_in 4096 ?h) = (r, h')" by fastforce
    with "1.prems"(3) [OF take [OF p] f] have h': "P h'" by simp
    with False now f res "1.IH" [OF now [symmetric] _ f res [symmetric] _ h' "1.prems"(2,3)] show ?thesis
      by (cases r) (subst handle_shutdown_drain.simps, simp)+
  qed
qed

lemma conserves_flush: "conserves accepted h \<Longrightarrow> world_ok W \<Longrightarrow> conserves accepted (snd (handle_flush W k n h))"
  by (rule flush_invariant [where P = "conserves accepted"]) (auto intro: conserves_write_front)

lemma conserves_drain: "conserves accepted h \<Longrightarrow> world_ok W \<Longrightarrow> conserves accepted (snd (handle_shutdown_drain W deadline h))"
proof (rule drain_invariant [where P = "conserves accepted"])
  show "conserves accepted (h\<lparr>hd_pipeline := snd (clock_now W (hd_pipeline h))\<rparr>)" if "conserves accepted h" for h
    using that clock_now_grows [of "hd_pipeline h" W] by (auto simp: conserves_def grows_def)
qed (auto intro: conserves_write_front conserves_take_in)

lemma open_with_metadata_ok: "open_with_metadata W cfg metadata = Inr p \<Longrightarrow>
    pl_writer p = None \<and> pl_closed p = [] \<and> pl_current_start_ts_ns p = None \<and> pl_cfg p = cfg"
  by (auto simp: open_with_metadata_def and_then_Inr_iff split: if_splits)

lemma conserves_enqueue:
  assumes "conserves accepted h" and "in_i64 (pf_receive_ts_ns f)" and "handle_enqueue f h = (r, h')"
    and "rq_policy (hd_queue h) \<noteq> DropOldest"
  shows "conserves (accepted @ (if r = Inr Accepted then [f] else [])) h'"
  using assms by (auto simp: conserves_def handle_enqueue_def rq_push_def split: if_splits overflow_policy.splits)

lemma write_front_queue: "hd_queue (snd (write_front W f h)) = hd_queue h"
  by (auto simp: write_front_def split: prod.splits sum.splits)

lemma handle_flush_policy: "rq_policy (hd_queue (snd (handle_flush W k n h))) = rq_policy (hd_queue h)"
  by (rule flush_invariant [where P = "\<lambda>h'. rq_policy (hd_queue h') = rq_policy (hd_queue h)"]) (simp_all add: write_front_queue)

lemma drain_policy: "rq_policy (hd_queue (snd (handle_shutdown_drain W deadline h))) = rq_policy (hd_queue h)"
  by (rule drain_invariant [where P = "\<lambda>h'. rq_policy (hd_queue h') = rq_policy (hd_queue h)"]) (simp_all add: write_front_queue)

lemma handle_step_policy: "rq_policy (hd_queue (snd (handle_step W h c))) = rq_policy (hd_queue h)"
  by (cases c) (auto simp: handle_enqueue_def rq_push_def handle_flush_pending_take_in handle_flush_policy handle_rotate_now_def
      handle_register_metadata_def drain_policy take_overflow_events_def Let_def split: prod.splits overflow_policy.splits)

lemma handle_step_conserves:
  assumes "conserves accepted h" and "world_ok W" and "call_ok c" and "handle_step W h c = (new, h')"
    and "rq_policy (hd_queue h) \<noteq> DropOldest"
  shows "conserves (accepted @ new) h'"
proof (cases c)
  case (CallEnqueue f)
  with assms conserves_enqueue [OF assms(1), of f] show ?thesis by (auto split: prod.splits)
next
  case (CallFlush limit)
  with assms show ?thesis by (auto simp: handle_flush_pending_take_in intro: conserves_flush conserves_take_in)
next
  case (CallRotate ts)
  with assms rotate_now_grows [of "hd_pipeline h" W ts] show ?thesis
    by (cases "rotate_now W ts (hd_pipeline h)") (auto simp: handle_rotate_now_def conserves_def grows_def)
next
  case (CallRegister m)
  with assms register_metadata_grows [of "hd_pipeline h" W m] show ?thesis
    by (cases "register_metadata W m (hd_pipeline h)") (auto simp: handle_register_metadata_def conserves_def grows_def)
next
  case (CallDrain deadline)
  with assms show ?thesis by (auto intro: conserves_drain)
next
  case CallTakeEvents
  with assms show ?thesis by (auto simp: take_overflow_events_def conserves_def Let_def split: if_splits)
next
  case CallSetProbe
  with assms show ?thesis
    by (auto intro!: conserves_grows grows_same simp: conserves_def set_free_space_probe_with_interval_def pl_ok_def disk_def)
qed

lemma handle_reach_policy: "handle_reach W cfg accepted h \<Longrightarrow> rq_policy (hd_queue h) = pcf_overflow cfg"
proof (induction rule: handle_reach.induct)
  case (opened metadata p)
  then show ?case using open_with_metadata_ok [of W cfg metadata p] by (simp add: handle_new_def recording_queue_new_def)
next
  case (called accepted h c new h')
  then show ?case using handle_step_policy [of W h c] by simp
qed

lemma handle_reach_conserves:
  "handle_reach W cfg accepted h \<Longrightarrow> world_ok W \<Longrightarrow> pcf_overflow cfg \<noteq> DropOldest \<Longrightarrow> conserves accepted h"
proof (induction rule: handle_reach.induct)
  case (opened metadata p)
  then show ?case
    using open_with_metadata_ok [of W cfg metadata p]
    by (simp add: conserves_def handle_new_def recording_queue_new_def pl_ok_def disk_def in_i64_def)
next
  case (called accepted h c new h')
  then show ?case using handle_step_conserves handle_reach_policy by metis
qed

lemma drain_empties: "handle_shutdown_drain W deadline h = (Inr (), h') \<Longrightarrow> waiting h' = []"
proof (induction W deadline h rule: handle_shutdown_drain.induct)
  case (1 W deadline h)
  obtain now p where clock: "clock_now W (hd_pipeline h) = (now, p)" by fastforce
  let ?h = "take_in 4096 (h\<lparr>hd_pipeline := p\<rparr>)"
  from "1.prems" clock have now: "\<not> deadline \<le> now" by (subst (asm) handle_shutdown_drain.simps) (auto split: if_splits)
  show ?case
  proof (cases "hd_pending ?h")
    case Nil
    with "1.prems" clock now have "h' = ?h" by (subst (asm) handle_shutdown_drain.simps) auto
    with Nil show ?thesis by (auto simp: take_in_def drain_front_def Let_def min_def split: if_splits)
  next
    case (Cons f fs)
    obtain r h1 where res: "write_front W f ?h = (r, h1)" by fastforce
    with "1.prems" clock now Cons obtain u where r: "r = Inr u" "handle_shutdown_drain W deadline h1 = (Inr (), h')"
      by (subst (asm) handle_shutdown_drain.simps) (cases r; auto)
    from "1.IH" [OF clock [symmetric] now Cons res [symmetric] r(1,2)] show ?thesis .
  qed
qed


text \<open>
  A shutdown drain that returns without an error has put every accepted frame into the segment files.
\<close>

theorem drained_recording_complete:
  assumes "handle_reach W cfg accepted h" and "world_ok W" and "pcf_overflow cfg \<noteq> DropOldest"
    and "handle_shutdown_drain W deadline h = (Inr (), h')"
  shows "disk (hd_pipeline h') = data_of accepted \<and> handle_queue_len h' = 0"
proof -
  have "conserves accepted h'"
    using conserves_drain [OF handle_reach_conserves [OF assms(1-3)] assms(2), of deadline] assms(4) by simp
  moreover have "waiting h' = []" by (rule drain_empties [OF assms(4)])
  ultimately show ?thesis by (simp add: conserves_def handle_queue_len_def)
qed

section \<open>A working disk\<close>

text \<open>
  A disk that takes every byte and has the configured free space.  On it every write succeeds, and a state stays
  healthy.
\<close>

definition good_world :: "world \<Rightarrow> pipeline_config \<Rightarrow> bool" where
  "good_world W c \<longleftrightarrow> (\<forall>n. \<exists>err. wd_create W n = Inr \<lparr>sk_bytes = [], sk_room = None, sk_error = err\<rparr>) \<and>
     (\<forall>n free. wd_probe W n = Some free \<longrightarrow> pcf_min_free_bytes c \<le> free)"

definition open_ended :: "segment_writer \<Rightarrow> bool" where
  "open_ended w \<longleftrightarrow> sw_started w \<and> sk_room (sw_writer w) = None"

definition healthy :: "world \<Rightarrow> pipeline_config \<Rightarrow> recording_pipeline \<Rightarrow> bool" where
  "healthy W c p \<longleftrightarrow> pl_cfg p = c \<and> \<not> pl_disk_pressure_active p \<and> (\<forall>w. pl_writer p = Some w \<longrightarrow> open_ended w) \<and>
     (\<forall>m \<in> set (pl_metadata p). \<exists>b. encode_metadata W m = Inr b)"

definition fits :: "pending_frame \<Rightarrow> bool" where
  "fits f \<longleftrightarrow> 4 + RAW_HEADER_BODY_LEN + length (pf_payload f) \<le> MAX_RAW_RECORD_LEN"

lemma good_world_ok: "good_world W c \<Longrightarrow> world_ok W"
  unfolding good_world_def world_ok_def by (metis byte_sink.select_convs(1) Inr_inject)

lemma open_ended_write: "open_ended w \<Longrightarrow> fits f \<Longrightarrow> \<exists>w'. write_record w f = (Inr (), w') \<and> open_ended w'"
  by (auto simp: open_ended_def fits_def write_record_put put_def write_all_def)

lemma open_ended_any: "open_ended w \<Longrightarrow> open_ended (snd (write_record w f))"
  using open_ended_write [of w f] write_record_refused [of f w] by (cases "fits f") (auto simp: fits_def)

lemma open_ended_metadata:
  assumes "open_ended w" and "encode_metadata W m = Inr b"
  shows "\<exists>w'. write_metadata W w m ts = (Inr (), w') \<and> open_ended w'"
proof -
  have "fits (metadata_frame m ts b)"
    using assms(2) by (auto simp: fits_def metadata_frame_def encode_metadata_def and_then_Inr_iff format_sizes MAX_METADATA_BYTES_def split: if_splits)
  with open_ended_write [OF assms(1) this] assms(2) show ?thesis by (simp add: write_metadata_def)
qed

lemma open_ended_all_metadata:
  "open_ended w \<Longrightarrow> \<forall>m \<in> set ms. \<exists>b. encode_metadata W m = Inr b \<Longrightarrow>
     \<exists>n w'. write_all_metadata W ts ms w bytes = (Inr n, w') \<and> open_ended w'"
proof (induction ms arbitrary: w bytes)
  case (Cons m ms)
  then obtain b where b: "encode_metadata W m = Inr b" by auto
  from open_ended_metadata [OF Cons.prems(1) b, of ts] obtain w1 where "write_metadata W w m ts = (Inr (), w1)" "open_ended w1" by blast
  with Cons b show ?case by auto
qed auto

lemma healthy_update [simp]:
  "healthy W c (p\<lparr>pl_clock_reads := x\<rparr>) = healthy W c p"
  "healthy W c (p\<lparr>pl_rotations := y, pl_system_events := e\<rparr>) = healthy W c p"
  by (simp_all add: healthy_def)

lemma good_world_space: "good_world W c \<Longrightarrow> wd_probe W n = Some free \<Longrightarrow> \<not> free < pcf_min_free_bytes c"
  unfolding good_world_def by (meson leD)

lemma refresh_healthy: "healthy W c p \<Longrightarrow> good_world W c \<Longrightarrow> healthy W c (refresh_disk_pressure W p)"
  using good_world_space [of W c "pl_probes p"]
  by (auto simp: refresh_disk_pressure_def probe_free_space_def clock_now_def Let_def healthy_def split: option.splits)

lemma healthy_not_full: "healthy W c p \<Longrightarrow> fail_closed_if_disk_full p = Inr ()"
  by (simp add: healthy_def fail_closed_if_disk_full_def)

lemma open_segment_healthy:
  assumes "healthy W c p" and "good_world W c"
  shows "\<exists>q. open_segment W ts p = (Inr (), q) \<and> healthy W c q \<and> pl_writer q \<noteq> None"
proof -
  obtain err where s: "wd_create W (pl_creates p) = Inr \<lparr>sk_bytes = [], sk_room = None, sk_error = err\<rparr>" (is "_ = Inr ?s")
    using assms(2) unfolding good_world_def by blast
  obtain w s' where w: "writer_create ?s ts = (Inr w, s')" "open_ended w"
    by (auto simp: writer_create_eq write_all_def open_ended_def)
  have "\<forall>m \<in> set (pl_metadata p). \<exists>b. encode_metadata W m = Inr b" using assms(1) by (simp add: healthy_def)
  from open_ended_all_metadata [OF w(2) this, of ts "of_nat HEADER_SIZE"] obtain n w' where
    "write_all_metadata W ts (pl_metadata p) w (of_nat HEADER_SIZE) = (Inr n, w')" "open_ended w'" by blast
  with s w(1) assms(1) show ?thesis by (auto simp: open_segment_def Let_def clock_now_def healthy_def)
qed

lemma close_segment_healthy: "healthy W c p \<Longrightarrow> healthy W c (note_rotation (close_segment p))"
  by (auto simp: healthy_def note_rotation_def close_segment_def split: option.splits)

lemma rotate_now_healthy:
  assumes "healthy W c p" and "good_world W c"
  shows "\<exists>q. rotate_now W ts p = (Inr (), q) \<and> healthy W c q \<and> pl_writer q \<noteq> None"
  unfolding rotate_now_def by (rule open_segment_healthy) (use assms close_segment_healthy in auto)

lemma append_frame_healthy:
  assumes "healthy W c p" and "pl_writer p \<noteq> None"
  shows "healthy W c (snd (append_frame f p)) \<and> (fits f \<longrightarrow> fst (append_frame f p) = Inr ())"
proof -
  obtain w where w: "pl_writer p = Some w" "open_ended w" using assms by (auto simp: healthy_def)
  obtain r w' where res: "write_record w f = (r, w')" by fastforce
  have w': "open_ended w'" using open_ended_any [OF w(2), of f] res by simp
  have ok: "fits f \<longrightarrow> r = Inr ()" using open_ended_write [OF w(2), of f] res by auto
  show ?thesis
  proof (cases r)
    case (Inl e)
    with w res w' ok assms(1) show ?thesis by (auto simp: append_frame_def healthy_def)
  next
    case (Inr u)
    let ?q = "p\<lparr>pl_writer := Some w', pl_segment_bytes := pl_segment_bytes p + of_nat (4 + RAW_HEADER_BODY_LEN + length (pf_payload f)),
      pl_records_written := pl_records_written p + 1\<rparr>"
    have q: "healthy W c ?q" using w' assms(1) by (simp add: healthy_def)
    with close_segment_healthy [OF q] Inr w res show ?thesis by (simp add: append_frame_def Let_def)
  qed
qed

lemma write_frame_healthy:
  assumes "healthy W c p" and "good_world W c"
  shows "healthy W c (snd (write_frame W f p)) \<and> (fits f \<longrightarrow> fst (write_frame W f p) = Inr ())"
proof -
  let ?p1 = "refresh_disk_pressure W p" and ?ts = "pf_receive_ts_ns f"
  have p1: "healthy W c ?p1" using assms by (rule refresh_healthy)
  obtain p2 where p2: "ensure_segment W ?ts ?p1 = (Inr (), p2)" "healthy W c p2" "pl_writer p2 \<noteq> None"
    using open_segment_healthy [OF p1 assms(2), of ?ts] p1 by (cases "pl_writer ?p1 = None") (auto simp: ensure_segment_def)
  obtain b p3 where p3: "should_rotate_before_write W p2 = (b, p3)" "healthy W c p3" "pl_writer p3 \<noteq> None"
    using p2(2,3) by (cases "pcf_max_duration (pl_cfg p2) = 0") (auto simp: should_rotate_before_write_def clock_now_def)
  obtain p4 where p4: "(if b then rotate_now W ?ts p3 else (Inr (), p3)) = (Inr (), p4)" "healthy W c p4" "pl_writer p4 \<noteq> None"
    using rotate_now_healthy [OF p3(2) assms(2), of ?ts] p3(2,3) by (cases b) auto
  have "write_frame W f p = append_frame f p4"
    using p2(1) p3(1) p4(1) healthy_not_full [OF p1] by (simp add: write_frame_def Let_def)
  with append_frame_healthy [OF p4(2,3), of f] show ?thesis by simp
qed

lemma write_front_healthy:
  assumes "healthy W c (hd_pipeline h)" and "good_world W c"
  shows "healthy W c (hd_pipeline (snd (write_front W f h))) \<and> (fits f \<longrightarrow> fst (write_front W f h) = Inr ())"
proof -
  have p1: "healthy W c (refresh_disk_pressure W (hd_pipeline h))" using assms by (rule refresh_healthy)
  from write_frame_healthy [OF p1 assms(2), of f] healthy_not_full [OF p1] show ?thesis
    by (auto simp: write_front_def write_pending_frame_def Let_def split: prod.splits sum.splits)
qed

lemma write_front_waiting: "hd_pending h = f # fs \<Longrightarrow> set (waiting (snd (write_front W f h))) \<subseteq> set (waiting h)"
  by (auto simp: write_front_def split: prod.splits sum.splits)

definition sound :: "world \<Rightarrow> pipeline_config \<Rightarrow> pending_frame list \<Rightarrow> recording_handle \<Rightarrow> bool" where
  "sound W c accepted h \<longleftrightarrow> healthy W c (hd_pipeline h) \<and> set (waiting h) \<subseteq> set accepted"

lemma sound_write: "sound W c accepted h \<Longrightarrow> good_world W c \<Longrightarrow> hd_pending h = f # fs \<Longrightarrow> sound W c accepted (snd (write_front W f h))"
  using write_front_healthy [of W c h f] write_front_waiting [of h f fs W] by (auto simp: sound_def)

lemma sound_clock: "sound W c accepted h \<Longrightarrow> sound W c accepted (h\<lparr>hd_pipeline := snd (clock_now W (hd_pipeline h))\<rparr>)"
  by (simp add: sound_def clock_now_def)

lemma sound_take_in: "sound W c accepted h \<Longrightarrow> sound W c accepted (take_in n h)"
  using arg_cong [OF take_in_fields(2) [of n h], of set] by (simp add: sound_def)

lemma register_healthy: "healthy W c p \<Longrightarrow> healthy W c (snd (register_metadata W m p))"
proof (cases "encode_metadata W m")
  case (Inr b)
  assume h: "healthy W c p"
  show ?thesis
  proof (cases "pl_writer p")
    case (Some w)
    with h obtain w' where "write_metadata W w m (unwrap_or (pl_current_start_ts_ns p) 0) = (Inr (), w')" "open_ended w'"
      using open_ended_metadata [OF _ Inr, of w] by (fastforce simp: healthy_def)
    with h Some Inr show ?thesis
      by (cases "find (\<lambda>existing. stable_key existing = stable_key m) (pl_metadata p)") (auto simp: register_metadata_def healthy_def)
  qed (use h Inr in \<open>auto simp: register_metadata_def healthy_def split: option.splits\<close>)
qed (auto simp: register_metadata_def split: option.splits)

lemma sound_step:
  assumes "sound W c accepted h" and "good_world W c" and "handle_step W h call = (new, h')" and "rq_policy (hd_queue h) \<noteq> DropOldest"
  shows "sound W c (accepted @ new) h'"
proof (cases call)
  case (CallEnqueue f)
  with assms show ?thesis
    by (auto simp: sound_def handle_enqueue_def rq_push_def split: prod.splits if_splits overflow_policy.splits)
next
  case (CallFlush limit)
  have "sound W c accepted (snd (handle_flush W limit 0 (take_in limit h)))"
    by (rule flush_invariant [where P = "sound W c accepted"]) (auto intro: sound_write sound_take_in assms(1,2))
  with CallFlush assms(3) show ?thesis by (simp add: handle_flush_pending_take_in)
next
  case (CallRotate ts)
  with assms rotate_now_healthy [of W c "hd_pipeline h" ts] show ?thesis by (auto simp: handle_rotate_now_def sound_def)
next
  case (CallRegister m)
  with assms register_healthy [of W c "hd_pipeline h" m] show ?thesis
    by (cases "register_metadata W m (hd_pipeline h)") (auto simp: handle_register_metadata_def sound_def)
next
  case (CallDrain deadline)
  have "sound W c accepted (snd (handle_shutdown_drain W deadline h))"
    by (rule drain_invariant [where P = "sound W c accepted"]) (auto intro: sound_write sound_take_in sound_clock assms(1,2))
  with CallDrain assms(3) show ?thesis by simp
next
  case CallTakeEvents
  with assms show ?thesis by (auto simp: take_overflow_events_def sound_def Let_def split: if_splits)
next
  case CallSetProbe
  with assms show ?thesis by (auto simp: sound_def healthy_def set_free_space_probe_with_interval_def)
qed

lemma validated_encode: "validate_metadata_registry W seen ms = Inr () \<Longrightarrow> m \<in> set ms \<Longrightarrow> \<exists>b. encode_metadata W m = Inr b"
  by (induction ms arbitrary: seen) (auto simp: and_then_Inr_iff split: if_splits)

lemma handle_reach_sound:
  "handle_reach W cfg accepted h \<Longrightarrow> good_world W cfg \<Longrightarrow> pcf_overflow cfg \<noteq> DropOldest \<Longrightarrow> sound W cfg accepted h"
proof (induction rule: handle_reach.induct)
  case (opened metadata p)
  then have "pl_metadata p = metadata" "validate_metadata_registry W [] metadata = Inr ()" "\<not> pl_disk_pressure_active p"
    by (auto simp: open_with_metadata_def and_then_Inr_iff split: if_splits)
  with opened show ?case
    using open_with_metadata_ok [of W cfg metadata p] validated_encode
    by (auto simp: sound_def healthy_def handle_new_def recording_queue_new_def)
next
  case (called accepted h c new h')
  then show ?case using sound_step handle_reach_policy by metis
qed

lemma drain_returns:
  "sound W cfg accepted h \<Longrightarrow> good_world W cfg \<Longrightarrow> \<forall>f \<in> set accepted. fits f \<Longrightarrow> \<forall>n. wd_clock W n < deadline \<Longrightarrow>
     fst (handle_shutdown_drain W deadline h) = Inr ()"
proof (induction W deadline h rule: handle_shutdown_drain.induct)
  case (1 W deadline h)
  obtain now p where clock: "clock_now W (hd_pipeline h) = (now, p)" by fastforce
  let ?h = "take_in 4096 (h\<lparr>hd_pipeline := p\<rparr>)"
  have now: "\<not> deadline \<le> now" using clock "1.prems"(4) by (auto simp: clock_now_def not_le)
  have h: "sound W cfg accepted ?h" using sound_take_in [OF sound_clock [OF "1.prems"(1)]] clock by simp
  show ?case
  proof (cases "hd_pending ?h")
    case Nil
    with clock now show ?thesis by (subst handle_shutdown_drain.simps) simp
  next
    case (Cons f fs)
    have "fits f" using h Cons "1.prems"(3) by (auto simp: sound_def)
    then obtain h' where res: "write_front W f ?h = (Inr (), h')"
      using write_front_healthy [of W cfg ?h f] h "1.prems"(2) by (cases "write_front W f ?h") (auto simp: sound_def)
    have "sound W cfg accepted h'" using sound_write [OF h "1.prems"(2) Cons] res by simp
    with "1.IH" [OF clock [symmetric] now Cons res [symmetric] refl _ "1.prems"(2-4)] clock now Cons res
    show ?thesis by (subst handle_shutdown_drain.simps) simp
  qed
qed


section \<open>Samples\<close>

definition sample_world :: "nat option \<Rightarrow> world" where
  "sample_world room = \<lparr>wd_clock = \<lambda>n. 0, wd_probe = \<lambda>n. None, wd_create = \<lambda>n. Inr (sample_sink room), wd_to_json = \<lambda>m. None\<rparr>"

definition sample_cfg :: pipeline_config where
  "sample_cfg = \<lparr>pcf_queue_capacity = 2, pcf_overflow = FailEngine, pcf_max_bytes = 0, pcf_max_duration = 0, pcf_min_free_bytes = 0\<rparr>"

definition sample_pipeline :: recording_pipeline where
  "sample_pipeline =
     \<lparr>pl_cfg = sample_cfg, pl_queue = recording_queue_new 2 FailEngine, pl_writer = None,
      pl_current_path = None, pl_current_start_ts_ns = None, pl_segment_bytes = 0, pl_segment_started = 0,
      pl_segment_seq = 0, pl_free_space = False, pl_free_space_check_interval = 1000000000,
      pl_last_free_space_check = None, pl_disk_pressure_active = False, pl_system_events = [], pl_records_written = 0,
      pl_segments_opened = 0, pl_rotations = 0, pl_metadata = [], pl_closed = [], pl_clock_reads = 1,
      pl_probes = 0, pl_creates = 0\<rparr>"

definition sample_handle :: recording_handle where
  "sample_handle = (handle_new sample_pipeline)\<lparr>hd_queue := (recording_queue_new 2 FailEngine)
     \<lparr>rq_items := [sample_frame 1 [7], sample_frame 2 [8, 9]]\<rparr>\<rparr>"

lemma sample_handle_reach: "handle_reach (sample_world room) sample_cfg [sample_frame 1 [7], sample_frame 2 [8, 9]] sample_handle"
proof -
  let ?W = "sample_world room" and ?h = "\<lambda>xs. (handle_new sample_pipeline)\<lparr>hd_queue := (recording_queue_new 2 FailEngine)\<lparr>rq_items := xs\<rparr>\<rparr>"
  have "open_with_metadata ?W sample_cfg [] = Inr sample_pipeline"
    by (simp add: open_with_metadata_def sample_world_def sample_cfg_def sample_pipeline_def)
  from handle_reach.opened [OF this] have "handle_reach ?W sample_cfg [] (?h [])"
    by (simp add: handle_new_def sample_pipeline_def sample_cfg_def recording_queue_new_def)
  from handle_reach.called [OF this, of "CallEnqueue (sample_frame 1 [7])"]
  have "handle_reach ?W sample_cfg [sample_frame 1 [7]] (?h [sample_frame 1 [7]])"
    by (simp add: handle_enqueue_def rq_push_def recording_queue_new_def in_i64_def)
  from handle_reach.called [OF this, of "CallEnqueue (sample_frame 2 [8, 9])"]
  show ?thesis by (simp add: handle_enqueue_def rq_push_def recording_queue_new_def in_i64_def sample_handle_def)
qed

lemma sample_data: "data_of [sample_frame 1 [7], sample_frame 2 [8, 9]] = [recorded (sample_frame 1 [7]), recorded (sample_frame 2 [8, 9])]"
  by (simp add: data_of_def sample_frame_def)

text \<open>The second record does not fit on the disk.\<close>

lemma sample_flush_fails:
  "\<exists>h. handle_flush_pending (sample_world (Some 100)) 2 sample_handle = (Inl (Io ''disk full''), h) \<and>
     hd_pending h = [sample_frame 2 [8, 9]]"
  by (simp add: handle_flush_pending_def drain_front_def sample_handle_def handle_new_def recording_queue_new_def Let_def
      numeral_2_eq_2 write_front_def write_pending_frame_def write_frame_def refresh_disk_pressure_def
      fail_closed_if_disk_full_def sample_pipeline_def sample_cfg_def ensure_segment_def open_segment_def sample_world_def
      writer_create_eq write_all_def sample_sink_def HEADER_SIZE_def clock_now_def should_rotate_before_write_def
      append_frame_def sample_write should_rotate_after_write_def)


lemma sample_good:
  "\<exists>err. wd_create (sample_world None) n = Inr \<lparr>sk_bytes = [], sk_room = None, sk_error = err\<rparr>"
  "wd_probe (sample_world None) n = Some free \<longrightarrow> pcf_min_free_bytes sample_cfg \<le> free" "wd_clock (sample_world None) n < 1"
  by (simp_all add: sample_world_def sample_sink_def)


lemma sample_drain_returns: "\<exists>h. handle_shutdown_drain (sample_world None) 1 sample_handle = (Inr (), h)"
proof -
  have W: "good_world (sample_world None) sample_cfg" using sample_good by (simp add: good_world_def)
  have "sound (sample_world None) sample_cfg [sample_frame 1 [7], sample_frame 2 [8, 9]] sample_handle"
    by (rule handle_reach_sound [OF sample_handle_reach W]) (simp add: sample_cfg_def)
  then have "fst (handle_shutdown_drain (sample_world None) 1 sample_handle) = Inr ()"
    by (rule drain_returns [OF _ W]) (simp_all add: fits_def format_sizes sample_world_def)
  then show ?thesis by (metis prod.collapse)
qed

theorem drained_recording_complete_witness:
  "\<exists>h. handle_shutdown_drain (sample_world None) 1 sample_handle = (Inr (), h) \<and>
     disk (hd_pipeline h) = [recorded (sample_frame 1 [7]), recorded (sample_frame 2 [8, 9])] \<and> handle_queue_len h = 0"
proof -
  obtain h where "handle_shutdown_drain (sample_world None) 1 sample_handle = (Inr (), h)" using sample_drain_returns by blast
  with drained_recording_complete [OF sample_handle_reach _ _ this] show ?thesis
    by (auto simp: sample_data sample_world_def world_ok_def sample_sink_def sample_cfg_def)
qed

section \<open>Draining a pipeline without a handle\<close>

lemma refresh_queue [simp]: "pl_queue (refresh_disk_pressure W p) = pl_queue p"
  by (simp add: refresh_disk_pressure_def probe_free_space_def clock_now_def Let_def split: option.splits)

lemma open_segment_queue: "pl_queue (snd (open_segment W ts p)) = pl_queue p"
  by (simp add: open_segment_def clock_now_def Let_def split: sum.splits prod.splits)

lemma close_segment_queue [simp]: "pl_queue (note_rotation (close_segment p)) = pl_queue p"
  by (simp add: note_rotation_def close_segment_def split: option.splits)

lemma rotate_now_queue: "pl_queue (snd (rotate_now W ts p)) = pl_queue p"
  by (simp add: rotate_now_def open_segment_queue)

lemma append_frame_queue: "pl_queue (snd (append_frame f p)) = pl_queue p"
  by (simp add: append_frame_def Let_def split: option.splits sum.splits prod.splits)

lemma write_frame_queue: "pl_queue (snd (write_frame W f p)) = pl_queue p"
proof -
  let ?p1 = "refresh_disk_pressure W p"
  obtain r2 p2 where p2: "ensure_segment W (pf_receive_ts_ns f) ?p1 = (r2, p2)" by fastforce
  have q2: "pl_queue p2 = pl_queue p"
    using p2 open_segment_queue [of W "pf_receive_ts_ns f" ?p1] by (auto simp: ensure_segment_def split: if_splits)
  obtain b p3 where p3: "should_rotate_before_write W p2 = (b, p3)" by fastforce
  have q3: "pl_queue p3 = pl_queue p" using p3 q2 by (auto simp: should_rotate_before_write_def clock_now_def split: if_splits)
  obtain r4 p4 where p4: "(if b then rotate_now W (pf_receive_ts_ns f) p3 else (Inr (), p3)) = (r4, p4)" by fastforce
  have q4: "pl_queue p4 = pl_queue p" using p4 q3 rotate_now_queue [of W "pf_receive_ts_ns f" p3] by (auto split: if_splits)
  show ?thesis
    using p2 p3 p4 q2 q4 append_frame_queue [of f p4]
    by (cases r2; cases r4) (simp_all add: write_frame_def Let_def fail_closed_if_disk_full_def)
qed

lemma pipeline_flush_shrinks:
  "pipeline_flush W k n p = (Inr m, q) \<Longrightarrow> \<exists>d. m = n + d \<and> rq_items (pl_queue q) = drop d (rq_items (pl_queue p)) \<and>
     d = min k (length (rq_items (pl_queue p)))"
proof (induction k arbitrary: n p)
  case (Suc k)
  let ?p = "refresh_disk_pressure W p"
  have full: "fail_closed_if_disk_full ?p = Inr ()" using Suc.prems by (auto simp: Let_def split: sum.splits)
  show ?case
  proof (cases "rq_items (pl_queue p)")
    case Nil
    with Suc.prems full show ?thesis by (auto simp: Let_def rq_pop_front_def)
  next
    case (Cons f fs)
    let ?p' = "?p\<lparr>pl_queue := pl_queue p\<lparr>rq_items := fs\<rparr>\<rparr>"
    obtain r p1 where res: "write_frame W f ?p' = (r, p1)" by fastforce
    have "rq_items (pl_queue p1) = fs" using write_frame_queue [of W f ?p'] res by simp
    moreover have "pipeline_flush W k (Suc n) p1 = (Inr m, q)"
      using Suc.prems full Cons res by (cases r) (simp_all add: Let_def rq_pop_front_def)
    ultimately show ?thesis using Suc.IH [of "Suc n" p1] Cons by auto
  qed
qed simp

function pipeline_drain :: "world \<Rightarrow> nat \<Rightarrow> recording_pipeline \<Rightarrow> (recording_error + unit) \<times> recording_pipeline" where
  "pipeline_drain W deadline p =
     (if rq_items (pl_queue p) = [] then (Inr (), p)
      else
        case clock_now W p of
          (now, p') \<Rightarrow>
            if deadline \<le> now then (Inl (ShutdownTimeout (length (rq_items (pl_queue p')))), p')
            else
              (case pipeline_flush_pending W 64 p' of
                 (Inl e, q) \<Rightarrow> (Inl e, q)
               | (Inr _, q) \<Rightarrow> pipeline_drain W deadline q))"
  by pat_completeness auto
termination
proof (relation "measure (\<lambda>(W, deadline, p). length (rq_items (pl_queue p)))")
  fix W deadline p now p' r q n
  assume "rq_items (pl_queue p) \<noteq> []" "(now, p') = clock_now W p" "(r, q) = pipeline_flush_pending W 64 p'" "r = Inr n"
  then have "pl_queue p' = pl_queue p" "pipeline_flush W 64 0 p' = (Inr n, q)"
    by (auto simp: clock_now_def pipeline_flush_pending_def)
  with pipeline_flush_shrinks [of W 64 0 p' n q] \<open>rq_items (pl_queue p) \<noteq> []\<close>
  show "((W, deadline, q), W, deadline, p) \<in> measure (\<lambda>(W, deadline, p). length (rq_items (pl_queue p)))"
    by (auto simp: min_def split: if_splits)
qed simp

declare pipeline_drain.simps [simp del]

definition note_event :: "system_event \<Rightarrow> recording_pipeline \<Rightarrow> recording_pipeline" where
  "note_event e p = p\<lparr>pl_system_events := pl_system_events p @ [e]\<rparr>"

definition pipeline_shutdown_drain :: "world \<Rightarrow> nat \<Rightarrow> recording_pipeline \<Rightarrow> (recording_error + unit) \<times> recording_pipeline" where
  "pipeline_shutdown_drain W deadline p =
     sthen (pipeline_drain W deadline (note_event ShutdownStarted p)) (\<lambda>_ p. (Inr (), note_event ShutdownCompleted p))"

text \<open>What \<^verbatim>\<open>RecordingHandle::snapshot\<close> reports, its directory apart.\<close>

record recording_snapshot =
  rsn_queue_len :: usize
  rsn_rotations :: w64
  rsn_records_written :: w64
  rsn_dropped_total :: w64
  rsn_disk_pressure :: bool

definition handle_snapshot :: "recording_handle \<Rightarrow> recording_snapshot" where
  "handle_snapshot h =
     \<lparr>rsn_queue_len = handle_queue_len h, rsn_rotations = pl_rotations (hd_pipeline h),
      rsn_records_written = pl_records_written (hd_pipeline h), rsn_dropped_total = rq_dropped_total (hd_queue h),
      rsn_disk_pressure = pl_disk_pressure_active (hd_pipeline h)\<rparr>"

text \<open>
  Unlike the handle, the pipeline takes a frame off its queue before it writes it.  A disk error then loses the frame,
  also under the lossless policy.
\<close>

lemma pipeline_flush_loses_frame:
  "\<exists>p. pipeline_flush_pending (sample_world (Some 0)) 1
        (sample_pipeline\<lparr>pl_queue := (recording_queue_new 2 FailEngine)\<lparr>rq_items := [sample_frame 1 [7]]\<rparr>\<rparr>) = (Inl (Io ''disk full''), p) \<and>
     rq_items (pl_queue p) = [] \<and> pl_writer p = None \<and> concat (map snd (pl_closed p)) = []"
  by (simp add: pipeline_flush_pending_def recording_queue_new_def rq_pop_front_def Let_def write_frame_def refresh_disk_pressure_def
      fail_closed_if_disk_full_def sample_pipeline_def sample_cfg_def ensure_segment_def open_segment_def sample_world_def
      writer_create_eq write_all_def sample_sink_def HEADER_SIZE_def)

end
