(* ===== verification/Windows.thy ===== *)
theory Windows
  imports Ordered_Map Complex_Main "HOL-Library.List_Lexorder" "HOL-Library.Char_ord"
begin

text \<open>
  The bounded availability-time windows of \<^verbatim>\<open>event-pulse/src/window.rs\<close>: coverage of a horizon by intervals, one
  window, and a bank of windows per source, horizon and kind.  Coverage is decided exactly, a bank
  counts its records exactly and within its capacity, eviction keeps exactly the horizon, and an overflow
  invalidates the windows of its own source and no other.
\<close>

section \<open>One window\<close>

definition PER_WINDOW_CAPACITY :: usize where "PER_WINDOW_CAPACITY = 4096"
definition PROCESSOR_RECORD_CAPACITY :: usize where "PROCESSOR_RECORD_CAPACITY = 65536"
definition MAX_WINDOW_SOURCES :: usize where "MAX_WINDOW_SOURCES = 32"

definition SUPPORTED_HORIZONS_NS :: "i64 list" where
  "SUPPORTED_HORIZONS_NS = [100000000, 250000000, 1000000000, 5000000000, 15000000000, 30000000000, 60000000000]"

definition MAX_WINDOW_TOPOLOGY :: usize where
  "MAX_WINDOW_TOPOLOGY = MAX_WINDOW_SOURCES * length SUPPORTED_HORIZONS_NS * 6"

datatype window_error = UnsupportedHorizon | AvailabilityRegression | TimeOverflow | QueueDrop | InvalidTopology
  | UnconfiguredKey | EpochNotGreater

record 'v timed =
  td_available_at_ns :: i64
  td_value :: 'v

record coverage_interval =
  ci_covered_from_ns :: i64
  ci_covered_through_ns :: i64
  ci_available_at_ns :: i64

text \<open>The loop of \<^verbatim>\<open>has_exact_coverage\<close> over the admitted intervals, with its early returns.\<close>

primrec covers :: "i64 \<Rightarrow> i64 \<Rightarrow> coverage_interval list \<Rightarrow> bool" where
  "covers decision through [] = False"
| "covers decision through (i # is) =
     (if ci_covered_through_ns i < ci_covered_from_ns i \<or> ci_available_at_ns i < ci_covered_through_ns i then False
      else if ci_covered_through_ns i < through then covers decision through is
      else if through < ci_covered_from_ns i then False
      else
        let through = max through (ci_covered_through_ns i) in
        if decision \<le> through then True else covers decision through is)"

definition has_exact_coverage :: "coverage_interval list \<Rightarrow> i64 \<Rightarrow> i64 \<Rightarrow> window_error + bool" where
  "has_exact_coverage intervals decision_time_ns horizon_ns =
     (if horizon_ns \<notin> set SUPPORTED_HORIZONS_NS then Inl UnsupportedHorizon
      else
        and_then (ok_or (checked_i64 (decision_time_ns - horizon_ns)) TimeOverflow) (\<lambda>start.
        Inr (covers decision_time_ns start (filter (\<lambda>x. ci_available_at_ns x \<le> decision_time_ns) intervals))))"

record 'v fixed_window =
  fw_horizon_ns :: i64
  fw_epoch_first_available_ns :: i64
  fw_records :: "'v timed list"
  fw_invalid :: bool

definition fixed_window_new :: "i64 \<Rightarrow> i64 \<Rightarrow> window_error + 'v fixed_window" where
  "fixed_window_new horizon_ns first =
     (if horizon_ns \<notin> set SUPPORTED_HORIZONS_NS then Inl UnsupportedHorizon
      else Inr \<lparr>fw_horizon_ns = horizon_ns, fw_epoch_first_available_ns = first, fw_records = [], fw_invalid = False\<rparr>)"

definition fw_push :: "i64 \<Rightarrow> 'v \<Rightarrow> 'v fixed_window \<Rightarrow> (window_error + unit) \<times> 'v fixed_window" where
  "fw_push available_at_ns v w =
     (if fw_invalid w then (Inl QueueDrop, w)
      else if fw_records w \<noteq> [] \<and> available_at_ns < td_available_at_ns (last (fw_records w)) then (Inl AvailabilityRegression, w)
      else if length (fw_records w) = PER_WINDOW_CAPACITY then (Inl QueueDrop, w\<lparr>fw_records := [], fw_invalid := True\<rparr>)
      else (Inr (), w\<lparr>fw_records := fw_records w @ [\<lparr>td_available_at_ns = available_at_ns, td_value = v\<rparr>]\<rparr>))"

primrec evict_front :: "i64 \<Rightarrow> usize \<Rightarrow> 'v timed list \<Rightarrow> usize \<times> 'v timed list" where
  "evict_front boundary removed [] = (removed, [])"
| "evict_front boundary removed (r # rs) =
     (if td_available_at_ns r < boundary then evict_front boundary (removed + 1) rs else (removed, r # rs))"

definition fw_evict :: "i64 \<Rightarrow> 'v fixed_window \<Rightarrow> (window_error + usize) \<times> 'v fixed_window" where
  "fw_evict decision_time_ns w =
     (case checked_i64 (decision_time_ns - fw_horizon_ns w) of
        None \<Rightarrow> (Inl TimeOverflow, w)
      | Some boundary \<Rightarrow>
          (case evict_front boundary 0 (fw_records w) of (removed, rs) \<Rightarrow> (Inr removed, w\<lparr>fw_records := rs\<rparr>)))"

definition is_complete :: "i64 \<Rightarrow> 'v fixed_window \<Rightarrow> window_error + bool" where
  "is_complete decision_time_ns w =
     and_then (ok_or (checked_i64 (decision_time_ns - fw_horizon_ns w)) TimeOverflow) (\<lambda>boundary.
     Inr (\<not> fw_invalid w \<and> fw_epoch_first_available_ns w \<le> boundary))"

definition is_fresh :: "i64 \<Rightarrow> i64 \<Rightarrow> 'v fixed_window \<Rightarrow> window_error + bool" where
  "is_fresh decision_time_ns limit_ns w =
     and_then (ok_or (checked_i64 (decision_time_ns - limit_ns)) TimeOverflow) (\<lambda>boundary.
     Inr (\<not> fw_invalid w \<and> fw_records w \<noteq> [] \<and> boundary \<le> td_available_at_ns (last (fw_records w))))"

definition clear_for_new_epoch :: "i64 \<Rightarrow> 'v fixed_window \<Rightarrow> 'v fixed_window" where
  "clear_for_new_epoch first w = w\<lparr>fw_records := [], fw_epoch_first_available_ns := first, fw_invalid := False\<rparr>"

section \<open>Keys\<close>

datatype window_source = WindowSource (source_text: string)

definition window_source_new :: "string \<Rightarrow> window_error + window_source" where
  "window_source_new value =
     (if value = [] \<or> 128 < length value \<or> \<not> list_all (\<lambda>c. of_char c < (128 :: nat)) value then Inl InvalidTopology
      else Inr (WindowSource value))"

datatype window_kind = TradeWindow | QuoteWindow | BookWindow | OpenInterestWindow | LiquidationWindow | ConfirmationPriceWindow

fun window_kind_index :: "window_kind \<Rightarrow> nat" where
  "window_kind_index TradeWindow = 0"
| "window_kind_index QuoteWindow = 1"
| "window_kind_index BookWindow = 2"
| "window_kind_index OpenInterestWindow = 3"
| "window_kind_index LiquidationWindow = 4"
| "window_kind_index ConfirmationPriceWindow = 5"

lemma window_kind_index_inject: "window_kind_index a = window_kind_index b \<longleftrightarrow> a = b"
  by (cases a; cases b) simp_all

datatype window_key = WindowKey (wk_source: window_source) (wk_horizon_ns: i64) (wk_kind: window_kind)

definition window_key_new :: "window_source \<Rightarrow> i64 \<Rightarrow> window_kind \<Rightarrow> window_error + window_key" where
  "window_key_new source horizon_ns kind =
     (if horizon_ns \<notin> set SUPPORTED_HORIZONS_NS then Inl UnsupportedHorizon else Inr (WindowKey source horizon_ns kind))"

instantiation window_source :: linorder
begin

definition less_eq_window_source :: "window_source \<Rightarrow> window_source \<Rightarrow> bool" where
  "less_eq_window_source a b \<longleftrightarrow> source_text a \<le> source_text b"

definition less_window_source :: "window_source \<Rightarrow> window_source \<Rightarrow> bool" where
  "less_window_source a b \<longleftrightarrow> source_text a < source_text b"

instance
  by standard (auto simp: less_eq_window_source_def less_window_source_def intro: window_source.expand)

end

instantiation window_key :: linorder
begin

definition less_window_key :: "window_key \<Rightarrow> window_key \<Rightarrow> bool" where
  "less_window_key a b \<longleftrightarrow> wk_source a < wk_source b \<or> wk_source a = wk_source b \<and>
     (wk_horizon_ns a < wk_horizon_ns b \<or> wk_horizon_ns a = wk_horizon_ns b \<and>
      window_kind_index (wk_kind a) < window_kind_index (wk_kind b))"

definition less_eq_window_key :: "window_key \<Rightarrow> window_key \<Rightarrow> bool" where
  "less_eq_window_key a b \<longleftrightarrow> a = b \<or> a < b"

instance
proof
  fix a b c :: window_key
  show "a \<le> b \<or> b \<le> a"
    by (cases a; cases b) (auto simp: less_eq_window_key_def less_window_key_def not_less_iff_gr_or_eq dest: window_kind_index_inject [THEN iffD1])
qed (auto simp: less_eq_window_key_def less_window_key_def)

end

section \<open>The bank\<close>

record window_spec =
  ws_key :: window_key
  ws_epoch_generation :: u8
  ws_epoch_first_available_ns :: i64

record 'v window_bank =
  wb_windows :: "(window_key \<times> 'v fixed_window) list"
  wb_source_generations :: "(window_source \<times> u8) list"
  wb_total_records :: usize

text \<open>Iterating a map with mutable access to its values; \<^verbatim>\<open>get_mut\<close> reaches one of them.\<close>

definition map_values :: "('k \<Rightarrow> 'a \<Rightarrow> 'a) \<Rightarrow> ('k \<times> 'a) list \<Rightarrow> ('k \<times> 'a) list" where
  "map_values f m = map (\<lambda>(k, v). (k, f k v)) m"

definition set_value :: "'k \<Rightarrow> 'a \<Rightarrow> ('k \<times> 'a) list \<Rightarrow> ('k \<times> 'a) list" where
  "set_value key v m = map_values (\<lambda>k old. if k = key then v else old) m"

definition add_spec ::
  "(window_key \<times> 'v fixed_window) list \<times> (window_source \<times> u8) list \<Rightarrow> window_spec \<Rightarrow>
   window_error + (window_key \<times> 'v fixed_window) list \<times> (window_source \<times> u8) list" where
  "add_spec st spec =
     (case st of (windows, generations) \<Rightarrow>
        if length windows = MAX_WINDOW_TOPOLOGY then Inl InvalidTopology
        else if (case bt_get generations (wk_source (ws_key spec)) of
            None \<Rightarrow> False | Some generation \<Rightarrow> generation \<noteq> ws_epoch_generation spec) then Inl InvalidTopology
        else
          let generations = bt_insert (wk_source (ws_key spec)) (ws_epoch_generation spec) generations in
          if MAX_WINDOW_SOURCES < length generations then Inl InvalidTopology
          else
            and_then (fixed_window_new (wk_horizon_ns (ws_key spec)) (ws_epoch_first_available_ns spec)) (\<lambda>window.
            if bt_get windows (ws_key spec) \<noteq> None then Inl InvalidTopology
            else Inr (bt_insert (ws_key spec) window windows, generations)))"

definition window_bank_new :: "window_spec list \<Rightarrow> window_error + 'v window_bank" where
  "window_bank_new specs =
     and_then (try_fold add_spec ([], []) specs) (\<lambda>(windows, generations).
     if windows = [] then Inl InvalidTopology
     else Inr \<lparr>wb_windows = windows, wb_source_generations = generations, wb_total_records = 0\<rparr>)"

definition of_source :: "window_source \<Rightarrow> (window_key \<times> 'v fixed_window) list \<Rightarrow> usize" where
  "of_source source m = sum_list (map (\<lambda>(k, w). length (fw_records w)) (filter (\<lambda>(k, w). wk_source k = source) m))"

definition drop_window :: "'v fixed_window \<Rightarrow> 'v fixed_window" where
  "drop_window w = w\<lparr>fw_records := [], fw_invalid := True\<rparr>"

definition invalidate_source :: "window_source \<Rightarrow> 'v window_bank \<Rightarrow> 'v window_bank" where
  "invalidate_source source b =
     b\<lparr>wb_windows := map_values (\<lambda>k w. if wk_source k = source then drop_window w else w) (wb_windows b),
       wb_total_records := wb_total_records b - of_source source (wb_windows b)\<rparr>"

definition bank_push :: "window_key \<Rightarrow> i64 \<Rightarrow> 'v \<Rightarrow> 'v window_bank \<Rightarrow> (window_error + unit) \<times> 'v window_bank" where
  "bank_push key at_ns v b =
     (case bt_get (wb_windows b) key of
        None \<Rightarrow> (Inl UnconfiguredKey, b)
      | Some window \<Rightarrow>
          if wb_total_records b = PROCESSOR_RECORD_CAPACITY then (Inl QueueDrop, invalidate_source (wk_source key) b)
          else
            let total_before = wb_total_records b; source_records_before = of_source (wk_source key) (wb_windows b) in
            (case fw_push at_ns v window of
               (result, window) \<Rightarrow>
                 let b = b\<lparr>wb_windows := set_value key window (wb_windows b)\<rparr> in
                 (result,
                  case result of
                    Inr _ \<Rightarrow> b\<lparr>wb_total_records := wb_total_records b + 1\<rparr>
                  | Inl QueueDrop \<Rightarrow>
                      (invalidate_source (wk_source key) b)\<lparr>wb_total_records := total_before - source_records_before\<rparr>
                  | Inl _ \<Rightarrow> b)))"

definition bank_evict :: "window_key \<Rightarrow> i64 \<Rightarrow> 'v window_bank \<Rightarrow> (window_error + unit) \<times> 'v window_bank" where
  "bank_evict key decision_time_ns b =
     (case bt_get (wb_windows b) key of
        None \<Rightarrow> (Inl UnconfiguredKey, b)
      | Some window \<Rightarrow>
          (case fw_evict decision_time_ns window of
             (Inl e, _) \<Rightarrow> (Inl e, b)
           | (Inr removed, window) \<Rightarrow>
               (Inr (), b\<lparr>wb_windows := set_value key window (wb_windows b), wb_total_records := wb_total_records b - removed\<rparr>)))"

definition invalidate_configured_source :: "window_source \<Rightarrow> 'v window_bank \<Rightarrow> (window_error + unit) \<times> 'v window_bank" where
  "invalidate_configured_source source b =
     (if bt_get (wb_source_generations b) source = None then (Inl UnconfiguredKey, b)
      else (Inr (), invalidate_source source b))"

text \<open>Replacing the window of a key by an emptied one.\<close>

definition empty_key ::
  "('v fixed_window \<Rightarrow> 'v fixed_window) \<Rightarrow> window_key \<Rightarrow> 'v window_bank \<Rightarrow> (window_error + unit) \<times> 'v window_bank" where
  "empty_key f key b =
     (case bt_get (wb_windows b) key of
        None \<Rightarrow> (Inl UnconfiguredKey, b)
      | Some window \<Rightarrow>
          (Inr (), b\<lparr>wb_windows := set_value key (f window) (wb_windows b),
            wb_total_records := wb_total_records b - length (fw_records window)\<rparr>))"

definition invalidate_configured_key :: "window_key \<Rightarrow> 'v window_bank \<Rightarrow> (window_error + unit) \<times> 'v window_bank" where
  "invalidate_configured_key key b = empty_key drop_window key b"

definition recover_configured_key :: "window_key \<Rightarrow> i64 \<Rightarrow> 'v window_bank \<Rightarrow> (window_error + unit) \<times> 'v window_bank" where
  "recover_configured_key key first b = empty_key (clear_for_new_epoch first) key b"

definition advance_source_epoch ::
  "window_source \<Rightarrow> u8 \<Rightarrow> i64 \<Rightarrow> 'v window_bank \<Rightarrow> (window_error + unit) \<times> 'v window_bank" where
  "advance_source_epoch source generation first b =
     (case bt_get (wb_source_generations b) source of
        None \<Rightarrow> (Inl UnconfiguredKey, b)
      | Some current \<Rightarrow>
          if generation \<le> current then (Inl EpochNotGreater, b)
          else
            (Inr (), b\<lparr>wb_source_generations := set_value source generation (wb_source_generations b),
              wb_windows := map_values (\<lambda>k w. if wk_source k = source then clear_for_new_epoch first w else w) (wb_windows b),
              wb_total_records := wb_total_records b - of_source source (wb_windows b)\<rparr>))"

section \<open>Coverage\<close>

definition well_formed :: "coverage_interval \<Rightarrow> bool" where
  "well_formed i \<longleftrightarrow> ci_covered_from_ns i \<le> ci_covered_through_ns i \<and> ci_covered_through_ns i \<le> ci_available_at_ns i"

definition covered_by :: "coverage_interval set \<Rightarrow> real \<Rightarrow> bool" where
  "covered_by I t \<longleftrightarrow> (\<exists>i \<in> I. of_int (ci_covered_from_ns i) \<le> t \<and> t \<le> of_int (ci_covered_through_ns i))"

lemma covers_sound:
  "covers d through is \<Longrightarrow> of_int through \<le> t \<Longrightarrow> t \<le> of_int d \<Longrightarrow> covered_by (set is) t"
proof (induction "is" arbitrary: through)
  case (Cons i "is")
  have rest: "covered_by (set is) t \<Longrightarrow> covered_by (set (i # is)) t" by (auto simp: covered_by_def)
  show ?case
  proof (cases "ci_covered_through_ns i < through")
    case True
    with Cons rest show ?thesis by (auto split: if_splits)
  next
    case False
    then have max: "max through (ci_covered_through_ns i) = ci_covered_through_ns i" by simp
    have from_i: "ci_covered_from_ns i \<le> through" using Cons.prems(1) False by (auto split: if_splits)
    show ?thesis
    proof (cases "t \<le> of_int (ci_covered_through_ns i)")
      case True
      moreover have "of_int (ci_covered_from_ns i) \<le> t" using from_i Cons.prems(2) by linarith
      ultimately show ?thesis by (auto simp: covered_by_def)
    next
      case t: False
      have "\<not> d \<le> ci_covered_through_ns i" using t Cons.prems(3) by linarith
      with Cons.prems(1) False max have "covers d (ci_covered_through_ns i) is" by (simp add: Let_def split: if_splits)
      from Cons.IH [OF this] t Cons.prems(3) rest show ?thesis by simp
    qed
  qed
qed simp

lemma covers_complete:
  "\<forall>t. of_int through \<le> t \<and> t \<le> of_int d \<longrightarrow> covered_by (set is) t \<Longrightarrow> through < d \<Longrightarrow> list_all well_formed is \<Longrightarrow>
     sorted (map ci_covered_from_ns is) \<Longrightarrow> covers d through is"
proof (induction "is" arbitrary: through)
  case Nil
  then have "covered_by {} (of_int through)" by (metis list.set(1) of_int_le_iff order_less_imp_le order_refl)
  then show ?case by (simp add: covered_by_def)
next
  case (Cons i "is")
  have wf: "ci_covered_from_ns i \<le> ci_covered_through_ns i" "ci_covered_through_ns i \<le> ci_available_at_ns i"
    using Cons.prems(3) by (simp_all add: well_formed_def)
  have step: "covers d x is" if "through \<le> x" "x < d" "ci_covered_through_ns i \<le> x" for x
  proof (rule Cons.IH [OF _ that(2)])
    show "\<forall>t. of_int x \<le> t \<and> t \<le> of_int d \<longrightarrow> covered_by (set is) t"
    proof (intro allI impI)
      fix t :: real
      assume t: "of_int x \<le> t \<and> t \<le> of_int d"
      show "covered_by (set is) t"
      proof (cases "of_int (ci_covered_through_ns i) < t")
        case True
        moreover have "covered_by (set (i # is)) t" using Cons.prems(1) t that(1) by (meson dual_order.trans of_int_le_iff)
        ultimately show ?thesis by (auto simp: covered_by_def)
      next
        case False
        then have eq: "t = of_int x" "ci_covered_through_ns i = x" using t that(3) by linarith+
        have "covered_by (set (i # is)) (of_int x + 1 / 2)"
          using Cons.prems(1) that(1,2) by (smt (verit) field_sum_of_halves of_int_le_iff of_int_less_iff of_int_1 of_int_add)
        then obtain j where j: "j \<in> set is" "of_int (ci_covered_from_ns j) \<le> of_int x + (1 / 2 :: real)"
          "of_int x + (1 / 2 :: real) \<le> of_int (ci_covered_through_ns j)"
          using eq(2) by (auto simp: covered_by_def)
        then have "ci_covered_from_ns j \<le> x" "x \<le> ci_covered_through_ns j" by linarith+
        with j(1) eq(1) show ?thesis by (auto simp: covered_by_def)
      qed
    qed
  qed (use Cons.prems(3,4) in simp_all)
  show ?case
  proof (cases "ci_covered_through_ns i < through")
    case True
    with wf step [of through] Cons.prems(2) show ?thesis by simp
  next
    case False
    have "covered_by (set (i # is)) (of_int through)" using Cons.prems(1,2) by simp
    then obtain j where "j \<in> set (i # is)" "ci_covered_from_ns j \<le> through" by (auto simp: covered_by_def)
    with Cons.prems(4) have "ci_covered_from_ns i \<le> through" by auto
    with False wf step [of "ci_covered_through_ns i"] show ?thesis by (auto simp: Let_def)
  qed
qed


section \<open>Maps with mutable values\<close>

lemma map_values_keys [simp]: "map fst (map_values f m) = map fst m"
  by (induction m) (auto simp: map_values_def)

lemma bt_ok_map_values [simp]: "bt_ok (map_values f m) = bt_ok m"
  by (simp add: bt_ok_def)

lemma bt_get_map_values: "bt_get (map_values f m) k = map_option (f k) (bt_get m k)"
  by (induction m) (auto simp: map_values_def bt_get_def)

lemma bt_get_set_value: "bt_get (set_value key v m) k = (if k = key then map_option (\<lambda>_. v) (bt_get m k) else bt_get m k)"
  by (cases "bt_get m k") (auto simp: set_value_def bt_get_map_values)

lemma bt_ok_set_value [simp]: "bt_ok (set_value key v m) = bt_ok m"
  by (simp add: set_value_def)

definition all_records :: "(window_key \<times> 'v fixed_window) list \<Rightarrow> nat" where
  "all_records m = sum_list (map (\<lambda>(k, w). length (fw_records w)) m)"

lemma all_records_set_value:
  "bt_ok m \<Longrightarrow> bt_get m key = Some w \<Longrightarrow> all_records (set_value key w' m) + length (fw_records w) = all_records m + length (fw_records w')"
proof (induction m)
  case (Cons p m)
  show ?case
  proof (cases "fst p = key")
    case True
    have "set_value key w' m = m" using Cons.prems(1) True by (auto simp: set_value_def map_values_def bt_ok_Cons intro!: map_idI)
    with True Cons.prems(2) show ?thesis by (cases p) (auto simp: all_records_def bt_get_def set_value_def map_values_def)
  next
    case False
    with Cons show ?thesis by (cases p) (auto simp: all_records_def bt_get_def set_value_def map_values_def bt_ok_Cons)
  qed
qed simp

lemma all_records_source:
  assumes "\<And>w. fw_records (f w) = []"
  shows "all_records (map_values (\<lambda>k w. if wk_source k = source then f w else w) m) + of_source source m = all_records m"
  by (induction m) (auto simp: all_records_def of_source_def map_values_def assms)

lemma of_source_le: "of_source source m \<le> all_records m"
  by (induction m) (auto simp: all_records_def of_source_def)

section \<open>Reachable banks\<close>

inductive bank_reach :: "'v window_bank \<Rightarrow> bool" where
  built: "window_bank_new specs = Inr b \<Longrightarrow> bank_reach b"
| pushed: "bank_reach b \<Longrightarrow> bank_reach (snd (bank_push key at_ns v b))"
| evicted: "bank_reach b \<Longrightarrow> bank_reach (snd (bank_evict key at_ns b))"
| source_invalidated: "bank_reach b \<Longrightarrow> bank_reach (snd (invalidate_configured_source source b))"
| key_invalidated: "bank_reach b \<Longrightarrow> bank_reach (snd (invalidate_configured_key key b))"
| key_recovered: "bank_reach b \<Longrightarrow> bank_reach (snd (recover_configured_key key first b))"
| epoch_advanced: "bank_reach b \<Longrightarrow> bank_reach (snd (advance_source_epoch source generation first b))"

definition window_ok :: "'v fixed_window \<Rightarrow> bool" where
  "window_ok w \<longleftrightarrow> length (fw_records w) \<le> PER_WINDOW_CAPACITY \<and> sorted (map td_available_at_ns (fw_records w)) \<and>
     (fw_invalid w \<longrightarrow> fw_records w = [])"

definition bank_inv :: "'v window_bank \<Rightarrow> bool" where
  "bank_inv b \<longleftrightarrow> bt_ok (wb_windows b) \<and> wb_total_records b = all_records (wb_windows b) \<and>
     wb_total_records b \<le> PROCESSOR_RECORD_CAPACITY \<and> (\<forall>k w. (k, w) \<in> set (wb_windows b) \<longrightarrow> window_ok w)"

lemma window_ok_empty [simp]: "window_ok (drop_window w)" "window_ok (clear_for_new_epoch first w)"
  "fw_records (drop_window w) = []" "fw_records (clear_for_new_epoch first w) = []"
  by (simp_all add: window_ok_def drop_window_def clear_for_new_epoch_def)

lemma set_map_values: "(k, v) \<in> set (map_values f m) \<longleftrightarrow> (\<exists>w. (k, w) \<in> set m \<and> v = f k w)"
  by (force simp: map_values_def)

lemma bank_window: "bank_inv b \<Longrightarrow> bt_get (wb_windows b) key = Some w \<Longrightarrow> window_ok w"
  by (auto simp: bank_inv_def bt_get_Some_iff)

lemma set_value_inv:
  assumes "bank_inv b" and "bt_get (wb_windows b) key = Some w" and "window_ok w'"
    and "n + length (fw_records w) = wb_total_records b + length (fw_records w')" and "n \<le> PROCESSOR_RECORD_CAPACITY"
  shows "bank_inv (b\<lparr>wb_windows := set_value key w' (wb_windows b), wb_total_records := n\<rparr>)"
proof -
  have "all_records (set_value key w' (wb_windows b)) = n"
    using all_records_set_value [of "wb_windows b" key w w'] assms by (simp add: bank_inv_def)
  with assms show ?thesis by (auto simp: bank_inv_def set_value_def set_map_values)
qed

lemma clear_source_inv:
  assumes "bank_inv b" and "\<And>w. fw_records (f w) = []" and "\<And>w. window_ok (f w)"
  shows "bank_inv (b\<lparr>wb_windows := map_values (\<lambda>k w. if wk_source k = source then f w else w) (wb_windows b),
    wb_total_records := wb_total_records b - of_source source (wb_windows b)\<rparr>)"
  using assms all_records_source [of f source "wb_windows b", OF assms(2)] of_source_le [of source "wb_windows b"]
  by (auto simp: bank_inv_def set_map_values)

lemma invalidate_source_inv: "bank_inv b \<Longrightarrow> bank_inv (invalidate_source source b)"
  unfolding invalidate_source_def by (rule clear_source_inv) simp_all

lemma bank_inv_generations: "bank_inv (b\<lparr>wb_source_generations := g\<rparr>) = bank_inv b"
  by (simp add: bank_inv_def)

lemma fw_push_cases:
  assumes "window_ok w"
  obtains (ok) w' where "fw_push at_ns v w = (Inr (), w')" "window_ok w'" "length (fw_records w') = Suc (length (fw_records w))"
      "fw_records w' = fw_records w @ [\<lparr>td_available_at_ns = at_ns, td_value = v\<rparr>]"
  | (dropped) w' where "fw_push at_ns v w = (Inl QueueDrop, w')" "w' = w \<or> w' = drop_window w"
  | (regression) "fw_push at_ns v w = (Inl AvailabilityRegression, w)"
proof -
  have "sorted (map td_available_at_ns (fw_records w @ [\<lparr>td_available_at_ns = at_ns, td_value = v\<rparr>]))"
    if "fw_records w = [] \<or> td_available_at_ns (last (fw_records w)) \<le> at_ns"
  proof -
    have "r \<in> set (fw_records w) \<Longrightarrow> td_available_at_ns r \<le> at_ns" for r
      using assms that by (cases "fw_records w" rule: rev_cases) (auto simp: window_ok_def sorted_append)
    with assms show ?thesis by (auto simp: window_ok_def sorted_append)
  qed
  then have next_ok: "window_ok (w\<lparr>fw_records := fw_records w @ [\<lparr>td_available_at_ns = at_ns, td_value = v\<rparr>]\<rparr>)"
    if "fw_records w = [] \<or> td_available_at_ns (last (fw_records w)) \<le> at_ns" "length (fw_records w) \<noteq> PER_WINDOW_CAPACITY" "\<not> fw_invalid w"
    using that assms by (simp add: window_ok_def)
  consider "fw_invalid w" | "\<not> fw_invalid w" "fw_records w \<noteq> [] \<and> at_ns < td_available_at_ns (last (fw_records w))"
    | "\<not> fw_invalid w" "fw_records w = [] \<or> td_available_at_ns (last (fw_records w)) \<le> at_ns" "length (fw_records w) = PER_WINDOW_CAPACITY"
    | "\<not> fw_invalid w" "fw_records w = [] \<or> td_available_at_ns (last (fw_records w)) \<le> at_ns" "length (fw_records w) \<noteq> PER_WINDOW_CAPACITY"
    by (meson not_less)
  then show ?thesis
  proof cases
    case 1
    then show ?thesis by (intro dropped [of w]) (simp_all add: fw_push_def)
  next
    case 2
    then show ?thesis by (intro regression) (simp add: fw_push_def)
  next
    case 3
    then show ?thesis by (intro dropped [of "drop_window w"]) (auto simp: fw_push_def drop_window_def)
  next
    case 4
    then show ?thesis by (intro ok [OF _ next_ok]) (auto simp: fw_push_def)
  qed
qed

lemma bank_push_inv:
  assumes "bank_inv b"
  shows "bank_inv (snd (bank_push key at_ns v b))"
proof (cases "bt_get (wb_windows b) key")
  case None
  with assms show ?thesis by (simp add: bank_push_def)
next
  case (Some w)
  show ?thesis
  proof (cases "wb_total_records b = PROCESSOR_RECORD_CAPACITY")
    case True
    with Some assms show ?thesis by (simp add: bank_push_def invalidate_source_inv)
  next
    case room: False
    have w: "window_ok w" using bank_window [OF assms Some] .
    then show ?thesis
    proof (cases rule: fw_push_cases [of w at_ns v])
      case (ok w')
      have "bank_inv (b\<lparr>wb_windows := set_value key w' (wb_windows b), wb_total_records := wb_total_records b + 1\<rparr>)"
        by (rule set_value_inv [OF assms Some ok(2)]) (use ok(3) room assms in \<open>simp_all add: bank_inv_def\<close>)
      with ok(1) Some room show ?thesis by (simp add: bank_push_def Let_def)
    next
      case (dropped w')
      have same: "map_values (\<lambda>k w. if wk_source k = wk_source key then drop_window w else w) (set_value key w' (wb_windows b)) =
          map_values (\<lambda>k w. if wk_source k = wk_source key then drop_window w else w) (wb_windows b)"
        using dropped(2) Some assms
        by (auto simp: set_value_def map_values_def drop_window_def bank_inv_def bt_get_Some_iff [symmetric] intro!: map_cong)
      have "bank_inv (invalidate_source (wk_source key) b)" using assms by (rule invalidate_source_inv)
      with dropped(1) Some room show ?thesis
        by (simp add: bank_push_def Let_def invalidate_source_def same bank_inv_def)
    next
      case regression
      have "set_value key w (wb_windows b) = wb_windows b"
        using Some assms by (auto simp: set_value_def map_values_def bank_inv_def bt_get_Some_iff [symmetric] intro!: map_idI)
      with regression Some room assms show ?thesis by (simp add: bank_push_def Let_def)
    qed
  qed
qed

lemma evict_front_eq:
  "evict_front boundary n rs = (n + length (takeWhile (\<lambda>r. td_available_at_ns r < boundary) rs), dropWhile (\<lambda>r. td_available_at_ns r < boundary) rs)"
  by (induction rs arbitrary: n) auto

lemma dropWhile_sorted: "sorted (map td_available_at_ns rs) \<Longrightarrow>
    dropWhile (\<lambda>r. td_available_at_ns r < boundary) rs = filter (\<lambda>r. boundary \<le> td_available_at_ns r) rs"
proof (induction rs)
  case (Cons r rs)
  then show ?case by (cases "td_available_at_ns r < boundary") (auto simp: not_less intro!: filter_True [symmetric])
qed simp

lemma window_ok_filter: "window_ok w \<Longrightarrow> window_ok (w\<lparr>fw_records := filter P (fw_records w)\<rparr>)"
  by (auto simp: window_ok_def sorted_filter intro: order_trans [OF length_filter_le])

lemma fw_evict_eq:
  assumes "window_ok w" and "fw_evict t w = (Inr n, w')"
  shows "w' = w\<lparr>fw_records := filter (\<lambda>r. t - fw_horizon_ns w \<le> td_available_at_ns r) (fw_records w)\<rparr>"
    and "n + length (fw_records w') = length (fw_records w)"
proof -
  have c: "checked_i64 (t - fw_horizon_ns w) = Some (t - fw_horizon_ns w)"
    using assms(2) by (auto simp: fw_evict_def checked_i64_def split: if_splits)
  have sorted: "sorted (map td_available_at_ns (fw_records w))" using assms(1) by (simp add: window_ok_def)
  show "w' = w\<lparr>fw_records := filter (\<lambda>r. t - fw_horizon_ns w \<le> td_available_at_ns r) (fw_records w)\<rparr>"
    using assms(2) dropWhile_sorted [OF sorted, of "t - fw_horizon_ns w"] by (simp add: fw_evict_def c evict_front_eq)
  show "n + length (fw_records w') = length (fw_records w)"
    using assms(2) by (auto simp: fw_evict_def c evict_front_eq simp flip: length_append)
qed

lemma bank_evict_inv:
  assumes "bank_inv b"
  shows "bank_inv (snd (bank_evict key t b))"
proof (cases "bt_get (wb_windows b) key")
  case (Some w)
  have w: "window_ok w" using bank_window [OF assms Some] .
  have le: "length (fw_records w) \<le> wb_total_records b"
    using all_records_set_value [of "wb_windows b" key w "drop_window w"] assms Some by (simp add: bank_inv_def)
  show ?thesis
  proof (cases "fw_evict t w")
    case (Pair r w')
    show ?thesis
    proof (cases r)
      case (Inr n)
      with Pair fw_evict_eq [OF w, of t n w'] have n: "n + length (fw_records w') = length (fw_records w)" "window_ok w'"
        using window_ok_filter [OF w] by auto
      have "bank_inv (b\<lparr>wb_windows := set_value key w' (wb_windows b), wb_total_records := wb_total_records b - n\<rparr>)"
        by (rule set_value_inv [OF assms Some n(2)]) (use n(1) le assms in \<open>auto simp: bank_inv_def\<close>)
      with Some Pair Inr show ?thesis by (simp add: bank_evict_def)
    qed (use assms Some Pair in \<open>simp add: bank_evict_def\<close>)
  qed
qed (use assms in \<open>simp add: bank_evict_def\<close>)

lemma empty_key_inv:
  assumes "bank_inv b" and "\<And>w. fw_records (f w) = []" and "\<And>w. window_ok (f w)"
  shows "bank_inv (snd (empty_key f key b))"
proof (cases "bt_get (wb_windows b) key")
  case (Some w)
  have le: "length (fw_records w) \<le> wb_total_records b"
    using all_records_set_value [of "wb_windows b" key w "drop_window w"] assms Some by (simp add: bank_inv_def)
  have "bank_inv (b\<lparr>wb_windows := set_value key (f w) (wb_windows b), wb_total_records := wb_total_records b - length (fw_records w)\<rparr>)"
    by (rule set_value_inv [OF assms(1) Some assms(3)]) (use assms le in \<open>auto simp: bank_inv_def\<close>)
  with Some show ?thesis by (simp add: empty_key_def)
qed (use assms in \<open>simp add: empty_key_def\<close>)

definition empty_windows :: "(window_key \<times> 'v fixed_window) list \<Rightarrow> bool" where
  "empty_windows m \<longleftrightarrow> bt_ok m \<and> (\<forall>k w. (k, w) \<in> set m \<longrightarrow> fw_records w = [])"

lemma add_spec_empty: "add_spec st spec = Inr st' \<Longrightarrow> empty_windows (fst st) \<Longrightarrow> empty_windows (fst st')"
  by (auto simp: add_spec_def empty_windows_def Let_def and_then_Inr_iff fixed_window_new_def bt_ok_insert set_bt_insert
      split: prod.splits if_splits option.splits)

lemma new_bank_empty:
  assumes "window_bank_new specs = Inr b"
  shows "empty_windows (wb_windows b) \<and> wb_total_records b = 0"
proof -
  obtain st where st: "try_fold add_spec ([], []) specs = Inr st" "wb_windows b = fst st" "wb_total_records b = 0"
    using assms by (auto simp: window_bank_new_def and_then_Inr_iff split: prod.splits if_splits)
  have "empty_windows (fst st)"
    by (rule try_fold_invariant [OF st(1), where I = "\<lambda>st. empty_windows (fst st)"]) (auto simp: empty_windows_def dest: add_spec_empty)
  with st show ?thesis by simp
qed

lemma empty_windows_records: "empty_windows m \<Longrightarrow> all_records m = 0"
  by (induction m) (auto simp: empty_windows_def all_records_def bt_ok_Cons)

lemma bank_reach_inv: "bank_reach b \<Longrightarrow> bank_inv b"
proof (induction rule: bank_reach.induct)
  case (built specs b)
  from new_bank_empty [OF this] show ?case
    using empty_windows_records [of "wb_windows b"] by (auto simp: bank_inv_def empty_windows_def window_ok_def)
next
  case (source_invalidated b source)
  then show ?case by (auto simp: invalidate_configured_source_def invalidate_source_inv)
next
  case (key_invalidated b key)
  then show ?case by (auto simp: invalidate_configured_key_def intro: empty_key_inv)
next
  case (key_recovered b key first)
  then show ?case by (auto simp: recover_configured_key_def intro: empty_key_inv)
next
  case (epoch_advanced b source generation first)
  then show ?case
    using clear_source_inv [OF epoch_advanced.IH, of "clear_for_new_epoch first" source]
    by (auto simp: advance_source_epoch_def bank_inv_def split: option.splits)
qed (auto intro: bank_push_inv bank_evict_inv)

text \<open>
  C38: A window bank accounts exactly.  After any calls, failed ones included, its record count is the number of records its
  windows hold, within the processor's capacity; every window is within its own capacity, ordered by
  availability, and empty when it is invalid.
\<close>

theorem bank_accounts_exactly:
  assumes "bank_reach b"
  shows "wb_total_records b = sum_list (map (\<lambda>(k, w). length (fw_records w)) (wb_windows b)) \<and>
    wb_total_records b \<le> PROCESSOR_RECORD_CAPACITY \<and>
    list_all (\<lambda>(k, w). length (fw_records w) \<le> PER_WINDOW_CAPACITY \<and> sorted (map td_available_at_ns (fw_records w)) \<and>
      (fw_invalid w \<longrightarrow> fw_records w = [])) (wb_windows b)"
  using bank_reach_inv [OF assms] by (fastforce simp: bank_inv_def all_records_def window_ok_def list_all_iff)

text \<open>
  Eviction keeps exactly the records of the horizon: of the window of the key, those that became available no earlier
  than the horizon before the decision; every other window is as it was.
\<close>

theorem eviction_exact:
  assumes "bank_reach b" and "bt_get (wb_windows b) key = Some w" and "bank_evict key t b = (Inr (), b')"
  shows "bt_get (wb_windows b') = (bt_get (wb_windows b))
    (key \<mapsto> w\<lparr>fw_records := filter (\<lambda>r. t - fw_horizon_ns w \<le> td_available_at_ns r) (fw_records w)\<rparr>)"
proof -
  have w: "window_ok w" by (rule bank_window [OF bank_reach_inv [OF assms(1)] assms(2)])
  from assms(2,3) obtain n w' where n: "fw_evict t w = (Inr n, w')" "wb_windows b' = set_value key w' (wb_windows b)"
    by (auto simp: bank_evict_def split: prod.splits sum.splits)
  with fw_evict_eq [OF w n(1)] assms(2) show ?thesis by (auto simp: bt_get_set_value fun_eq_iff)
qed

text \<open>
  C39: Overflow fails closed for its source only.  When a push is answered with \<^verbatim>\<open>QueueDrop\<close>, every window of the same
  source is empty and invalid, and every window of another source is untouched.
\<close>

theorem overflow_isolates_source:
  assumes "bank_reach b" and "bank_push key at_ns v b = (Inl QueueDrop, b')" and "bt_get (wb_windows b) k = Some w"
  shows "bt_get (wb_windows b') k = Some (if wk_source k = wk_source key then w\<lparr>fw_records := [], fw_invalid := True\<rparr> else w)"
proof -
  let ?f = "\<lambda>k w. if wk_source k = wk_source key then drop_window w else w"
  obtain u where u: "bt_get (wb_windows b) key = Some u" using assms(2) by (auto simp: bank_push_def split: option.splits)
  have ok: "window_ok u" by (rule bank_window [OF bank_reach_inv [OF assms(1)] u])
  show ?thesis
  proof (cases "wb_total_records b = PROCESSOR_RECORD_CAPACITY")
    case True
    with u assms(2,3) show ?thesis by (auto simp: bank_push_def invalidate_source_def bt_get_map_values drop_window_def)
  next
    case False
    from ok show ?thesis
    proof (cases rule: fw_push_cases [of u at_ns v])
      case (dropped u')
      with False u assms(2) have "wb_windows b' = map_values ?f (set_value key u' (wb_windows b))"
        by (auto simp: bank_push_def Let_def invalidate_source_def)
      with dropped(2) u assms(3) show ?thesis by (auto simp: bt_get_map_values bt_get_set_value drop_window_def)
    qed (use False u assms(2) in \<open>auto simp: bank_push_def Let_def\<close>)
  qed
qed

section \<open>Samples\<close>

definition sample_interval :: "int \<Rightarrow> int \<Rightarrow> coverage_interval" where
  "sample_interval a b = \<lparr>ci_covered_from_ns = a, ci_covered_through_ns = b, ci_available_at_ns = b\<rparr>"


definition sample_key :: "string \<Rightarrow> window_key" where
  "sample_key s = WindowKey (WindowSource s) 100000000 TradeWindow"

definition sample_spec :: "string \<Rightarrow> window_spec" where
  "sample_spec s = \<lparr>ws_key = sample_key s, ws_epoch_generation = 1, ws_epoch_first_available_ns = 0\<rparr>"

definition sample_window :: "(i64 \<times> nat) list \<Rightarrow> bool \<Rightarrow> nat fixed_window" where
  "sample_window rs invalid =
     \<lparr>fw_horizon_ns = 100000000, fw_epoch_first_available_ns = 0,
      fw_records = map (\<lambda>(t, v). \<lparr>td_available_at_ns = t, td_value = v\<rparr>) rs, fw_invalid = invalid\<rparr>"

definition sample_bank :: "(i64 \<times> nat) list \<Rightarrow> bool \<Rightarrow> nat \<Rightarrow> nat window_bank" where
  "sample_bank rs invalid n =
     \<lparr>wb_windows = [(sample_key ''a'', sample_window rs invalid), (sample_key ''b'', sample_window [(5, 7)] False)],
      wb_source_generations = [(WindowSource ''a'', 1), (WindowSource ''b'', 1)], wb_total_records = n\<rparr>"

lemma sample_bank_new: "window_bank_new [sample_spec ''a'', sample_spec ''b''] =
    Inr ((sample_bank [] False 0)\<lparr>wb_windows := [(sample_key ''a'', sample_window [] False), (sample_key ''b'', sample_window [] False)]\<rparr>)"
  by code_simp

lemma sample_pushes:
  "bank_push (sample_key ''b'') 5 7 ((sample_bank [] False 0)\<lparr>wb_windows := [(sample_key ''a'', sample_window [] False), (sample_key ''b'', sample_window [] False)]\<rparr>) =
     (Inr (), sample_bank [] False 1)"
  "bank_push (sample_key ''a'') 1 3 (sample_bank [] False 1) = (Inr (), sample_bank [(1, 3)] False 2)"
  "bank_push (sample_key ''a'') 2 4 (sample_bank [(1, 3)] False 2) = (Inr (), sample_bank [(1, 3), (2, 4)] False 3)"
  "invalidate_configured_key (sample_key ''a'') (sample_bank [(1, 3)] False 2) = (Inr (), sample_bank [] True 1)"
  "bank_push (sample_key ''a'') 2 4 (sample_bank [] True 1) = (Inl QueueDrop, sample_bank [] True 1)"
  "bank_evict (sample_key ''a'') 100000002 (sample_bank [(1, 3), (2, 4)] False 3) = (Inr (), sample_bank [(2, 4)] False 2)"
  by (simp_all add: bank_push_def bank_evict_def invalidate_configured_key_def empty_key_def sample_bank_def sample_key_def sample_window_def
      bt_get_def fw_push_def fw_evict_def set_value_def map_values_def drop_window_def invalidate_source_def of_source_def Let_def
      PROCESSOR_RECORD_CAPACITY_def PER_WINDOW_CAPACITY_def checked_i64_def in_i64_def)

lemma sample_bank_reach: "bank_reach (sample_bank [(1, 3)] False 2)"
  using bank_reach.pushed [OF bank_reach.pushed [OF bank_reach.built [OF sample_bank_new], of "sample_key ''b''" 5 7], of "sample_key ''a''" 1 3]
  unfolding sample_pushes snd_conv .

theorem bank_accounts_exactly_witness:
  "wb_total_records (sample_bank [(1, 3)] False 2) =
     sum_list (map (\<lambda>(k, w). length (fw_records w)) (wb_windows (sample_bank [(1, 3)] False 2)))"
  using bank_accounts_exactly [OF sample_bank_reach] by blast

theorem eviction_exact_witness:
  "bank_evict (sample_key ''a'') 100000002 (sample_bank [(1, 3), (2, 4)] False 3) = (Inr (), sample_bank [(2, 4)] False 2) \<and>
   bt_get (wb_windows (sample_bank [(2, 4)] False 2)) (sample_key ''a'') = Some (sample_window [(2, 4)] False)"
proof -
  have r: "bank_reach (sample_bank [(1, 3), (2, 4)] False 3)"
    using bank_reach.pushed [OF sample_bank_reach, of "sample_key ''a''" 2 4] unfolding sample_pushes snd_conv .
  have g: "bt_get (wb_windows (sample_bank [(1, 3), (2, 4)] False 3)) (sample_key ''a'') = Some (sample_window [(1, 3), (2, 4)] False)"
    by (simp add: sample_bank_def bt_get_def)
  from eviction_exact [OF r g sample_pushes(6)]
  have "bt_get (wb_windows (sample_bank [(2, 4)] False 2)) (sample_key ''a'') = Some ((sample_window [(1, 3), (2, 4)] False)
      \<lparr>fw_records := filter (\<lambda>r. 100000002 - fw_horizon_ns (sample_window [(1, 3), (2, 4)] False) \<le> td_available_at_ns r)
        (fw_records (sample_window [(1, 3), (2, 4)] False))\<rparr>)"
    by (simp only: fun_upd_same)
  with sample_pushes(6) show ?thesis by (simp add: sample_window_def)
qed

theorem overflow_isolates_source_witness:
  "bank_push (sample_key ''a'') 2 4 (sample_bank [] True 1) = (Inl QueueDrop, sample_bank [] True 1) \<and>
   bt_get (wb_windows (sample_bank [] True 1)) (sample_key ''b'') = Some (sample_window [(5, 7)] False)"
proof -
  have "bank_reach (sample_bank [] True 1)"
    using bank_reach.key_invalidated [OF sample_bank_reach, of "sample_key ''a''"] unfolding sample_pushes snd_conv .
  from overflow_isolates_source [OF this sample_pushes(5), of "sample_key ''b''" "sample_window [(5, 7)] False"]
  have "bt_get (wb_windows (sample_bank [] True 1)) (sample_key ''b'') = Some (sample_window [(5, 7)] False)"
    by (simp add: sample_bank_def bt_get_def sample_key_def)
  with sample_pushes(5) show ?thesis by blast
qed

end
