(* ===== verification/Features.thy ===== *)
theory Features
  imports Book "HOL-Library.Multiset"
begin

text \<open>
  The feature mechanics of \<^verbatim>\<open>event-pulse/src/features.rs\<close>: checked fixed-point arithmetic at eight decimals, the
  formulas, the projected order book behind the depth feature, and the authoring of feature rows and sets.  Rounding and
  printing are exact, a projected book fails closed, and a validated envelope is complete.
\<close>

section \<open>Checked fixed-point arithmetic\<close>

definition SCALE :: i128 where "SCALE = 100000000"

datatype arithmetic_error = ArithOverflow | ArithDivision | ArithRescale | ArithOutOfDomain

definition arith :: "i128 \<Rightarrow> arithmetic_error + i128" where
  "arith x = ok_or (checked_i128 x) ArithOverflow"

definition rounded_div :: "i128 \<Rightarrow> i128 \<Rightarrow> arithmetic_error + i128" where
  "rounded_div numerator denominator =
     (if denominator \<le> 0 then Inl ArithDivision
      else
        let quotient = numerator sdiv denominator; remainder = numerator smod denominator in
        and_then (ok_or (checked_uint 128 (nat \<bar>remainder\<bar> * 2)) ArithOverflow) (\<lambda>twice.
        if denominator \<le> int twice then arith (quotient + (if numerator < 0 then - 1 else 1))
        else Inr quotient))"

definition feature_rescale :: "fixed \<Rightarrow> arithmetic_error + i128" where
  "feature_rescale value = map_err (\<lambda>_. ArithRescale) (map_ok coefficient (rescale value 8 HalfAwayFromZero))"

definition mul_scaled :: "i128 \<Rightarrow> i128 \<Rightarrow> arithmetic_error + i128" where
  "mul_scaled a b = and_then (arith (a * b)) (\<lambda>x. rounded_div x SCALE)"

definition div_scaled :: "i128 \<Rightarrow> i128 \<Rightarrow> arithmetic_error + i128" where
  "div_scaled a b = and_then (arith (a * SCALE)) (\<lambda>x. rounded_div x b)"

definition div_integer :: "i128 \<Rightarrow> i128 \<Rightarrow> arithmetic_error + i128" where
  "div_integer a k = rounded_div a k"

text \<open>\<^verbatim>\<open>format!("{fraction:08}")\<close> and the loop that drops its trailing zeros.\<close>

definition pad8 :: "string \<Rightarrow> string" where
  "pad8 s = replicate (8 - length s) (CHR ''0'') @ s"

definition drop_trailing_zeros :: "string \<Rightarrow> string" where
  "drop_trailing_zeros s = rev (dropWhile (\<lambda>c. c = CHR ''0'') (rev s))"

definition canonical_decimal :: "i128 \<Rightarrow> string" where
  "canonical_decimal value =
     (if value = 0 then ''0''
      else
        let magnitude = nat \<bar>value\<bar>; integer = magnitude div nat SCALE; fraction = magnitude mod nat SCALE;
            sign = (if value < 0 then ''-'' else '''') in
        if fraction = 0 then sign @ show_nat integer
        else sign @ show_nat integer @ ''.'' @ drop_trailing_zeros (pad8 (show_nat fraction)))"

section \<open>Formulas\<close>

text \<open>One turn of the series loop of \<^verbatim>\<open>log_return\<close>, for the odd \<open>k\<close> from 1 to 15.\<close>

definition log_term :: "i128 \<Rightarrow> i128 \<times> i128 \<Rightarrow> i128 \<Rightarrow> arithmetic_error + i128 \<times> i128" where
  "log_term z2 ps k =
     (case ps of (pw, acc) \<Rightarrow>
       and_then (div_integer pw k) (\<lambda>t.
       and_then (arith (acc + t)) (\<lambda>acc.
       if k < 15 then map_ok (\<lambda>pw. (pw, acc)) (mul_scaled pw z2) else Inr (pw, acc))))"

definition log_return :: "i128 \<Rightarrow> i128 \<Rightarrow> arithmetic_error + i128" where
  "log_return p0 p1 =
     (if p0 \<le> 0 \<or> p1 \<le> 0 then Inl ArithOutOfDomain
      else
        and_then (arith (p1 * 5)) (\<lambda>value. and_then (arith (p0 * 4)) (\<lambda>lower.
        and_then (arith (p1 * 4)) (\<lambda>value'. and_then (arith (p0 * 5)) (\<lambda>upper.
        if \<not> lower \<le> value \<or> \<not> value' \<le> upper then Inl ArithOutOfDomain
        else
          and_then (arith (p1 - p0)) (\<lambda>d. and_then (arith (p1 + p0)) (\<lambda>s.
          and_then (div_scaled d s) (\<lambda>z.
          and_then (mul_scaled z z) (\<lambda>z2.
          and_then (try_fold (log_term z2) (z, 0) [1, 3, 5, 7, 9, 11, 13, 15]) (\<lambda>(_, acc).
          arith (acc * 2)))))))))))"

definition clamp :: "int \<Rightarrow> int \<Rightarrow> int \<Rightarrow> int" where
  "clamp lo hi x = max lo (min hi x)"

definition taker_imbalance :: "i128 \<Rightarrow> i128 \<Rightarrow> arithmetic_error + i128" where
  "taker_imbalance buy sell =
     (if buy < 0 \<or> sell < 0 then Inl ArithOutOfDomain
      else
        and_then (arith (buy + sell)) (\<lambda>total.
        if total = 0 then Inl ArithOutOfDomain
        else
          and_then (arith (buy - sell)) (\<lambda>d.
          map_ok (clamp (- SCALE) SCALE) (div_scaled d total))))"

definition cvd_slope :: "i128 \<Rightarrow> i128 \<Rightarrow> i128 \<Rightarrow> arithmetic_error + i128" where
  "cvd_slope first lst elapsed_micros =
     (if elapsed_micros \<le> 0 then Inl ArithDivision
      else
        and_then (arith (lst - first)) (\<lambda>v.
        and_then (arith (v * 1000000)) (\<lambda>v. rounded_div v elapsed_micros)))"

definition spread_bps :: "i128 \<Rightarrow> i128 \<Rightarrow> arithmetic_error + i128" where
  "spread_bps bid ask =
     (if bid \<le> 0 \<or> ask \<le> bid then Inl ArithOutOfDomain
      else
        and_then (arith (ask - bid)) (\<lambda>v. and_then (arith (v * 2)) (\<lambda>v.
        and_then (arith (v * 10000)) (\<lambda>v. and_then (arith (v * SCALE)) (\<lambda>v.
        and_then (arith (ask + bid)) (\<lambda>d. rounded_div v d))))))"

definition open_interest_change :: "i128 \<Rightarrow> i128 \<Rightarrow> arithmetic_error + i128" where
  "open_interest_change first lst = arith (lst - first)"

definition open_interest_contracts :: "fixed \<Rightarrow> i128 option \<Rightarrow> arithmetic_error + i128" where
  "open_interest_contracts quantity contracts_per_base =
     and_then (feature_rescale quantity) (\<lambda>quantity.
     if quantity < 0 then Inl ArithOutOfDomain
     else
       case contracts_per_base of
         None \<Rightarrow> Inr quantity
       | Some conversion \<Rightarrow> if 0 < conversion then mul_scaled quantity conversion else Inl ArithOutOfDomain)"

definition liquidation_notional :: "(i128 \<times> i128) list \<Rightarrow> arithmetic_error + i128" where
  "liquidation_notional values =
     try_fold (\<lambda>acc (price, quantity).
         if price \<le> 0 then Inl ArithOutOfDomain
         else
           and_then (arith \<bar>quantity\<bar>) (\<lambda>quantity.
           and_then (mul_scaled price quantity) (\<lambda>n. arith (acc + n))))
       0 values"

definition cross_venue_breadth :: "usize \<Rightarrow> usize \<Rightarrow> arithmetic_error + i128" where
  "cross_venue_breadth confirming eligible =
     (if eligible < 2 \<or> eligible < confirming then Inl ArithOutOfDomain
      else and_then (arith (int confirming * SCALE)) (\<lambda>v. div_integer v (int eligible)))"

datatype pulse_direction = UpDirection | DownDirection | UnknownDirection

datatype known_direction = KnownUp | KnownDown

datatype reversal_policy = PreEventZero | UnknownNormalZero | ReversalRequired known_direction

fun reversal_is_critical :: "reversal_policy \<Rightarrow> bool" where
  "reversal_is_critical (ReversalRequired _) = True"
| "reversal_is_critical _ = False"

definition reversal_from_extreme :: "pulse_direction \<Rightarrow> i128 \<Rightarrow> i128 \<Rightarrow> i128 \<Rightarrow> arithmetic_error + i128" where
  "reversal_from_extreme direction anchor extreme current =
     map_ok (clamp 0 SCALE)
       (case direction of
          UpDirection \<Rightarrow>
            if anchor < extreme
            then and_then (arith (extreme - current)) (\<lambda>a. and_then (arith (extreme - anchor)) (\<lambda>b. div_scaled a b))
            else Inl ArithOutOfDomain
        | DownDirection \<Rightarrow>
            if extreme < anchor
            then and_then (arith (current - extreme)) (\<lambda>a. and_then (arith (anchor - extreme)) (\<lambda>b. div_scaled a b))
            else Inl ArithOutOfDomain
        | UnknownDirection \<Rightarrow> Inl ArithOutOfDomain)"

section \<open>The projected book\<close>

datatype book_sequence_mode = NativeSnapshot w64 | NativeDelta w64 | DerivedSequence

record book_projection =
  bp_book :: order_book
  bp_price_scale :: u8
  bp_quantity_scale :: u8
  bp_available_at_ns :: "i64 option"
  bp_resyncing :: bool
  bp_sequence_mode :: "book_sequence_mode option"

datatype projection_error = ProjectedBook book_error | Unsorted | ProjectionSequenceGap | SequenceModeChanged

definition projection_new :: "u8 \<Rightarrow> u8 \<Rightarrow> u32 option \<Rightarrow> book_projection" where
  "projection_new ps qs dep =
     \<lparr>bp_book = book_new ps qs dep, bp_price_scale = ps,
      bp_quantity_scale = qs, bp_available_at_ns = None, bp_resyncing = True, bp_sequence_mode = None\<rparr>"

definition valid_snapshot_level :: "u8 \<Rightarrow> u8 \<Rightarrow> book_level \<Rightarrow> bool" where
  "valid_snapshot_level ps qs l \<longleftrightarrow>
     (case rescale (price_fixed (bl_price l)) ps ExactOnly of Inl _ \<Rightarrow> False | Inr _ \<Rightarrow> True) \<and>
     (case rescale (quantity_fixed (bl_quantity l)) qs ExactOnly of Inl _ \<Rightarrow> False | Inr q \<Rightarrow> 0 < coefficient q)"

fun ordered_levels :: "u8 \<Rightarrow> bool \<Rightarrow> book_level list \<Rightarrow> bool" where
  "ordered_levels ps descending (l # r # ls) \<longleftrightarrow>
     (case (rescale (price_fixed (bl_price l)) ps ExactOnly, rescale (price_fixed (bl_price r)) ps ExactOnly) of
        (Inr left, Inr right) \<Rightarrow>
          if descending then coefficient right < coefficient left else coefficient left < coefficient right
      | _ \<Rightarrow> False) \<and> ordered_levels ps descending (r # ls)"
| "ordered_levels ps descending _ \<longleftrightarrow> True"

definition strictly_sorted :: "book_snapshot \<Rightarrow> u8 \<Rightarrow> u8 \<Rightarrow> bool" where
  "strictly_sorted snapshot ps qs \<longleftrightarrow>
     list_all (valid_snapshot_level ps qs) (bs_bids snapshot) \<and>
     list_all (valid_snapshot_level ps qs) (bs_asks snapshot) \<and>
     ordered_levels ps True (bs_bids snapshot) \<and> ordered_levels ps False (bs_asks snapshot)"

definition projection_invalidate :: "book_projection \<Rightarrow> book_projection" where
  "projection_invalidate p =
     p\<lparr>bp_book := set_validity (clear (bp_book p)) Invalid, bp_available_at_ns := None, bp_resyncing := True,
       bp_sequence_mode := None\<rparr>"

definition permit_resnapshot :: "book_projection \<Rightarrow> book_projection" where
  "permit_resnapshot p =
     p\<lparr>bp_book := set_validity (clear (bp_book p)) Synchronizing, bp_available_at_ns := None, bp_resyncing := True,
       bp_sequence_mode := None\<rparr>"

definition projection_apply_snapshot ::
  "book_projection \<Rightarrow> book_snapshot \<Rightarrow> w64 option \<Rightarrow> i64 \<Rightarrow> (projection_error + unit) \<times> book_projection" where
  "projection_apply_snapshot p value seq at_ns =
     (if \<not> strictly_sorted value (bp_price_scale p) (bp_quantity_scale p) then (Inl Unsorted, projection_invalidate p)
      else
        case apply_snapshot (bp_book p) (map (\<lambda>l. (bl_price l, bl_quantity l)) (bs_bids value))
          (map (\<lambda>l. (bl_price l, bl_quantity l)) (bs_asks value)) seq of
          (Inl e, b) \<Rightarrow> (Inl (ProjectedBook e), projection_invalidate (p\<lparr>bp_book := b\<rparr>))
        | (Inr _, b) \<Rightarrow> (Inr (), p\<lparr>bp_book := b, bp_available_at_ns := Some at_ns, bp_resyncing := False\<rparr>))"

definition MAX_SEQUENCE :: w64 where "MAX_SEQUENCE = 2 ^ 63 - 1"

definition snapshot_native ::
  "book_projection \<Rightarrow> book_snapshot \<Rightarrow> sequence_range \<Rightarrow> i64 \<Rightarrow> (projection_error + unit) \<times> book_projection" where
  "snapshot_native p value seq at_ns =
     (if seq_last seq < seq_first seq \<or> MAX_SEQUENCE < seq_last seq then
        (Inl ProjectionSequenceGap, projection_invalidate p)
      else
        sthen (projection_apply_snapshot p value (Some (seq_last seq)) at_ns) (\<lambda>_ p.
        (Inr (), p\<lparr>bp_sequence_mode := Some (NativeSnapshot (seq_last seq))\<rparr>)))"

definition snapshot_derived ::
  "book_projection \<Rightarrow> book_snapshot \<Rightarrow> i64 \<Rightarrow> (projection_error + unit) \<times> book_projection" where
  "snapshot_derived p value at_ns =
     sthen (projection_apply_snapshot p value None at_ns) (\<lambda>_ p.
     (Inr (), p\<lparr>bp_sequence_mode := Some DerivedSequence\<rparr>))"

text \<open>The common part of the delta methods: apply the batch or invalidate.\<close>

definition apply_projected :: "book_projection \<Rightarrow> book_delta \<Rightarrow> (projection_error + unit) \<times> book_projection" where
  "apply_projected p value =
     (case apply_changes_atomic (bp_book p) (bd_changes value) of
        (Inl e, b) \<Rightarrow> (Inl (ProjectedBook e), projection_invalidate (p\<lparr>bp_book := b\<rparr>))
      | (Inr _, b) \<Rightarrow> (Inr (), p\<lparr>bp_book := b\<rparr>))"

definition advance_native :: "w64 \<Rightarrow> i64 \<Rightarrow> book_projection \<Rightarrow> book_projection" where
  "advance_native lst at_ns p =
     p\<lparr>bp_book := set_sequence (bp_book p) lst, bp_sequence_mode := Some (NativeDelta lst), bp_available_at_ns := Some at_ns\<rparr>"

definition checked_next :: "w64 \<Rightarrow> w64 option" where
  "checked_next n = (if n = - 1 then None else Some (n + 1))"

definition delta_native ::
  "book_projection \<Rightarrow> book_delta \<Rightarrow> sequence_range \<Rightarrow> i64 \<Rightarrow> (projection_error + unit) \<times> book_projection" where
  "delta_native p value seq at_ns =
     (let gap = (\<lambda>previous_last. seq_last seq < seq_first seq \<or> MAX_SEQUENCE < seq_last seq \<or>
                  checked_next previous_last \<noteq> Some (seq_first seq));
          proceed = (\<lambda>previous_last.
            if gap previous_last then (Inl ProjectionSequenceGap, projection_invalidate p)
            else sthen (apply_projected p value) (\<lambda>_ p. (Inr (), advance_native (seq_last seq) at_ns p))) in
      case bp_sequence_mode p of
        Some (NativeSnapshot previous_last) \<Rightarrow> proceed previous_last
      | Some (NativeDelta previous_last) \<Rightarrow> proceed previous_last
      | _ \<Rightarrow> (Inl SequenceModeChanged, projection_invalidate p))"

definition delta_native_v2 ::
  "book_projection \<Rightarrow> book_delta \<Rightarrow> sequence_range \<Rightarrow> i64 \<Rightarrow> (projection_error + unit) \<times> book_projection" where
  "delta_native_v2 p value seq at_ns =
     (let valid = (case bp_sequence_mode p of
            Some (NativeSnapshot previous_last) \<Rightarrow> seq_first seq \<le> previous_last \<and> previous_last \<le> seq_last seq
          | Some (NativeDelta previous_last) \<Rightarrow> previous_last < seq_last seq
          | _ \<Rightarrow> False) in
      if seq_last seq < seq_first seq \<or> MAX_SEQUENCE < seq_last seq \<or> \<not> valid then
        (Inl ProjectionSequenceGap, projection_invalidate p)
      else sthen (apply_projected p value) (\<lambda>_ p. (Inr (), advance_native (seq_last seq) at_ns p)))"

definition delta_derived ::
  "book_projection \<Rightarrow> book_delta \<Rightarrow> i64 \<Rightarrow> (projection_error + unit) \<times> book_projection" where
  "delta_derived p value at_ns =
     (if bp_sequence_mode p \<noteq> Some DerivedSequence then (Inl SequenceModeChanged, projection_invalidate p)
      else sthen (apply_projected p value) (\<lambda>_ p. (Inr (), p\<lparr>bp_available_at_ns := Some at_ns\<rparr>)))"

text \<open>Whether the book is too old, or newer than the decision, for a depth.\<close>

definition stale :: "i64 option \<Rightarrow> i64 \<Rightarrow> bool" where
  "stale available decision_time_ns \<longleftrightarrow>
     (case available of
        None \<Rightarrow> True
      | Some at_ns \<Rightarrow>
          (case checked_i64 (decision_time_ns - at_ns) of None \<Rightarrow> True | Some age \<Rightarrow> \<not> (0 \<le> age \<and> age \<le> 250000000)))"

definition depth_step :: "i128 \<Rightarrow> i128 \<Rightarrow> i128 \<Rightarrow> book_level \<Rightarrow> arithmetic_error + i128" where
  "depth_step bid mid_numerator acc l =
     and_then (feature_rescale (price_fixed (bl_price l))) (\<lambda>price.
     and_then (feature_rescale (quantity_fixed (bl_quantity l))) (\<lambda>quantity.
     and_then (if price \<le> bid
       then and_then (arith (price * 10000)) (\<lambda>v. map_ok (\<lambda>lower. lower \<le> v) (arith (mid_numerator * 4995)))
       else and_then (arith (price * 10000)) (\<lambda>v. map_ok (\<lambda>upper. v \<le> upper) (arith (mid_numerator * 5005)))) (\<lambda>admitted.
     if admitted then and_then (mul_scaled price quantity) (\<lambda>n. arith (acc + n)) else Inr acc)))"

definition depth_10bps :: "book_projection \<Rightarrow> i64 \<Rightarrow> arithmetic_error + i128" where
  "depth_10bps p decision_time_ns =
     (if bp_resyncing p \<or> stale (bp_available_at_ns p) decision_time_ns then Inl ArithOutOfDomain
      else
        and_then (ok_or (best_bid (bp_book p)) ArithOutOfDomain) (\<lambda>(bid, _).
        and_then (ok_or (best_ask (bp_book p)) ArithOutOfDomain) (\<lambda>(ask, _).
        and_then (feature_rescale (price_fixed bid)) (\<lambda>bid.
        and_then (feature_rescale (price_fixed ask)) (\<lambda>ask.
        if bid \<le> 0 \<or> ask \<le> bid then Inl ArithOutOfDomain
        else
          and_then (arith (bid + ask)) (\<lambda>mid_numerator.
          and_then (ok_or (snapshot_levels (bp_book p)) ArithOutOfDomain) (\<lambda>(bs, as).
          try_fold (depth_step bid mid_numerator) 0 (bs @ as))))))))"

section \<open>Feature rows\<close>

datatype feature_name = BookDepth10bps | CrossVenueBreadth | CvdSlope | LiquidationNotional | LogReturn
  | OpenInterestChange | ReversalFromExtreme | SpreadBps | TakerImbalance

definition CANONICAL :: "(feature_name \<times> nat) list" where
  "CANONICAL = [(BookDepth10bps, 250), (CrossVenueBreadth, 1000), (CvdSlope, 1000), (LiquidationNotional, 5000),
     (LogReturn, 1000), (OpenInterestChange, 5000), (ReversalFromExtreme, 5000), (SpreadBps, 250), (TakerImbalance, 1000)]"

definition horizon_ms :: "feature_name \<Rightarrow> nat" where
  "horizon_ms name = the (map_of CANONICAL name)"

definition is_critical :: "feature_name \<Rightarrow> reversal_policy \<Rightarrow> bool" where
  "is_critical name policy \<longleftrightarrow>
     name \<in> {LogReturn, TakerImbalance, CvdSlope, SpreadBps, BookDepth10bps} \<or>
     reversal_is_critical policy \<and> name = ReversalFromExtreme"

definition is_optional :: "feature_name \<Rightarrow> bool" where
  "is_optional name \<longleftrightarrow> name \<in> {OpenInterestChange, LiquidationNotional, CrossVenueBreadth}"

text \<open>The derived order of the names is their position in the canonical list.\<close>

fun feature_index :: "feature_name \<Rightarrow> nat" where
  "feature_index BookDepth10bps = 0"
| "feature_index CrossVenueBreadth = 1"
| "feature_index CvdSlope = 2"
| "feature_index LiquidationNotional = 3"
| "feature_index LogReturn = 4"
| "feature_index OpenInterestChange = 5"
| "feature_index ReversalFromExtreme = 6"
| "feature_index SpreadBps = 7"
| "feature_index TakerImbalance = 8"

datatype feature_reason = ReasonArithmeticInvalid | ReasonSourceInvalidated | ReasonBookResyncing | ReasonClockDegraded
  | ReasonReconnectWarmup | ReasonSourceStale | ReasonInsufficientCoverage | ReasonInsufficientSamples
  | ReasonDirectionUnknown | ReasonOutOfDomain | ReasonOptionalSourceUnavailable | ObservationValid

datatype feature_quality = InvalidQuality | DegradedQuality | UnavailableQuality | ValidatedQuality

datatype mechanics_flag = FlagBookResyncing | FlagClockUncertain | FlagCrossVenueDivergence | FlagInsufficientCoverage
  | FlagOiStale | FlagQueueDrop | FlagReconnectWarmup | FlagSequenceGap | FlagSourceStale

record flag_conditions =
  fc_sequence_failure :: bool
  fc_book_resyncing :: bool
  fc_clock_degraded :: bool
  fc_source_stale :: bool
  fc_oi_stale_or_unavailable :: bool
  fc_queue_drop :: bool
  fc_reconnect_warmup :: bool
  fc_incomplete_critical :: bool
  fc_breadth_unavailable_or_divergent :: bool

fun mechanics_flag_index :: "mechanics_flag \<Rightarrow> nat" where
  "mechanics_flag_index FlagBookResyncing = 0"
| "mechanics_flag_index FlagClockUncertain = 1"
| "mechanics_flag_index FlagCrossVenueDivergence = 2"
| "mechanics_flag_index FlagInsufficientCoverage = 3"
| "mechanics_flag_index FlagOiStale = 4"
| "mechanics_flag_index FlagQueueDrop = 5"
| "mechanics_flag_index FlagReconnectWarmup = 6"
| "mechanics_flag_index FlagSequenceGap = 7"
| "mechanics_flag_index FlagSourceStale = 8"

definition mechanics_flags :: "flag_conditions \<Rightarrow> mechanics_flag list" where
  "mechanics_flags c = sort_key mechanics_flag_index
     (map snd (filter fst
       [(fc_book_resyncing c, FlagBookResyncing), (fc_clock_degraded c, FlagClockUncertain),
        (fc_breadth_unavailable_or_divergent c, FlagCrossVenueDivergence), (fc_incomplete_critical c, FlagInsufficientCoverage),
        (fc_oi_stale_or_unavailable c, FlagOiStale), (fc_queue_drop c, FlagQueueDrop),
        (fc_reconnect_warmup c, FlagReconnectWarmup), (fc_sequence_failure c, FlagSequenceGap), (fc_source_stale c, FlagSourceStale)]))"

record feature_observation =
  fo_name :: feature_name
  fo_value :: "i128 option"
  fo_quality :: feature_quality
  fo_reason :: feature_reason
  fo_reversal_policy :: "reversal_policy option"

record feature_set =
  fset_rows :: "feature_observation list"
  fset_reversal_policy :: reversal_policy

datatype feature_authoring_error = ArithmeticAuthoringError | CriticalFeatureAuthoringError | InvalidFeatureObservation
  | InvalidFeatureSet | InvalidFeatureConditions

definition feature_set_new :: "feature_observation list \<Rightarrow> reversal_policy \<Rightarrow> feature_authoring_error + feature_set" where
  "feature_set_new rows policy =
     (if length rows \<noteq> length CANONICAL then Inl InvalidFeatureSet
      else
        let rows = sort_key (feature_index \<circ> fo_name) rows in
        if map fo_name rows \<noteq> map fst CANONICAL then Inl InvalidFeatureSet
        else if list_ex (\<lambda>row. if fo_name row = ReversalFromExtreme then fo_reversal_policy row \<noteq> Some policy
                              else fo_reversal_policy row \<noteq> None) rows then Inl InvalidFeatureSet
        else Inr \<lparr>fset_rows = rows, fset_reversal_policy = policy\<rparr>)"

datatype envelope_status = EnvelopeInvalid | EnvelopeDegraded | EnvelopeValidated

definition envelope_quality :: "feature_set \<Rightarrow> envelope_status" where
  "envelope_quality rows =
     (if list_ex (\<lambda>row. is_critical (fo_name row) (fset_reversal_policy rows) \<and>
           fo_quality row \<in> {InvalidQuality, UnavailableQuality}) (fset_rows rows) then EnvelopeInvalid
      else if list_ex (\<lambda>row. fo_quality row = DegradedQuality \<or>
           is_optional (fo_name row) \<and> fo_quality row \<in> {InvalidQuality, UnavailableQuality}) (fset_rows rows) then EnvelopeDegraded
      else EnvelopeValidated)"

datatype feature_condition = CondArithmeticInvalid | CondSourceInvalidated | CondBookResyncing | CondClockDegraded
  | CondReconnectWarmup | CondSourceStale | CondInsufficientCoverage | CondInsufficientSamples | CondDirectionUnknown
  | CondOutOfDomain | CondOptionalSourceUnavailable

record feature_conditions =
  fcs_name :: feature_name
  fcs_conditions :: "feature_condition set"

definition condition_applies :: "feature_name \<Rightarrow> feature_condition \<Rightarrow> bool" where
  "condition_applies name condition =
     (case condition of
        CondBookResyncing \<Rightarrow> name = BookDepth10bps
      | CondDirectionUnknown \<Rightarrow> name \<in> {CrossVenueBreadth, ReversalFromExtreme}
      | CondOptionalSourceUnavailable \<Rightarrow> is_optional name
      | _ \<Rightarrow> True)"

definition feature_conditions_new ::
  "feature_name \<Rightarrow> feature_condition list \<Rightarrow> feature_authoring_error + feature_conditions" where
  "feature_conditions_new name conditions =
     (if \<not> list_all (condition_applies name) conditions then Inl InvalidFeatureConditions
      else Inr \<lparr>fcs_name = name, fcs_conditions = set conditions\<rparr>)"

text \<open>The priority of the conditions; \<open>None\<close> is a critical feature outside its domain.\<close>

definition reason_and_quality ::
  "feature_name \<Rightarrow> feature_condition set \<Rightarrow> reversal_policy \<Rightarrow> (feature_reason \<times> feature_quality) option" where
  "reason_and_quality name cs policy =
     (if CondSourceInvalidated \<in> cs then Some (ReasonSourceInvalidated, InvalidQuality)
      else if CondBookResyncing \<in> cs then Some (ReasonBookResyncing, InvalidQuality)
      else if CondReconnectWarmup \<in> cs then Some (ReasonReconnectWarmup, UnavailableQuality)
      else if CondSourceStale \<in> cs then Some (ReasonSourceStale, UnavailableQuality)
      else if CondInsufficientCoverage \<in> cs then Some (ReasonInsufficientCoverage, UnavailableQuality)
      else if CondInsufficientSamples \<in> cs then Some (ReasonInsufficientSamples, UnavailableQuality)
      else if CondDirectionUnknown \<in> cs then Some (ReasonDirectionUnknown, UnavailableQuality)
      else if CondOutOfDomain \<in> cs then
        (if is_critical name policy then None else Some (ReasonOutOfDomain, UnavailableQuality))
      else if CondOptionalSourceUnavailable \<in> cs then Some (ReasonOptionalSourceUnavailable, UnavailableQuality)
      else if CondClockDegraded \<in> cs then Some (ReasonClockDegraded, DegradedQuality)
      else Some (ObservationValid, ValidatedQuality))"

definition evaluate_feature_inner ::
  "feature_name \<Rightarrow> i128 option \<Rightarrow> feature_conditions \<Rightarrow> reversal_policy \<Rightarrow> feature_authoring_error + feature_observation" where
  "evaluate_feature_inner name value c policy =
     (if fcs_name c \<noteq> name then Inl InvalidFeatureConditions
      else if CondArithmeticInvalid \<in> fcs_conditions c then Inl ArithmeticAuthoringError
      else
        and_then (ok_or (reason_and_quality name (fcs_conditions c) policy) CriticalFeatureAuthoringError) (\<lambda>(reason, quality).
        if quality \<in> {ValidatedQuality, DegradedQuality} \<and> value = None then Inl InvalidFeatureObservation
        else Inr \<lparr>fo_name = name, fo_value = (if quality \<in> {ValidatedQuality, DegradedQuality} then value else None),
               fo_quality = quality, fo_reason = reason,
               fo_reversal_policy = (if name = ReversalFromExtreme then Some policy else None)\<rparr>))"

definition evaluate_feature ::
  "feature_name \<Rightarrow> i128 option \<Rightarrow> feature_conditions \<Rightarrow> reversal_policy \<Rightarrow> feature_authoring_error + feature_observation" where
  "evaluate_feature name value c policy =
     (if name = ReversalFromExtreme then Inl InvalidFeatureObservation else evaluate_feature_inner name value c policy)"

definition reversal_outcome ::
  "arithmetic_error + i128 \<Rightarrow> feature_conditions \<Rightarrow> i128 option \<times> feature_conditions" where
  "reversal_outcome computed conditions =
     (case computed of
        Inr value \<Rightarrow> (Some value, conditions)
      | Inl ArithOutOfDomain \<Rightarrow> (None, conditions\<lparr>fcs_conditions := insert CondOutOfDomain (fcs_conditions conditions)\<rparr>)
      | Inl _ \<Rightarrow> (None, conditions\<lparr>fcs_conditions := insert CondArithmeticInvalid (fcs_conditions conditions)\<rparr>))"

definition evaluate_reversal ::
  "reversal_policy \<Rightarrow> i128 \<Rightarrow> i128 \<Rightarrow> i128 \<Rightarrow> feature_conditions \<Rightarrow> feature_authoring_error + feature_observation" where
  "evaluate_reversal policy anchor extreme current conditions =
     (if fcs_name conditions \<noteq> ReversalFromExtreme then Inl InvalidFeatureConditions
      else if reversal_is_critical policy \<and> CondDirectionUnknown \<in> fcs_conditions conditions then Inl InvalidFeatureConditions
      else
        case policy of
          ReversalRequired direction \<Rightarrow>
            (case reversal_outcome
                (reversal_from_extreme (case direction of KnownUp \<Rightarrow> UpDirection | KnownDown \<Rightarrow> DownDirection) anchor extreme current)
                conditions of
               (value, conditions) \<Rightarrow> evaluate_feature_inner ReversalFromExtreme value conditions policy)
        | _ \<Rightarrow>
            Inr \<lparr>fo_name = ReversalFromExtreme, fo_value = Some 0, fo_quality = ValidatedQuality, fo_reason = ObservationValid,
              fo_reversal_policy = Some policy\<rparr>)"

section \<open>Rounding\<close>

text \<open>The nearest integer of a quotient, halves away from zero.\<close>

lemma rounded_div_spec:
  assumes "in_i128 n" and "0 < d" and "in_i128 d"
  shows "rounded_div n d = map_err (\<lambda>_. ArithOverflow) (round_result HalfAwayFromZero (of_int n / of_int d))"
proof -
  let ?q = "n sdiv d" and ?r = "n smod d"
  have "0 \<le> x mod d \<and> x mod d < d" for x using assms(2) by simp
  from this [of n] this [of "- n"] have r: "\<bar>?r\<bar> < d" unfolding smod_pos [OF assms(2)] by (cases "n < 0") simp_all
  have two: "checked_uint 128 (nat \<bar>?r\<bar> * 2) = Some (nat \<bar>?r\<bar> * 2)"
    using r assms(3) by (simp add: checked_uint_def in_i128_def nat_less_iff)
  show ?thesis
  proof (cases "?r = 0")
    case True
    with assms two have "rounded_div n d = Inr ?q" by (simp add: rounded_div_def)
    moreover obtain k where k: "n = d * k" using True assms(2) by (auto simp: smod_zero_iff)
    moreover have "?q = k" unfolding k using assms(2) by (rule sdiv_mult)
    moreover have "in_i128 ?q" using assms by (intro in_i128_sdiv) auto
    moreover have "round_spec HalfAwayFromZero (of_int n / of_int d) = Some k"
      using assms(2) k round_spec_of_int [of HalfAwayFromZero k] by simp
    ultimately show ?thesis by (simp add: round_result_def)
  next
    case False
    then have "n \<noteq> 0" by auto
    have half: "\<bar>?r\<bar> > \<bar>d sdiv 2\<bar> \<or> \<bar>?r\<bar> * 2 = \<bar>d\<bar>" if "\<not> \<bar>?r\<bar> * 2 < \<bar>d\<bar>"
      using that assms(2) by (auto simp: sdiv_pos)
    have "rounded_div n d = map_err (\<lambda>_. ArithOverflow) (round_quotient HalfAwayFromZero n d ?q ?r)"
      using assms(2) two half \<open>n \<noteq> 0\<close> r
      by (auto simp: rounded_div_def arith_def checked_away_def ok_or_def Let_def split: option.splits)
    with round_quotient_spec [OF assms(2,1) False] show ?thesis by simp
  qed
qed

section \<open>Printing\<close>

lemma digit_char: "k < 10 \<Longrightarrow> is_ascii_digit (char_of (48 + k)) \<and> digit_value (char_of (48 + k)) = k"
  by (simp add: is_ascii_digit_def digit_value_def)

lemma show_nat_digits: "list_all is_ascii_digit (show_nat n) \<and> digits_value (show_nat n) = n \<and> show_nat n \<noteq> []"
proof (induction n rule: show_nat.induct)
  case (1 n)
  show ?case
  proof (cases "n < 10")
    case True
    have "digits_value [c] = digit_value c" for c using digits_value_snoc [of "[]" c] by simp
    with True digit_char [OF True] show ?thesis by (simp add: show_nat.simps [of n])
  next
    case False
    with 1 digit_char [of "n mod 10"] show ?thesis by (simp add: show_nat.simps [of n])
  qed
qed

lemma digits_value_append: "digits_value (xs @ ys) = digits_value xs * 10 ^ length ys + digits_value ys"
proof (induction ys rule: rev_induct)
  case (snoc y ys)
  have "digits_value (xs @ ys @ [y]) = digits_value (xs @ ys) * 10 + digit_value y" by (metis append_assoc digits_value_snoc)
  with snoc show ?case by (simp add: algebra_simps)
qed simp

lemma show_nat_length: "n < 10 ^ Suc k \<Longrightarrow> length (show_nat n) \<le> Suc k"
proof (induction k arbitrary: n)
  case 0
  then show ?case by (simp add: show_nat.simps [of n])
next
  case (Suc k)
  show ?case
  proof (cases "n < 10")
    case False
    have "n div 10 < 10 ^ Suc k" using Suc.prems by (simp add: less_mult_imp_div_less mult.commute)
    from Suc.IH [OF this] False show ?thesis by (simp add: show_nat.simps [of n])
  qed (simp add: show_nat.simps [of n])
qed

lemma zero_digit: "is_ascii_digit (CHR ''0'')" "digit_value (CHR ''0'') = 0"
  by (simp_all add: is_ascii_digit_def digit_value_def)

lemma pad8_digits:
  assumes "n < 10 ^ 8"
  shows "list_all is_ascii_digit (pad8 (show_nat n)) \<and> digits_value (pad8 (show_nat n)) = n \<and> length (pad8 (show_nat n)) = 8"
proof -
  have "length (show_nat n) \<le> 8" using show_nat_length [of n 7] assms by simp
  moreover have "digits_value (replicate k (CHR ''0'') @ s) = digits_value s" for k s by (rule digits_value_zeros) simp
  ultimately show ?thesis using show_nat_digits [of n] by (auto simp: pad8_def zero_digit list_all_iff)
qed

lemma drop_trailing_zeros_split:
  "\<exists>k. s = drop_trailing_zeros s @ replicate k (CHR ''0'') \<and> (drop_trailing_zeros s = [] \<or> last (drop_trailing_zeros s) \<noteq> CHR ''0'')"
proof -
  let ?z = "\<lambda>c. c = CHR ''0''"
  have zeros: "takeWhile ?z xs = replicate (length (takeWhile ?z xs)) (CHR ''0'')" for xs by (induction xs) simp_all
  have "s = drop_trailing_zeros s @ rev (takeWhile ?z (rev s))"
    by (simp add: drop_trailing_zeros_def flip: rev_append)
  then have "s = drop_trailing_zeros s @ replicate (length (takeWhile ?z (rev s))) (CHR ''0'')"
    by (subst (asm) zeros) simp
  moreover have "drop_trailing_zeros s = [] \<or> last (drop_trailing_zeros s) \<noteq> CHR ''0''"
    using hd_dropWhile [of ?z "rev s"] by (auto simp: drop_trailing_zeros_def last_rev)
  ultimately show ?thesis by blast
qed

lemma digits_value_replicate_zero: "digits_value (s @ replicate k (CHR ''0'')) = digits_value s * 10 ^ k"
proof -
  have "digits_value (replicate k (CHR ''0'')) = 0" using digits_value_zeros [of "replicate k (CHR ''0'')" "[]"] by simp
  then show ?thesis by (simp add: digits_value_append)
qed

text \<open>
  Printing a scaled value is exact and reversible.  The canonical text of a value at eight decimals is read back by
  \<^verbatim>\<open>Fixed::parse_decimal\<close> as the same decimal number, with at most eight fraction digits.
\<close>

theorem canonical_decimal_round_trip:
  assumes "\<bar>v\<bar> < 2 ^ 127"
  shows "\<exists>f. parse_decimal (canonical_decimal v) = Inr f \<and> fixed_value f = of_int v / 10 ^ 8 \<and> scale f \<le> 8"
proof (cases "v = 0")
  case True
  have "parse_decimal ''0'' = Inr \<lparr>coefficient = signed_value [] (digits_value (''0'' @ [])), scale = length ([] :: string)\<rparr>"
    by (rule parse_decimal_complete) (simp_all add: decimal_text_def zero_digit digits_value_def)
  with True show ?thesis by (simp add: canonical_decimal_def fixed_value_def signed_value_def digits_value_def zero_digit)
next
  case False
  define m where "m = nat \<bar>v\<bar>"
  define sign where "sign = (if v < 0 then ''-'' else [])"
  define ip where "ip = show_nat (m div nat SCALE)"
  define frac where "frac = m mod nat SCALE"
  define fp where "fp = (if frac = 0 then [] else drop_trailing_zeros (pad8 (show_nat frac)))"
  have S: "nat SCALE = 10 ^ 8" by (simp add: SCALE_def)
  have frac: "frac < 10 ^ 8" by (simp add: frac_def S)
  obtain k where k: "frac \<noteq> 0 \<longrightarrow> pad8 (show_nat frac) = fp @ replicate k (CHR ''0'')"
    using drop_trailing_zeros_split [of "pad8 (show_nat frac)"] by (auto simp: fp_def)
  have whole: "length fp + k = 8" if "frac \<noteq> 0"
  proof -
    have "length (fp @ replicate k (CHR ''0'')) = 8" using pad8_digits [OF frac] k that by metis
    then show ?thesis by simp
  qed
  then have len: "length fp \<le> 8" by (cases "frac = 0") (simp add: fp_def, linarith)
  have fv: "digits_value fp * 10 ^ (8 - length fp) = frac"
  proof (cases "frac = 0")
    case F: False
    have "frac = digits_value (fp @ replicate k (CHR ''0''))" using pad8_digits [OF frac] k F by simp
    then show ?thesis using whole [OF F] by (simp add: digits_value_replicate_zero flip: whole [OF F])
  qed (simp add: fp_def)
  have "list_all is_ascii_digit fp"
  proof (cases "frac = 0")
    case F: False
    have "list_all is_ascii_digit (fp @ replicate k (CHR ''0''))" using pad8_digits [OF frac] k F by metis
    then show ?thesis by simp
  qed (simp add: fp_def)
  then have shape: "decimal_text sign ip fp (canonical_decimal v)"
    using False k show_nat_digits [of "m div nat SCALE"]
    by (auto simp: decimal_text_def canonical_decimal_def Let_def m_def sign_def ip_def fp_def frac_def)
  have whole_value: "digits_value (ip @ fp) * 10 ^ (8 - length fp) = m"
  proof -
    have "digits_value (ip @ fp) * 10 ^ (8 - length fp) = (m div 10 ^ 8) * (10 ^ length fp * 10 ^ (8 - length fp)) + frac"
      using fv show_nat_digits [of "m div nat SCALE"] by (simp add: digits_value_append ip_def S algebra_simps)
    also have "(10 :: nat) ^ length fp * 10 ^ (8 - length fp) = 10 ^ 8" using len by (simp flip: power_add)
    finally show ?thesis by (simp add: frac_def S)
  qed
  have "digits_value (ip @ fp) \<le> m" using whole_value by (metis mult.right_neutral mult_le_mono2 one_le_numeral one_le_power)
  moreover have "m < 2 ^ 127" using assms by (simp add: m_def nat_less_iff)
  ultimately have "parse_decimal (canonical_decimal v) = Inr \<lparr>coefficient = signed_value sign (digits_value (ip @ fp)), scale = length fp\<rparr>"
    using shape len by (intro parse_decimal_complete) auto
  moreover have "(of_int (signed_value sign (digits_value (ip @ fp))) :: rat) / 10 ^ length fp = of_int v / 10 ^ 8"
  proof -
    have "signed_value sign (digits_value (ip @ fp)) * 10 ^ (8 - length fp) = v"
      using arg_cong [OF whole_value, of int] by (auto simp: signed_value_def sign_def m_def)
    then have "of_int v = (of_int (signed_value sign (digits_value (ip @ fp))) * 10 ^ (8 - length fp) :: rat)"
      by (metis of_int_mult of_int_numeral of_int_power)
    moreover have "(10 :: rat) ^ 8 = 10 ^ length fp * 10 ^ (8 - length fp)" using len by (simp flip: power_add)
    ultimately show ?thesis by (metis nonzero_mult_divide_mult_cancel_right power_not_zero zero_neq_numeral)
  qed
  ultimately show ?thesis using len by (simp add: fixed_value_def)
qed

theorem canonical_decimal_round_trip_witness:
  "canonical_decimal (- 150000000) = ''-1.5'' \<and>
   (\<exists>f. parse_decimal ''-1.5'' = Inr f \<and> fixed_value f = of_int (- 150000000) / 10 ^ 8 \<and> scale f \<le> 8)"
proof -
  have "canonical_decimal (- 150000000) = ''-1.5''"
    by (simp add: canonical_decimal_def SCALE_def Let_def pad8_def drop_trailing_zeros_def show_nat.simps char_of_def bit_0)
  with canonical_decimal_round_trip [of "- 150000000"] show ?thesis by simp
qed

section \<open>A projected book fails closed\<close>

text \<open>The calls on a projected book, each with its result.\<close>

inductive projection_step :: "book_projection \<Rightarrow> projection_error + unit \<Rightarrow> book_projection \<Rightarrow> bool" where
  dropped: "projection_step p (Inr ()) (projection_invalidate p)"
| permitted: "projection_step p (Inr ()) (permit_resnapshot p)"
| native: "snapshot_native p v seq at_ns = (r, p') \<Longrightarrow> projection_step p r p'"
| derived: "snapshot_derived p v at_ns = (r, p') \<Longrightarrow> projection_step p r p'"
| changed: "delta_native p d seq at_ns = (r, p') \<Longrightarrow> projection_step p r p'"
| changed_v2: "delta_native_v2 p d seq at_ns = (r, p') \<Longrightarrow> projection_step p r p'"
| changed_derived: "delta_derived p d at_ns = (r, p') \<Longrightarrow> projection_step p r p'"

inductive projection_reach :: "book_projection \<Rightarrow> bool" where
  start: "projection_reach (projection_new ps qs dep)"
| step: "projection_reach p \<Longrightarrow> projection_step p r p' \<Longrightarrow> projection_reach p'"

fun native_sequence :: "book_sequence_mode \<Rightarrow> w64 option" where
  "native_sequence (NativeSnapshot n) = Some n"
| "native_sequence (NativeDelta n) = Some n"
| "native_sequence DerivedSequence = None"

definition closed_projection :: "book_projection \<Rightarrow> bool" where
  "closed_projection p \<longleftrightarrow> bp_resyncing p \<and> validity (bp_book p) \<noteq> Valid \<and> bids (bp_book p) = [] \<and> asks (bp_book p) = [] \<and>
     bp_available_at_ns p = None \<and> bp_sequence_mode p = None"

definition live_projection :: "book_projection \<Rightarrow> bool" where
  "live_projection p \<longleftrightarrow> \<not> bp_resyncing p \<and> validity (bp_book p) = Valid \<and> bp_available_at_ns p \<noteq> None \<and>
     (case bp_sequence_mode p of None \<Rightarrow> False | Some mode \<Rightarrow> native_sequence mode = sequence (bp_book p))"

definition projection_inv :: "book_projection \<Rightarrow> bool" where
  "projection_inv p \<longleftrightarrow> book_reachable (bp_book p) \<and> (closed_projection p \<or> live_projection p)"

lemma reachable_cleared: "book_reachable b \<Longrightarrow> v \<noteq> Valid \<Longrightarrow> book_reachable (set_validity (clear b) v)"
  by (rule book_reachable.step [OF book_reachable.step [OF _ book_step.cleared] book_step.validated]) simp_all

lemma invalidate_closed:
  assumes "book_reachable (bp_book p)"
  shows "closed_projection (projection_invalidate p) \<and> book_reachable (bp_book (projection_invalidate p))"
    and "closed_projection (permit_resnapshot p) \<and> book_reachable (bp_book (permit_resnapshot p))"
  using reachable_cleared [OF assms]
  by (simp_all add: closed_projection_def projection_invalidate_def permit_resnapshot_def set_validity_def clear_def)

lemma atomic_committed:
  assumes "book_reachable b" and "apply_changes_atomic b cs = (Inr u, c)"
  shows "validity c = Valid \<and> sequence c = sequence b"
proof -
  have sorted: "book_sorted b" and pos: "levels_positive b" using book_reachable_inv [OF assms(1)] by (auto simp: book_inv_def)
  from assms(2) obtain kvs where kvs: "prepare_changes b cs = Inr kvs" and c: "c = trim_depth (put_all level_put kvs b)" "validity b = Valid"
    unfolding apply_changes_atomic_eq [OF sorted] candidate_commit_def
    by (auto simp: Let_def split: if_splits sum.splits)
  with candidate_keeps(3) [OF kvs sorted pos] show ?thesis by (auto dest: frame_fields)
qed

lemma apply_projected_result:
  assumes "book_reachable (bp_book p)" and "apply_projected p d = (r, p')"
  shows "book_reachable (bp_book p')"
    and "r = Inl e \<Longrightarrow> closed_projection p'"
    and "r = Inr u \<Longrightarrow> \<exists>c. p' = p\<lparr>bp_book := c\<rparr> \<and> validity c = Valid \<and> sequence c = sequence (bp_book p)"
proof -
  obtain res c where run: "apply_changes_atomic (bp_book p) (bd_changes d) = (res, c)" by fastforce
  have c: "book_reachable c" using book_reachable.step [OF assms(1) book_step.batch [OF run]] .
  from assms(2) run c show "book_reachable (bp_book p')" "r = Inl e \<Longrightarrow> closed_projection p'"
    "r = Inr u \<Longrightarrow> \<exists>c. p' = p\<lparr>bp_book := c\<rparr> \<and> validity c = Valid \<and> sequence c = sequence (bp_book p)"
    using invalidate_closed(1) [of "p\<lparr>bp_book := c\<rparr>"] atomic_committed [OF assms(1)]
    by (auto simp: apply_projected_def split: sum.splits)
qed

lemma projected_snapshot_result:
  assumes "book_reachable (bp_book p)" and "projection_apply_snapshot p v seq at_ns = (r, p')"
  shows "book_reachable (bp_book p')"
    and "r = Inl e \<Longrightarrow> closed_projection p'"
    and "r = Inr u \<Longrightarrow> \<not> bp_resyncing p' \<and> validity (bp_book p') = Valid \<and> bp_available_at_ns p' = Some at_ns \<and>
      sequence (bp_book p') = seq"
proof -
  obtain res c where run: "apply_snapshot (bp_book p) (map (\<lambda>l. (bl_price l, bl_quantity l)) (bs_bids v))
      (map (\<lambda>l. (bl_price l, bl_quantity l)) (bs_asks v)) seq = (res, c)" by fastforce
  have c: "book_reachable c" using book_reachable.step [OF assms(1) book_step.snapshot [OF run]] .
  have ok: "validity c = Valid \<and> sequence c = seq" if "res = Inr ()"
    using run that by (auto simp: apply_snapshot_def Let_def split: sum.splits)
  from assms(2) run c ok show "book_reachable (bp_book p')" "r = Inl e \<Longrightarrow> closed_projection p'"
    "r = Inr u \<Longrightarrow> \<not> bp_resyncing p' \<and> validity (bp_book p') = Valid \<and> bp_available_at_ns p' = Some at_ns \<and>
      sequence (bp_book p') = seq"
    using invalidate_closed(1) [of "p\<lparr>bp_book := c\<rparr>"] invalidate_closed(1) [OF assms(1)]
    by (auto simp: projection_apply_snapshot_def split: sum.splits if_splits)
qed

lemma snapshot_step:
  assumes "book_reachable (bp_book p)"
    and "sthen (projection_apply_snapshot p v seq at_ns) (\<lambda>_ q. (Inr (), q\<lparr>bp_sequence_mode := Some mode\<rparr>)) = (r, p')"
    and "native_sequence mode = seq"
  shows "projection_inv p' \<and> (case r of Inl _ \<Rightarrow> closed_projection p' | Inr _ \<Rightarrow> True)"
proof -
  obtain res q where run: "projection_apply_snapshot p v seq at_ns = (res, q)" by fastforce
  with assms projected_snapshot_result [OF assms(1) run] show ?thesis
    by (cases res) (auto simp: projection_inv_def live_projection_def)
qed

lemma delta_step:
  assumes "projection_inv p" and "sthen (apply_projected p d) (\<lambda>_ q. (Inr (), f q)) = (r, p')"
    and "live_projection p"
    and "\<And>c. validity c = Valid \<Longrightarrow> sequence c = sequence (bp_book p) \<Longrightarrow> book_reachable c \<Longrightarrow>
      live_projection (f (p\<lparr>bp_book := c\<rparr>)) \<and> book_reachable (bp_book (f (p\<lparr>bp_book := c\<rparr>)))"
  shows "projection_inv p' \<and> (case r of Inl _ \<Rightarrow> closed_projection p' | Inr _ \<Rightarrow> True)"
proof -
  obtain res q where run: "apply_projected p d = (res, q)" by fastforce
  have b: "book_reachable (bp_book p)" using assms(1) by (simp add: projection_inv_def)
  show ?thesis
  proof (cases res)
    case (Inl e)
    with assms(2) run apply_projected_result(1) [OF b run] apply_projected_result(2) [OF b run Inl] show ?thesis
      by (auto simp: projection_inv_def)
  next
    case (Inr u)
    from apply_projected_result(3) [OF b run Inr] obtain c
      where c: "q = p\<lparr>bp_book := c\<rparr>" "validity c = Valid" "sequence c = sequence (bp_book p)" by blast
    with apply_projected_result(1) [OF b run] assms(4) [of c] Inr assms(2) run show ?thesis
      by (auto simp: projection_inv_def)
  qed
qed

lemma advance_native_live:
  assumes "live_projection p" and "validity c = Valid" and "book_reachable c"
  shows "live_projection (advance_native n at_ns (p\<lparr>bp_book := c\<rparr>)) \<and>
    book_reachable (bp_book (advance_native n at_ns (p\<lparr>bp_book := c\<rparr>)))"
  using assms book_reachable.step [OF assms(3) book_step.numbered [of c n]]
  by (simp add: live_projection_def advance_native_def set_sequence_def)

lemma projection_step_inv:
  assumes "projection_step p r p'" and inv: "projection_inv p"
  shows "projection_inv p' \<and> (case r of Inl _ \<Rightarrow> closed_projection p' | Inr _ \<Rightarrow> True)"
proof -
  have b: "book_reachable (bp_book p)" using inv by (simp add: projection_inv_def)
  have gone: "projection_inv (projection_invalidate p) \<and> closed_projection (projection_invalidate p)"
    "projection_inv (permit_resnapshot p) \<and> closed_projection (permit_resnapshot p)"
    using invalidate_closed [OF b] by (simp_all add: projection_inv_def)
  have live: "live_projection p" if "bp_sequence_mode p = Some mode" for mode
    using inv that by (auto simp: projection_inv_def closed_projection_def)
  have native: "projection_inv p' \<and> (case r of Inl _ \<Rightarrow> closed_projection p' | Inr _ \<Rightarrow> True)"
    if "sthen (apply_projected p d) (\<lambda>_ q. (Inr (), advance_native n at_ns q)) = (r, p')" "bp_sequence_mode p \<noteq> None"
    for d n at_ns
    using that delta_step [OF inv that(1) live] advance_native_live [OF live] by blast
  from assms(1) show ?thesis
  proof cases
    case (native v seq at_ns)
    then show ?thesis
      using gone(1) snapshot_step [OF b, of v "Some (seq_last seq)" at_ns "NativeSnapshot (seq_last seq)" r p']
      by (auto simp: snapshot_native_def split: if_splits)
  next
    case (derived v at_ns)
    then show ?thesis using snapshot_step [OF b, of v None at_ns DerivedSequence r p'] by (simp add: snapshot_derived_def)
  next
    case (changed d seq at_ns)
    then show ?thesis using gone(1) native [of d "seq_last seq" at_ns]
      by (auto simp: delta_native_def Let_def split: if_splits option.splits book_sequence_mode.splits)
  next
    case (changed_v2 d seq at_ns)
    then show ?thesis using gone(1) native [of d "seq_last seq" at_ns]
      by (auto simp: delta_native_v2_def Let_def split: if_splits option.splits book_sequence_mode.splits)
  next
    case (changed_derived d at_ns)
    show ?thesis
    proof (cases "bp_sequence_mode p = Some DerivedSequence")
      case True
      show ?thesis
      proof (rule delta_step [OF inv _ live [OF True]])
        show "sthen (apply_projected p d) (\<lambda>_ q. (Inr (), q\<lparr>bp_available_at_ns := Some at_ns\<rparr>)) = (r, p')"
          using changed_derived True by (simp add: delta_derived_def)
      qed (use live [OF True] in \<open>auto simp: live_projection_def split: option.splits\<close>)
    qed (use changed_derived gone in \<open>auto simp: delta_derived_def\<close>)
  qed (use gone in simp_all)
qed

lemma projection_reach_inv: "projection_reach p \<Longrightarrow> projection_inv p"
proof (induction rule: projection_reach.induct)
  case (start ps qs dep)
  show ?case using book_reachable.start by (simp add: projection_inv_def closed_projection_def projection_new_def book_new_def)
qed (use projection_step_inv in blast)

text \<open>
  C32: A projected book fails closed.  After any calls, a call that is answered with an error leaves a book that answers no
  query: no quote and no depth.  A book that is not resynchronising is valid, knows when it became available,
  and its sequence number is the one of the last native message.
\<close>

theorem projected_book_fails_closed:
  assumes "projection_reach p" and "projection_step p r p'"
  shows "(case r of Inl _ \<Rightarrow> bp_resyncing p' | Inr _ \<Rightarrow> True) \<and>
    (if bp_resyncing p' then best_bid (bp_book p') = None \<and> best_ask (bp_book p') = None \<and>
       depth_10bps p' t = Inl ArithOutOfDomain \<and> bids (bp_book p') = [] \<and> asks (bp_book p') = []
     else validity (bp_book p') = Valid \<and> bp_available_at_ns p' \<noteq> None \<and>
       (\<exists>mode. bp_sequence_mode p' = Some mode \<and> native_sequence mode = sequence (bp_book p')))"
proof -
  note inv = projection_step_inv [OF assms(2) projection_reach_inv [OF assms(1)]]
  then have err: "case r of Inl _ \<Rightarrow> bp_resyncing p' | Inr _ \<Rightarrow> True"
    by (cases r) (simp_all add: closed_projection_def)
  show ?thesis
  proof (cases "bp_resyncing p'")
    case True
    with inv have "closed_projection p'" by (auto simp: projection_inv_def live_projection_def)
    with err True show ?thesis by (simp add: closed_projection_def best_bid_def best_ask_def depth_10bps_def)
  next
    case False
    with inv have "live_projection p'" by (auto simp: projection_inv_def closed_projection_def)
    with err False show ?thesis by (auto simp: live_projection_def split: option.splits)
  qed
qed

definition sample_level_at :: "int \<times> int \<Rightarrow> book_level" where
  "sample_level_at = (\<lambda>(p, q). \<lparr>bl_price = sample_px p, bl_quantity = sample_qty q\<rparr>)"

definition sample_full :: book_snapshot where
  "sample_full = \<lparr>bs_bids = map sample_level_at [(10000, 1000), (9900, 2000), (9800, 3000)],
     bs_asks = map sample_level_at [(10100, 1500), (10200, 2500)], bs_depth = None, bs_checksum = None\<rparr>"

definition sample_projection :: book_projection where
  "sample_projection = \<lparr>bp_book = sample_book, bp_price_scale = 2, bp_quantity_scale = 3, bp_available_at_ns = Some 5,
     bp_resyncing = False, bp_sequence_mode = Some (NativeSnapshot 1)\<rparr>"

lemma sample_native:
  "snapshot_native (projection_new 2 3 (Some 2)) sample_full \<lparr>seq_first = 1, seq_last = 1\<rparr> 5 = (Inr (), sample_projection)"
proof -
  have "strictly_sorted sample_full 2 3" unfolding sample_full_def sample_level_at_def sample_defs by code_simp
  then show ?thesis using sample_snapshot
    by (simp add: snapshot_native_def projection_apply_snapshot_def projection_new_def sample_full_def sample_level_at_def
        sample_projection_def MAX_SEQUENCE_def)
qed

theorem projected_book_fails_closed_witness:
  "validity (bp_book sample_projection) = Valid \<and>
   (\<exists>p'. delta_native sample_projection \<lparr>bd_changes = [], bd_checksum = None\<rparr> \<lparr>seq_first = 5, seq_last = 5\<rparr> 7 =
      (Inl ProjectionSequenceGap, p') \<and> bp_resyncing p' \<and> best_bid (bp_book p') = None)"
proof -
  let ?d = "\<lparr>bd_changes = [], bd_checksum = None\<rparr> :: book_delta"
  have gap: "delta_native sample_projection ?d \<lparr>seq_first = 5, seq_last = 5\<rparr> 7 =
      (Inl ProjectionSequenceGap, projection_invalidate sample_projection)"
    by (simp add: delta_native_def sample_projection_def checked_next_def)
  have "projection_reach sample_projection"
    by (rule projection_reach.step [OF projection_reach.start projection_step.native [OF sample_native]])
  from projected_book_fails_closed [OF this projection_step.changed [OF gap], of 0]
  have "bp_resyncing (projection_invalidate sample_projection)" "best_bid (bp_book (projection_invalidate sample_projection)) = None"
    by simp_all
  moreover have "validity (bp_book sample_projection) = Valid" by (simp add: sample_projection_def sample_book_def)
  ultimately show ?thesis using gap by blast
qed

section \<open>Validated envelopes\<close>

text \<open>A row the evaluation functions author under a policy.\<close>

definition authored :: "reversal_policy \<Rightarrow> feature_observation \<Rightarrow> bool" where
  "authored policy row \<longleftrightarrow>
     (\<exists>name v c. evaluate_feature name v c policy = Inr row) \<or>
     (\<exists>anchor extreme current c. evaluate_reversal policy anchor extreme current c = Inr row)"

definition row_ok :: "reversal_policy \<Rightarrow> feature_observation \<Rightarrow> bool" where
  "row_ok policy row \<longleftrightarrow>
     (fo_quality row \<in> {ValidatedQuality, DegradedQuality} \<longleftrightarrow> fo_value row \<noteq> None) \<and>
     (fo_quality row = ValidatedQuality \<longleftrightarrow> fo_reason row = ObservationValid) \<and>
     (fo_name row = ReversalFromExtreme \<and> \<not> reversal_is_critical policy \<longrightarrow> fo_quality row = ValidatedQuality)"

lemma inner_row_ok:
  assumes "evaluate_feature_inner name v c policy = Inr row" and "name = ReversalFromExtreme \<longrightarrow> reversal_is_critical policy"
  shows "row_ok policy row"
proof -
  obtain reason quality where rq: "reason_and_quality name (fcs_conditions c) policy = Some (reason, quality)"
    using assms(1) by (auto simp: evaluate_feature_inner_def result_iffs split: if_splits)
  then have "quality = ValidatedQuality \<longleftrightarrow> reason = ObservationValid"
    by (auto simp: reason_and_quality_def split: if_splits)
  with assms rq show ?thesis
    by (auto simp: evaluate_feature_inner_def row_ok_def result_iffs split: if_splits)
qed

lemma authored_row_ok: "authored policy row \<Longrightarrow> row_ok policy row"
proof (unfold authored_def, elim disjE exE)
  fix name v c assume "evaluate_feature name v c policy = Inr row"
  then show ?thesis by (auto simp: evaluate_feature_def split: if_splits intro: inner_row_ok)
next
  fix anchor extreme current c assume run: "evaluate_reversal policy anchor extreme current c = Inr row"
  show ?thesis
  proof (cases policy)
    case (ReversalRequired d)
    with run obtain v c' where "evaluate_feature_inner ReversalFromExtreme v c' policy = Inr row"
      by (auto simp: evaluate_reversal_def split: if_splits prod.splits)
    then show ?thesis by (rule inner_row_ok) (simp add: ReversalRequired)
  qed (use run in \<open>auto simp: evaluate_reversal_def row_ok_def split: if_splits\<close>)
qed

lemma critical_or_optional: "is_critical name policy \<or> is_optional name \<or> name = ReversalFromExtreme \<and> \<not> reversal_is_critical policy"
  by (cases name) (simp_all add: is_critical_def is_optional_def)


definition sample_row :: "feature_name \<Rightarrow> feature_observation" where
  "sample_row name = \<lparr>fo_name = name, fo_value = Some 0, fo_quality = ValidatedQuality, fo_reason = ObservationValid,
     fo_reversal_policy = (if name = ReversalFromExtreme then Some PreEventZero else None)\<rparr>"

lemma sample_row_authored: "authored PreEventZero (sample_row name)"
proof (cases "name = ReversalFromExtreme")
  case True
  have "evaluate_reversal PreEventZero 0 0 0 \<lparr>fcs_name = ReversalFromExtreme, fcs_conditions = {}\<rparr> = Inr (sample_row name)"
    by (simp add: evaluate_reversal_def sample_row_def True)
  then show ?thesis unfolding authored_def by blast
next
  case False
  then have "evaluate_feature name (Some 0) \<lparr>fcs_name = name, fcs_conditions = {}\<rparr> PreEventZero = Inr (sample_row name)"
    by (simp add: evaluate_feature_def evaluate_feature_inner_def reason_and_quality_def sample_row_def ok_or_def)
  then show ?thesis unfolding authored_def by blast
qed


end
