(* ===== verification/Mechanics.thy ===== *)
theory Mechanics
  imports Features
begin

text \<open>
  The phase machine of \<^verbatim>\<open>event-pulse/src/mechanics.rs\<close>: evidence, transitions with dwell times and the loop that
  advances the machine.  The loop ends; its result does not depend on how often it is called; dwell times are exact;
  evidence that is not valid keeps the machine in the invalid phase.
\<close>

section \<open>Data\<close>

datatype phase = NormalPhase | Buildup | Ignition | Cascade | Exhaustion | Aftermath | InvalidPhase

fun phase_as_str :: "phase \<Rightarrow> string" where
  "phase_as_str NormalPhase = ''NORMAL''"
| "phase_as_str Buildup = ''BUILDUP''"
| "phase_as_str Ignition = ''IGNITION''"
| "phase_as_str Cascade = ''CASCADE''"
| "phase_as_str Exhaustion = ''EXHAUSTION''"
| "phase_as_str Aftermath = ''AFTERMATH''"
| "phase_as_str InvalidPhase = ''INVALID''"

record family_flags =
  ff_price :: bool
  ff_flow :: bool
  ff_book :: bool
  ff_derivatives :: bool
  ff_breadth :: bool

definition family_count :: "family_flags \<Rightarrow> usize" where
  "family_count f = length (filter (\<lambda>active. active) [ff_price f, ff_flow f, ff_book f, ff_derivatives f, ff_breadth f])"

definition family_intensity :: "family_flags \<Rightarrow> i128" where
  "family_intensity f =
     of_bool (ff_price f) * 25000000 + of_bool (ff_flow f) * 25000000 + of_bool (ff_book f) * 15000000 +
     of_bool (ff_derivatives f) * 20000000 + of_bool (ff_breadth f) * 15000000"

record mechanics_evidence =
  me_available_at_ns :: i64
  me_direction :: pulse_direction
  me_families :: family_flags
  me_intensity :: i128
  me_confidence :: i128
  me_reversal_risk :: i128
  me_valid :: bool
  me_fully_warmed :: bool
  me_spread_bps :: i128

datatype phase_error = TimeRegression | ScoreDomain

record phase_candidate =
  cn_target :: phase
  cn_start_ns :: i64
  cn_dwell_ns :: i64

record phase_machine =
  pm_phase :: phase
  pm_evidence :: "mechanics_evidence option"
  pm_candidate :: "phase_candidate option"
  pm_now_ns :: "i64 option"

definition phase_machine_new :: phase_machine where
  "phase_machine_new = \<lparr>pm_phase = NormalPhase, pm_evidence = None, pm_candidate = None, pm_now_ns = None\<rparr>"

section \<open>Transitions\<close>

definition high_evidence :: "mechanics_evidence \<Rightarrow> bool" where
  "high_evidence e \<longleftrightarrow> 80000000 \<le> me_intensity e \<and> ff_price (me_families e) \<and> ff_flow (me_families e)"

definition spreading :: "mechanics_evidence \<Rightarrow> bool" where
  "spreading e \<longleftrightarrow> ff_derivatives (me_families e) \<or> ff_breadth (me_families e)"

definition transition :: "phase \<Rightarrow> mechanics_evidence \<Rightarrow> (phase \<times> i64) option" where
  "transition p e =
     (if \<not> me_valid e \<and> p \<noteq> InvalidPhase then Some (InvalidPhase, 0)
      else
        case p of
          InvalidPhase \<Rightarrow>
            if me_fully_warmed e \<and> me_intensity e < 40000000 then Some (NormalPhase, 1000000000) else None
        | NormalPhase \<Rightarrow>
            if high_evidence e then Some (Ignition, 100000000)
            else if 60000000 \<le> me_intensity e \<and> 80000000 \<le> me_confidence e \<and> 2 \<le> family_count (me_families e)
            then Some (Buildup, 250000000) else None
        | Buildup \<Rightarrow>
            if high_evidence e then Some (Ignition, 100000000)
            else if me_intensity e < 40000000 then Some (NormalPhase, 500000000) else None
        | Ignition \<Rightarrow>
            if 85000000 \<le> me_intensity e \<and> spreading e then Some (Cascade, 250000000)
            else if 65000000 \<le> me_reversal_risk e then Some (Exhaustion, 250000000) else None
        | Cascade \<Rightarrow>
            if 65000000 \<le> me_reversal_risk e \<or> me_intensity e \<le> 40000000 then Some (Exhaustion, 250000000) else None
        | Exhaustion \<Rightarrow>
            if 85000000 \<le> me_intensity e \<and> me_reversal_risk e < 35000000 \<and> spreading e then Some (Cascade, 250000000)
            else if me_intensity e < 60000000 \<and> 50000000 \<le> me_reversal_risk e then Some (Aftermath, 1000000000) else None
        | Aftermath \<Rightarrow>
            if 60000000 \<le> me_intensity e \<and> me_reversal_risk e < 35000000 then Some (Buildup, 500000000)
            else if me_intensity e < 40000000 \<and> me_reversal_risk e < 20000000 \<and> me_spread_bps e < 8 * SCALE
            then Some (NormalPhase, 5000000000) else None)"

definition refresh_candidate :: "i64 \<Rightarrow> phase_machine \<Rightarrow> phase_machine" where
  "refresh_candidate at_ns m =
     (case pm_evidence m of
        None \<Rightarrow> m
      | Some e \<Rightarrow>
          (case transition (pm_phase m) e of
             None \<Rightarrow> m\<lparr>pm_candidate := None\<rparr>
           | Some (target, dwell) \<Rightarrow>
               let fresh = \<lparr>cn_target = target, cn_start_ns = at_ns, cn_dwell_ns = dwell\<rparr> in
               m\<lparr>pm_candidate := Some (case pm_candidate m of
                   Some c \<Rightarrow> if cn_target c = target then c else fresh
                 | None \<Rightarrow> fresh)\<rparr>))"

text \<open>
  The nanoseconds of dwell still ahead of a phase under one valid evidence; every transition pays its dwell from it.
  The candidate a turn of the loop starts with can be arbitrary, the later ones are fresh.  Invalid evidence
  moves between two phases, a second apart.
\<close>

definition budget :: "mechanics_evidence \<Rightarrow> phase \<Rightarrow> int" where
  "budget e p =
     (if me_intensity e < 40000000 then
        (case p of NormalPhase \<Rightarrow> 0 | Buildup \<Rightarrow> 500000000 | Ignition \<Rightarrow> 1250000000 | Cascade \<Rightarrow> 1250000000
         | Exhaustion \<Rightarrow> 1000000000 | Aftermath \<Rightarrow> if me_reversal_risk e < 20000000 then 5000000000 else 0
         | InvalidPhase \<Rightarrow> 1000000000)
      else if 60000000 \<le> me_intensity e \<and> me_reversal_risk e < 35000000 then
        (case p of NormalPhase \<Rightarrow> 600000000 | Buildup \<Rightarrow> 350000000 | Ignition \<Rightarrow> 250000000 | Cascade \<Rightarrow> 0
         | Exhaustion \<Rightarrow> 250000000 | Aftermath \<Rightarrow> 850000000 | InvalidPhase \<Rightarrow> 0)
      else
        (case p of NormalPhase \<Rightarrow> 1850000000 | Buildup \<Rightarrow> 1600000000 | Ignition \<Rightarrow> 1500000000 | Cascade \<Rightarrow> 1250000000
         | Exhaustion \<Rightarrow> 1000000000 | Aftermath \<Rightarrow> 0 | InvalidPhase \<Rightarrow> 0))"

lemma transition_budget:
  assumes "me_valid e" and "transition p e = Some (q, d)"
  shows "0 < d \<and> d + budget e q \<le> budget e p"
  using assms by (cases p) (auto simp: transition_def budget_def high_evidence_def split: if_splits)

lemma budget_bounds: "0 \<le> budget e p \<and> budget e p \<le> 5000000000"
  by (cases p) (auto simp: budget_def)

lemma transition_invalid:
  assumes "\<not> me_valid e" and "transition p e = Some (q, d)"
  shows "if p = InvalidPhase then q = NormalPhase \<and> d = 1000000000 else q = InvalidPhase \<and> d = 0"
  using assms by (auto simp: transition_def split: if_splits)

definition turns_left :: "i64 \<Rightarrow> phase_machine \<Rightarrow> nat" where
  "turns_left at_ns m =
     (case pm_evidence m of
        None \<Rightarrow> 0
      | Some e \<Rightarrow>
          if me_valid e then nat (budget e (pm_phase m))
          else 2 * nat (at_ns - unwrap_or (pm_now_ns m) at_ns) + (if pm_phase m = InvalidPhase then 0 else 1))"

function advance_loop :: "i64 \<Rightarrow> phase_machine \<Rightarrow> (phase_error + unit) \<times> phase_machine" where
  "advance_loop at_ns m =
     (let m = refresh_candidate (unwrap_or (pm_now_ns m) at_ns) m in
      case pm_candidate m of
        None \<Rightarrow> (Inr (), m)
      | Some c \<Rightarrow>
          (case checked_i64 (cn_start_ns c + cn_dwell_ns c) of
             None \<Rightarrow> (Inl ScoreDomain, m)
           | Some deadline \<Rightarrow>
               if at_ns < deadline then (Inr (), m)
               else advance_loop at_ns (m\<lparr>pm_now_ns := Some deadline, pm_phase := cn_target c, pm_candidate := None\<rparr>)))"
  by pat_completeness auto
termination
proof (relation "measures [\<lambda>(a, m). if pm_candidate m = None then 0 else 1, \<lambda>(a, m). turns_left a m]", simp, goal_cases)
  case (1 at_ns m m' c deadline)
  let ?n = "m'\<lparr>pm_now_ns := Some deadline, pm_phase := cn_target c, pm_candidate := None\<rparr>"
  show ?case
  proof (cases "pm_candidate m")
    case None
    with 1 obtain e q d where e: "pm_evidence m = Some e" "transition (pm_phase m) e = Some (q, d)"
      by (auto simp: refresh_candidate_def split: option.splits)
    with 1 None have c: "cn_target c = q" "deadline = unwrap_or (pm_now_ns m) at_ns + d" "pm_evidence m' = Some e" "deadline \<le> at_ns"
      by (auto simp: refresh_candidate_def Let_def checked_i64_Some_iff)
    have "turns_left at_ns ?n < turns_left at_ns m"
    proof (cases "me_valid e")
      case True
      with e c transition_budget [OF True e(2)] budget_bounds [of e q] show ?thesis by (simp add: turns_left_def)
    next
      case False
      with e c transition_invalid [OF False e(2)] show ?thesis
        by (auto simp: turns_left_def split: if_splits option.splits)
    qed
    with None show ?thesis by simp
  qed simp
qed

declare advance_loop.simps [simp del]

definition phase_advance_to :: "i64 \<Rightarrow> phase_machine \<Rightarrow> (phase_error + unit) \<times> phase_machine" where
  "phase_advance_to at_ns m =
     (if (case pm_now_ns m of None \<Rightarrow> False | Some now \<Rightarrow> at_ns < now) then (Inl TimeRegression, m)
      else sthen (advance_loop at_ns m) (\<lambda>_ m. (Inr (), refresh_candidate at_ns (m\<lparr>pm_now_ns := Some at_ns\<rparr>))))"

definition in_ratio :: "i128 \<Rightarrow> bool" where
  "in_ratio x \<longleftrightarrow> 0 \<le> x \<and> x \<le> SCALE"

definition observe :: "mechanics_evidence \<Rightarrow> phase_machine \<Rightarrow> (phase_error + unit) \<times> phase_machine" where
  "observe e m =
     (if (case pm_now_ns m of None \<Rightarrow> False | Some now \<Rightarrow> me_available_at_ns e < now) then (Inl TimeRegression, m)
      else if \<not> in_ratio (me_intensity e) \<or> \<not> in_ratio (me_confidence e) \<or> \<not> in_ratio (me_reversal_risk e) \<or>
        me_intensity e \<noteq> family_intensity (me_families e) then (Inl ScoreDomain, m)
      else
        sthen (phase_advance_to (me_available_at_ns e) m) (\<lambda>_ m.
        let m = m\<lparr>pm_evidence := Some e\<rparr> in
        (Inr (), if \<not> me_valid e then m\<lparr>pm_phase := InvalidPhase, pm_candidate := None\<rparr>
                 else refresh_candidate (me_available_at_ns e) m)))"

section \<open>Refreshing\<close>

lemma refresh_fields [simp]:
  "pm_phase (refresh_candidate t m) = pm_phase m" "pm_evidence (refresh_candidate t m) = pm_evidence m"
  "pm_now_ns (refresh_candidate t m) = pm_now_ns m"
  by (simp_all add: refresh_candidate_def Let_def split: option.splits prod.splits)

lemma refresh_now: "refresh_candidate t (m\<lparr>pm_now_ns := n\<rparr>) = (refresh_candidate t m)\<lparr>pm_now_ns := n\<rparr>"
  by (simp add: refresh_candidate_def Let_def split: option.splits prod.splits)

lemma refresh_refresh [simp]: "refresh_candidate s (refresh_candidate t m) = refresh_candidate t m"
  by (auto simp: refresh_candidate_def Let_def split: option.splits prod.splits)

lemma refresh_candidate_None: "pm_candidate (refresh_candidate t m) = None \<longleftrightarrow>
    (case pm_evidence m of None \<Rightarrow> pm_candidate m = None | Some e \<Rightarrow> transition (pm_phase m) e = None)"
  by (auto simp: refresh_candidate_def Let_def split: option.splits prod.splits)

lemma refresh_candidate_Some:
  "pm_evidence m = Some e \<Longrightarrow> transition (pm_phase m) e = Some (q, d) \<Longrightarrow>
   pm_candidate (refresh_candidate t m) = Some (case pm_candidate m of
       Some c \<Rightarrow> if cn_target c = q then c else \<lparr>cn_target = q, cn_start_ns = t, cn_dwell_ns = d\<rparr>
     | None \<Rightarrow> \<lparr>cn_target = q, cn_start_ns = t, cn_dwell_ns = d\<rparr>)"
  by (simp add: refresh_candidate_def Let_def)

text \<open>The phase a candidate leaves determines its dwell.\<close>

lemma transition_dwell: "transition p e = Some (q, d) \<Longrightarrow> transition p e' = Some (q, d') \<Longrightarrow> d = d'"
  by (cases p) (auto simp: transition_def split: if_splits)

lemma transition_changes: "transition p e = Some (q, d) \<Longrightarrow> 0 \<le> d \<and> q \<noteq> p"
  by (cases p) (auto simp: transition_def split: if_splits)

text \<open>One turn of the loop, by what it does.\<close>

lemma advance_loop_cases:
  fixes at_ns m
  defines "r \<equiv> refresh_candidate (unwrap_or (pm_now_ns m) at_ns) m"
  obtains (stop) "pm_candidate r = None" "advance_loop at_ns m = (Inr (), r)"
  | (error) c where "pm_candidate r = Some c" "\<not> in_i64 (cn_start_ns c + cn_dwell_ns c)" "advance_loop at_ns m = (Inl ScoreDomain, r)"
  | (wait) c where "pm_candidate r = Some c" "at_ns < cn_start_ns c + cn_dwell_ns c" "in_i64 (cn_start_ns c + cn_dwell_ns c)"
      "advance_loop at_ns m = (Inr (), r)"
  | (turn) c where "pm_candidate r = Some c" "cn_start_ns c + cn_dwell_ns c \<le> at_ns" "in_i64 (cn_start_ns c + cn_dwell_ns c)"
      "advance_loop at_ns m = advance_loop at_ns (r\<lparr>pm_now_ns := Some (cn_start_ns c + cn_dwell_ns c), pm_phase := cn_target c, pm_candidate := None\<rparr>)"
proof (cases "pm_candidate r")
  case None
  then show ?thesis by (intro stop) (auto simp: r_def advance_loop.simps [of at_ns m] Let_def)
next
  case (Some c)
  consider "\<not> in_i64 (cn_start_ns c + cn_dwell_ns c)" | "in_i64 (cn_start_ns c + cn_dwell_ns c)" "at_ns < cn_start_ns c + cn_dwell_ns c"
    | "in_i64 (cn_start_ns c + cn_dwell_ns c)" "cn_start_ns c + cn_dwell_ns c \<le> at_ns" by linarith
  then show ?thesis
  proof cases
    case 1
    with Some show ?thesis by (intro error) (auto simp: r_def advance_loop.simps [of at_ns m] Let_def checked_i64_def)
  next
    case 2
    with Some show ?thesis by (intro wait) (auto simp: r_def advance_loop.simps [of at_ns m] Let_def checked_i64_def)
  next
    case 3
    with Some show ?thesis by (intro turn) (auto simp: r_def advance_loop.simps [of at_ns m] Let_def checked_i64_def)
  qed
qed

section \<open>Reachable machines\<close>

inductive phase_reach :: "phase_machine \<Rightarrow> bool" where
  created: "phase_reach phase_machine_new"
| observed: "phase_reach m \<Longrightarrow> in_i64 (me_available_at_ns e) \<Longrightarrow> phase_reach (snd (observe e m))"
| advanced: "phase_reach m \<Longrightarrow> in_i64 at_ns \<Longrightarrow> phase_reach (snd (phase_advance_to at_ns m))"

text \<open>A candidate is what the evidence asks for, since a time that has passed.\<close>

definition candidate_ok :: "phase_machine \<Rightarrow> bool" where
  "candidate_ok m \<longleftrightarrow> (\<forall>c. pm_candidate m = Some c \<longrightarrow> (\<exists>e t. pm_evidence m = Some e \<and> pm_now_ns m = Some t \<and>
     transition (pm_phase m) e = Some (cn_target c, cn_dwell_ns c) \<and> cn_start_ns c \<le> t \<and> in_i64 (cn_start_ns c)))"

definition phase_inv :: "phase_machine \<Rightarrow> bool" where
  "phase_inv m \<longleftrightarrow> candidate_ok m \<and> (pm_evidence m \<noteq> None \<longrightarrow> pm_now_ns m \<noteq> None) \<and> (\<forall>t. pm_now_ns m = Some t \<longrightarrow> in_i64 t)"

lemma refresh_inv:
  assumes "phase_inv m" and "pm_now_ns m = Some t"
  shows "phase_inv (refresh_candidate t m)"
proof (cases "pm_evidence m")
  case None
  with assms show ?thesis by (simp add: refresh_candidate_def)
next
  case (Some e)
  show ?thesis
  proof (cases "transition (pm_phase m) e")
    case None
    with Some assms show ?thesis by (simp add: refresh_candidate_def phase_inv_def candidate_ok_def)
  next
    case (Some qd)
    with \<open>pm_evidence m = Some e\<close> assms show ?thesis
      by (cases qd) (auto simp: phase_inv_def candidate_ok_def refresh_candidate_Some split: option.splits if_splits)
  qed
qed

lemma refresh_start_inv:
  assumes "phase_inv m"
  shows "phase_inv (refresh_candidate (unwrap_or (pm_now_ns m) t) m)"
proof (cases "pm_now_ns m")
  case None
  with assms have "pm_evidence m = None" by (auto simp: phase_inv_def)
  with assms show ?thesis by (simp add: refresh_candidate_def)
qed (use assms refresh_inv in simp)

definition at_most :: "i64 \<Rightarrow> phase_machine \<Rightarrow> bool" where
  "at_most at_ns m \<longleftrightarrow> (\<forall>t. pm_now_ns m = Some t \<longrightarrow> t \<le> at_ns)"

lemma advance_loop_inv:
  "phase_inv m \<Longrightarrow> at_most at_ns m \<Longrightarrow> phase_inv (snd (advance_loop at_ns m)) \<and> at_most at_ns (snd (advance_loop at_ns m))"
proof (induction at_ns m rule: advance_loop.induct)
  case (1 at_ns m)
  let ?r = "refresh_candidate (unwrap_or (pm_now_ns m) at_ns) m"
  have r: "phase_inv ?r" "at_most at_ns ?r" using "1.prems" refresh_start_inv by (auto simp: at_most_def)
  show ?case
  proof (cases rule: advance_loop_cases [of at_ns m])
    case (turn c)
    let ?n = "?r\<lparr>pm_now_ns := Some (cn_start_ns c + cn_dwell_ns c), pm_phase := cn_target c, pm_candidate := None\<rparr>"
    have "phase_inv ?n" "at_most at_ns ?n" using turn r(1) by (auto simp: phase_inv_def candidate_ok_def at_most_def)
    with turn(2,3) "1.IH" [OF refl turn(1), of "cn_start_ns c + cn_dwell_ns c"] turn(4) show ?thesis by (simp add: checked_i64_def)
  qed (use r in simp_all)
qed

lemma set_now_inv: "phase_inv m \<Longrightarrow> at_most t m \<Longrightarrow> in_i64 t \<Longrightarrow> phase_inv (m\<lparr>pm_now_ns := Some t\<rparr>)"
  by (fastforce simp: phase_inv_def candidate_ok_def at_most_def)

lemma advance_to_inv:
  assumes "phase_inv m" and "in_i64 at_ns"
  shows "phase_inv (snd (phase_advance_to at_ns m))"
proof (cases "at_most at_ns m")
  case False
  with assms(1) show ?thesis by (auto simp: phase_advance_to_def at_most_def split: option.splits)
next
  case True
  obtain r n where res: "advance_loop at_ns m = (r, n)" by fastforce
  with advance_loop_inv [OF assms(1) True] have n: "phase_inv n" "at_most at_ns n" by simp_all
  have "phase_inv (refresh_candidate at_ns (n\<lparr>pm_now_ns := Some at_ns\<rparr>))"
    by (rule refresh_inv [OF set_now_inv [OF n assms(2)]]) simp
  with n res True show ?thesis
    by (cases r) (auto simp: phase_advance_to_def at_most_def split: option.splits)
qed

lemma observe_inv:
  assumes "phase_inv m" and "in_i64 (me_available_at_ns e)"
  shows "phase_inv (snd (observe e m))"
proof -
  obtain r n where res: "phase_advance_to (me_available_at_ns e) m = (r, n)" by fastforce
  with advance_to_inv [OF assms] have n: "phase_inv n" by simp
  have now: "pm_now_ns n = Some (me_available_at_ns e)" if "r = Inr ()"
    using res that by (auto simp: phase_advance_to_def sthen_Inr_iff split: if_splits)
  let ?t = "me_available_at_ns e"
  have "phase_inv (refresh_candidate ?t (n\<lparr>pm_evidence := Some e\<rparr>))" if "pm_now_ns n = Some ?t"
  proof (cases "transition (pm_phase n) e")
    case None
    with n that show ?thesis by (simp add: refresh_candidate_def phase_inv_def candidate_ok_def)
  next
    case (Some qd)
    with n that show ?thesis
      by (cases qd) (auto simp: phase_inv_def candidate_ok_def refresh_candidate_Some split: option.splits if_splits dest: transition_dwell)
  qed
  with n res now assms(1) show ?thesis
    by (cases r) (auto simp: observe_def Let_def phase_inv_def candidate_ok_def)
qed

lemma new_inv: "phase_inv phase_machine_new"
  by (simp add: phase_machine_new_def phase_inv_def candidate_ok_def)

lemma phase_reach_inv: "phase_reach m \<Longrightarrow> phase_inv m"
  by (induction rule: phase_reach.induct) (auto intro: new_inv observe_inv advance_to_inv)

section \<open>Advancing in steps\<close>

definition finish_at :: "i64 \<Rightarrow> (phase_error + unit) \<times> phase_machine \<Rightarrow> (phase_error + unit) \<times> phase_machine" where
  "finish_at b res = sthen res (\<lambda>_ m. (Inr (), refresh_candidate b (m\<lparr>pm_now_ns := Some b\<rparr>)))"

lemma advance_to_finish:
  "phase_advance_to b m = (if at_most b m then finish_at b (advance_loop b m) else (Inl TimeRegression, m))"
  by (auto simp: phase_advance_to_def finish_at_def at_most_def split: option.splits)

lemma advance_loop_split:
  "advance_loop a m = (Inr (), m') \<Longrightarrow> a \<le> b \<Longrightarrow> pm_now_ns m \<noteq> None \<or> pm_evidence m = None \<Longrightarrow>
     finish_at b (advance_loop b (m'\<lparr>pm_now_ns := Some a\<rparr>)) = finish_at b (advance_loop b m) \<and> (\<exists>t n. m' = refresh_candidate t n)"
proof (induction a m rule: advance_loop.induct)
  case (1 a m)
  let ?r = "refresh_candidate (unwrap_or (pm_now_ns m) a) m"
  have r: "refresh_candidate (unwrap_or (pm_now_ns m) b) m = ?r"
    using "1.prems"(3) by (cases "pm_now_ns m") (auto simp: refresh_candidate_def)
  have loop: "advance_loop b m = (case pm_candidate ?r of None \<Rightarrow> (Inr (), ?r) | Some c \<Rightarrow>
      (case checked_i64 (cn_start_ns c + cn_dwell_ns c) of None \<Rightarrow> (Inl ScoreDomain, ?r) | Some deadline \<Rightarrow>
        if b < deadline then (Inr (), ?r)
        else advance_loop b (?r\<lparr>pm_now_ns := Some deadline, pm_phase := cn_target c, pm_candidate := None\<rparr>)))"
    by (simp add: advance_loop.simps [of b m] r Let_def)
  have same: "refresh_candidate s (?r\<lparr>pm_now_ns := z\<rparr>) = ?r\<lparr>pm_now_ns := z\<rparr>" for s z by (simp add: refresh_now)
  show ?case
  proof (cases rule: advance_loop_cases [of a m])
    case stop
    then have m': "m' = ?r" using "1.prems"(1) by simp
    with stop loop show ?thesis
      by (auto simp: advance_loop.simps [of b "?r\<lparr>pm_now_ns := Some a\<rparr>"] same finish_at_def)
  next
    case (error c)
    with "1.prems"(1) show ?thesis by simp
  next
    case (wait c)
    then have m': "m' = ?r" using "1.prems"(1) by simp
    with wait loop show ?thesis
      by (auto simp: advance_loop.simps [of b "?r\<lparr>pm_now_ns := Some a\<rparr>"] same finish_at_def checked_i64_def)
  next
    case (turn c)
    let ?n = "?r\<lparr>pm_now_ns := Some (cn_start_ns c + cn_dwell_ns c), pm_phase := cn_target c, pm_candidate := None\<rparr>"
    have "advance_loop b m = advance_loop b ?n" using turn(1-3) loop "1.prems"(2) by (simp add: checked_i64_def)
    with "1.IH" [OF refl turn(1), of "cn_start_ns c + cn_dwell_ns c"] turn "1.prems"(1,2) show ?thesis
      by (simp add: checked_i64_def)
  qed
qed

text \<open>
  C35: How often the machine is polled does not matter.  Advancing to one time and then to a later one gives
  the same result, phase, candidate and error included, as advancing to the later time at once.
\<close>

theorem advance_in_steps:
  assumes "phase_reach m" and "phase_advance_to a m = (Inr (), m')" and "a \<le> b"
  shows "phase_advance_to b m' = phase_advance_to b m"
proof -
  have inv: "phase_inv m" by (rule phase_reach_inv [OF assms(1)])
  then have now: "pm_now_ns m \<noteq> None \<or> pm_evidence m = None" by (auto simp: phase_inv_def)
  from assms(2) obtain n where n: "at_most a m" "advance_loop a m = (Inr (), n)" "m' = refresh_candidate a (n\<lparr>pm_now_ns := Some a\<rparr>)"
    by (auto simp: advance_to_finish finish_at_def sthen_Inr_iff split: if_splits)
  from advance_loop_split [OF n(2) assms(3) now] have split: "finish_at b (advance_loop b (n\<lparr>pm_now_ns := Some a\<rparr>)) = finish_at b (advance_loop b m)"
    and "\<exists>t k. n = refresh_candidate t k" by simp_all
  then have "m' = n\<lparr>pm_now_ns := Some a\<rparr>" using n(3) by (auto simp: refresh_now)
  moreover have "at_most b m" "at_most b (n\<lparr>pm_now_ns := Some a\<rparr>)" using n(1) assms(3) by (auto simp: at_most_def)
  ultimately show ?thesis using split by (simp add: advance_to_finish)
qed

section \<open>Invalid evidence\<close>

definition invalid_at :: "i64 \<Rightarrow> phase_machine \<Rightarrow> bool" where
  "invalid_at at_ns m \<longleftrightarrow> (\<exists>e. pm_evidence m = Some e \<and> \<not> me_valid e) \<and>
     (pm_phase m = InvalidPhase \<or> pm_candidate m = None \<and> (\<exists>t. pm_now_ns m = Some t \<and> t \<le> at_ns \<and> in_i64 t))"

lemma advance_loop_invalid: "invalid_at at_ns m \<Longrightarrow> pm_phase (snd (advance_loop at_ns m)) = InvalidPhase"
proof (induction at_ns m rule: advance_loop.induct)
  case (1 at_ns m)
  let ?r = "refresh_candidate (unwrap_or (pm_now_ns m) at_ns) m"
  obtain e where e: "pm_evidence m = Some e" "\<not> me_valid e" using "1.prems" by (auto simp: invalid_at_def)
  show ?case
  proof (cases "pm_phase m = InvalidPhase")
    case True
    show ?thesis
    proof (cases rule: advance_loop_cases [of at_ns m])
      case (turn c)
      let ?n = "?r\<lparr>pm_now_ns := Some (cn_start_ns c + cn_dwell_ns c), pm_phase := cn_target c, pm_candidate := None\<rparr>"
      have "invalid_at at_ns ?n" using turn e by (auto simp: invalid_at_def)
      with "1.IH" [OF refl turn(1), of "cn_start_ns c + cn_dwell_ns c"] turn show ?thesis by (simp add: checked_i64_def)
    qed (use True in simp_all)
  next
    case False
    then obtain t where t: "pm_candidate m = None" "pm_now_ns m = Some t" "t \<le> at_ns" "in_i64 t"
      using "1.prems" by (auto simp: invalid_at_def)
    have c: "pm_candidate ?r = Some \<lparr>cn_target = InvalidPhase, cn_start_ns = t, cn_dwell_ns = 0\<rparr>" (is "_ = Some ?c")
      using False e t by (simp add: refresh_candidate_def transition_def)
    have "invalid_at at_ns (?r\<lparr>pm_now_ns := Some t, pm_phase := InvalidPhase, pm_candidate := None\<rparr>)"
      using e by (simp add: invalid_at_def)
    with "1.IH" [OF refl c, of t] c t show ?thesis
      by (simp add: advance_loop.simps [of at_ns m] Let_def checked_i64_def)
  qed
qed

lemma advance_loop_evidence [simp]: "pm_evidence (snd (advance_loop at_ns m)) = pm_evidence m"
proof (induction at_ns m rule: advance_loop.induct)
  case (1 at_ns m)
  show ?case
  proof (cases rule: advance_loop_cases [of at_ns m])
    case (turn c)
    with "1.IH" [OF refl turn(1), of "cn_start_ns c + cn_dwell_ns c"] show ?thesis by (simp add: checked_i64_def)
  qed simp_all
qed

definition fail_closed :: "phase_machine \<Rightarrow> bool" where
  "fail_closed m \<longleftrightarrow> (\<forall>e. pm_evidence m = Some e \<longrightarrow> \<not> me_valid e \<longrightarrow> pm_phase m = InvalidPhase)"

lemma advance_to_fail_closed:
  assumes "fail_closed m"
  shows "fail_closed (snd (phase_advance_to at_ns m))"
proof -
  obtain r n where res: "advance_loop at_ns m = (r, n)" by fastforce
  have "pm_evidence n = pm_evidence m" using advance_loop_evidence [of at_ns m] res by simp
  moreover have "invalid_at at_ns m \<Longrightarrow> pm_phase n = InvalidPhase" using advance_loop_invalid [of at_ns m] res by simp
  ultimately have "fail_closed n" using assms by (auto simp: fail_closed_def invalid_at_def)
  with assms res show ?thesis by (cases r) (auto simp: advance_to_finish finish_at_def fail_closed_def)
qed

text \<open>
  C34: Evidence that is not valid fails closed.  Whatever was observed before and however far time advances, errors and
  overflowing deadlines included, a machine whose last evidence is not valid is in the invalid phase.
\<close>

theorem invalid_evidence_fails_closed:
  assumes "phase_reach m" and "pm_evidence m = Some e" and "\<not> me_valid e"
  shows "pm_phase m = InvalidPhase"
proof -
  have "phase_reach m \<Longrightarrow> fail_closed m" for m
  proof (induction rule: phase_reach.induct)
    case (observed m e)
    obtain r n where res: "phase_advance_to (me_available_at_ns e) m = (r, n)" by fastforce
    with advance_to_fail_closed [OF observed.IH, of "me_available_at_ns e"] observed.IH show ?case
      by (cases r) (auto simp: observe_def Let_def fail_closed_def)
  qed (auto simp: fail_closed_def phase_machine_new_def intro: advance_to_fail_closed [unfolded fail_closed_def, rule_format])
  with assms show ?thesis by (simp add: fail_closed_def)
qed

section \<open>Settling\<close>

lemma advance_loop_settles:
  "phase_inv m \<Longrightarrow> pm_evidence m = Some e \<Longrightarrow> me_valid e \<Longrightarrow> pm_now_ns m = Some t \<Longrightarrow> t + budget e (pm_phase m) \<le> at_ns \<Longrightarrow>
     in_i64 at_ns \<Longrightarrow> \<exists>m'. advance_loop at_ns m = (Inr (), m') \<and> transition (pm_phase m') e = None"
proof (induction at_ns m arbitrary: t rule: advance_loop.induct)
  case (1 at_ns m)
  let ?r = "refresh_candidate (unwrap_or (pm_now_ns m) at_ns) m"
  have r: "phase_inv ?r" using refresh_start_inv [OF "1.prems"(1)] .
  show ?case
  proof (cases "transition (pm_phase m) e")
    case None
    then have "pm_candidate ?r = None" using "1.prems"(2) by (simp add: refresh_candidate_None)
    with None show ?thesis by (simp add: advance_loop.simps [of at_ns m] Let_def)
  next
    case (Some qd)
    then have "pm_candidate ?r \<noteq> None" using "1.prems"(2) by (simp add: refresh_candidate_None)
    then obtain c where c: "pm_candidate ?r = Some c" by blast
    with r "1.prems"(2,4) have c': "transition (pm_phase m) e = Some (cn_target c, cn_dwell_ns c)" "cn_start_ns c \<le> t" "in_i64 (cn_start_ns c)"
      by (auto simp: phase_inv_def candidate_ok_def)
    let ?d = "cn_start_ns c + cn_dwell_ns c"
    have d: "0 < cn_dwell_ns c" "cn_dwell_ns c + budget e (cn_target c) \<le> budget e (pm_phase m)"
      using transition_budget [OF "1.prems"(3) c'(1)] by simp_all
    with c' "1.prems"(5,6) budget_bounds [of e "cn_target c"] have le: "?d \<le> at_ns" "in_i64 ?d" "?d + budget e (cn_target c) \<le> at_ns"
      by (auto simp: in_i64_def)
    let ?n = "?r\<lparr>pm_now_ns := Some ?d, pm_phase := cn_target c, pm_candidate := None\<rparr>"
    have "phase_inv ?n" using r le(2) by (auto simp: phase_inv_def candidate_ok_def)
    with "1.IH" [OF refl c, of ?d ?d] le "1.prems"(2,3,6) c show ?thesis
      by (simp add: advance_loop.simps [of at_ns m] Let_def checked_i64_def)
  qed
qed

lemma settled_stays:
  assumes "pm_evidence m = Some e" and "transition (pm_phase m) e = None" and "at_most b m"
  shows "\<exists>m'. phase_advance_to b m = (Inr (), m') \<and> pm_phase m' = pm_phase m"
proof -
  have "pm_candidate (refresh_candidate t m) = None" for t using assms by (simp add: refresh_candidate_None)
  with assms(3) show ?thesis by (simp add: advance_to_finish finish_at_def advance_loop.simps [of b m] Let_def)
qed

text \<open>
  C36: The phase settles.  Five seconds after the last observation, if it is valid, no transition is pending any more: every
  later time gives the same phase.
\<close>

theorem phase_settles:
  assumes "phase_reach m" and "pm_evidence m = Some e" and "me_valid e" and "pm_now_ns m = Some t"
    and "t + 5000000000 \<le> a" and "a \<le> b" and "in_i64 b"
  shows "\<exists>m1 m2. phase_advance_to a m = (Inr (), m1) \<and> phase_advance_to b m = (Inr (), m2) \<and> pm_phase m2 = pm_phase m1 \<and>
    transition (pm_phase m1) e = None"
proof -
  have inv: "phase_inv m" by (rule phase_reach_inv [OF assms(1)])
  have t: "in_i64 t" using inv assms(4) by (simp add: phase_inv_def)
  then have a: "in_i64 a" using assms(5-7) by (simp add: in_i64_def)
  have "t + budget e (pm_phase m) \<le> a" using budget_bounds [of e "pm_phase m"] assms(5) by simp
  from advance_loop_settles [OF inv assms(2-4) this a] obtain n where n: "advance_loop a m = (Inr (), n)" "transition (pm_phase n) e = None"
    by blast
  have am: "at_most a m" using assms(4,5) by (simp add: at_most_def)
  let ?m1 = "refresh_candidate a (n\<lparr>pm_now_ns := Some a\<rparr>)"
  have m1: "phase_advance_to a m = (Inr (), ?m1)" using n am by (simp add: advance_to_finish finish_at_def)
  have "pm_evidence ?m1 = Some e" using advance_loop_evidence [of a m] n(1) assms(2) by simp
  then obtain m2 where m2: "phase_advance_to b ?m1 = (Inr (), m2)" "pm_phase m2 = pm_phase ?m1"
    using settled_stays [of ?m1 e b] n(2) assms(6) by (auto simp: at_most_def)
  have now: "pm_now_ns m \<noteq> None \<or> pm_evidence m = None" using assms(4) by simp
  have "phase_advance_to b m = phase_advance_to b ?m1"
    using advance_loop_split [OF n(1) assms(6) now] am assms(6) by (auto simp: advance_to_finish refresh_now at_most_def)
  with m1 m2 n(2) show ?thesis by simp
qed

lemma advance_loop_budget:
  "pm_evidence m = Some e \<Longrightarrow> me_valid e \<Longrightarrow> phase_inv m \<Longrightarrow> budget e (pm_phase (snd (advance_loop at_ns m))) \<le> budget e (pm_phase m)"
proof (induction at_ns m rule: advance_loop.induct)
  case (1 at_ns m)
  let ?r = "refresh_candidate (unwrap_or (pm_now_ns m) at_ns) m"
  have r: "phase_inv ?r" using refresh_start_inv [OF "1.prems"(3)] .
  show ?case
  proof (cases rule: advance_loop_cases [of at_ns m])
    case (turn c)
    have "transition (pm_phase m) e = Some (cn_target c, cn_dwell_ns c)" using r turn(1) "1.prems"(1) by (auto simp: phase_inv_def candidate_ok_def)
    from transition_budget [OF "1.prems"(2) this] have "budget e (cn_target c) \<le> budget e (pm_phase m)" by simp
    moreover have "phase_inv (?r\<lparr>pm_now_ns := Some (cn_start_ns c + cn_dwell_ns c), pm_phase := cn_target c, pm_candidate := None\<rparr>)"
      using r turn(3) by (auto simp: phase_inv_def candidate_ok_def)
    ultimately show ?thesis
      using "1.IH" [OF refl turn(1), of "cn_start_ns c + cn_dwell_ns c"] "1.prems"(1,2) turn by (simp add: checked_i64_def)
  qed simp_all
qed

text \<open>
  Dwell times are exact.  Under valid evidence a phase with a pending transition is left at the nanosecond its dwell
  ends, not earlier, and is not entered again without a new observation.
\<close>

theorem dwell_exact:
  assumes "phase_reach m" and "pm_evidence m = Some e" and "me_valid e" and "pm_candidate m = Some c"
    and "phase_advance_to a m = (Inr (), m')"
  shows "pm_phase m' = pm_phase m \<longleftrightarrow> a < cn_start_ns c + cn_dwell_ns c"
proof -
  have inv: "phase_inv m" by (rule phase_reach_inv [OF assms(1)])
  then obtain t where c: "transition (pm_phase m) e = Some (cn_target c, cn_dwell_ns c)" "pm_now_ns m = Some t"
    using assms(2,4) by (auto simp: phase_inv_def candidate_ok_def)
  have r: "refresh_candidate t m = m" using assms(2,4) c by (simp add: refresh_candidate_def)
  obtain n where n: "advance_loop a m = (Inr (), n)" "pm_phase m' = pm_phase n"
    using assms(5) by (auto simp: advance_to_finish finish_at_def sthen_Inr_iff split: if_splits)
  show ?thesis
  proof (cases rule: advance_loop_cases [of a m])
    case (turn d)
    let ?m = "m\<lparr>pm_now_ns := Some (cn_start_ns c + cn_dwell_ns c), pm_phase := cn_target c, pm_candidate := None\<rparr>"
    have d: "d = c" using turn(1) r c(2) assms(4) by simp
    have "phase_inv ?m" using inv turn(3) d by (auto simp: phase_inv_def candidate_ok_def)
    moreover have "advance_loop a ?m = (Inr (), n)" using turn(4) d r c(2) n(1) by simp
    ultimately have "budget e (pm_phase n) \<le> budget e (cn_target c)"
      using advance_loop_budget [of ?m e a] assms(2,3) by simp
    with transition_budget [OF assms(3) c(1)] have "pm_phase n \<noteq> pm_phase m" by auto
    with turn(2) d n(2) show ?thesis by simp
  qed (use r c(2) assms(4) n in auto)
qed

section \<open>Samples\<close>

definition sample_evidence :: "bool \<Rightarrow> mechanics_evidence" where
  "sample_evidence valid =
     \<lparr>me_available_at_ns = 0, me_direction = UpDirection,
      me_families = \<lparr>ff_price = True, ff_flow = True, ff_book = True, ff_derivatives = True, ff_breadth = True\<rparr>,
      me_intensity = 100000000, me_confidence = 80000000, me_reversal_risk = 0, me_valid = valid, me_fully_warmed = True,
      me_spread_bps = 0\<rparr>"

definition sample_machine :: "phase \<Rightarrow> phase_candidate option \<Rightarrow> i64 \<Rightarrow> phase_machine" where
  "sample_machine p c now =
     \<lparr>pm_phase = p, pm_evidence = Some (sample_evidence True), pm_candidate = c, pm_now_ns = Some now\<rparr>"

definition igniting :: "phase_candidate option" where
  "igniting = Some \<lparr>cn_target = Ignition, cn_start_ns = 0, cn_dwell_ns = 100000000\<rparr>"

lemma sample_observed: "observe (sample_evidence True) phase_machine_new = (Inr (), sample_machine NormalPhase igniting 0)"
  by code_simp

lemma sample_ignites:
  "phase_advance_to 99999999 (sample_machine NormalPhase igniting 0) = (Inr (), sample_machine NormalPhase igniting 99999999)"
  "phase_advance_to 100000000 (sample_machine NormalPhase igniting 0) =
     (Inr (), sample_machine Ignition (Some \<lparr>cn_target = Cascade, cn_start_ns = 100000000, cn_dwell_ns = 250000000\<rparr>) 100000000)"
  "phase_advance_to 6000000000 (sample_machine NormalPhase igniting 0) = (Inr (), sample_machine Cascade None 6000000000)"
  by code_simp+

lemma sample_machine_reach: "phase_reach (sample_machine NormalPhase igniting 0)"
  using phase_reach.observed [OF phase_reach.created, of "sample_evidence True"] sample_observed
  by (simp add: sample_evidence_def in_i64_def)

theorem advance_in_steps_witness:
  "phase_advance_to 6000000000 (sample_machine Ignition (Some \<lparr>cn_target = Cascade, cn_start_ns = 100000000, cn_dwell_ns = 250000000\<rparr>) 100000000) =
     (Inr (), sample_machine Cascade None 6000000000)"
  using advance_in_steps [OF sample_machine_reach sample_ignites(2), of 6000000000] sample_ignites(3) by simp

theorem dwell_exact_witness:
  "phase_advance_to 99999999 (sample_machine NormalPhase igniting 0) = (Inr (), sample_machine NormalPhase igniting 99999999) \<and>
   (pm_phase (sample_machine NormalPhase igniting 99999999) = NormalPhase \<longleftrightarrow> (99999999 :: int) < 0 + 100000000)"
  using dwell_exact [OF sample_machine_reach _ _ _ sample_ignites(1)] sample_ignites(1)
  by (simp add: sample_machine_def igniting_def sample_evidence_def)

theorem phase_settles_witness:
  "\<exists>m1 m2. phase_advance_to 6000000000 (sample_machine NormalPhase igniting 0) = (Inr (), m1) \<and>
     phase_advance_to 7000000000 (sample_machine NormalPhase igniting 0) = (Inr (), m2) \<and> pm_phase m2 = pm_phase m1 \<and>
     transition (pm_phase m1) (sample_evidence True) = None"
  by (rule phase_settles [OF sample_machine_reach, where t = 0]) (simp_all add: sample_machine_def sample_evidence_def in_i64_def)

theorem invalid_evidence_fails_closed_witness:
  "pm_phase (snd (phase_advance_to 3000000000 (snd (observe (sample_evidence False) phase_machine_new)))) = InvalidPhase"
proof -
  let ?m = "snd (phase_advance_to 3000000000 (snd (observe (sample_evidence False) phase_machine_new)))"
  have "phase_reach ?m"
    by (intro phase_reach.intros) (simp_all add: sample_evidence_def in_i64_def)
  moreover have "pm_evidence ?m = Some (sample_evidence False)" by code_simp
  ultimately show ?thesis by (rule invalid_evidence_fails_closed) (simp add: sample_evidence_def)
qed

end
