(* ===== verification/Spec2Isabelle.thy ===== *)
theory Spec2Isabelle
  imports Sync Dispatch Profile Levels Pipeline Windows Mechanics
begin

text \<open>
  Verification library of a market-data engine.  Venue adapters turn messages into canonical events; the
  engine keeps an order book per instrument, fans events out through bounded queues, derives analytics from trades, records the
  raw traffic and computes event-pulse features.  The library models the deterministic core
  of these parts and proves what each promises.  Paths below are relative to \<^verbatim>\<open>src/crates\<close>.

  \<^bold>\<open>Conventions.\<close>  A Rust \<^verbatim>\<open>Result\<close> is a sum with the error on the left, an operation on \<^verbatim>\<open>&mut self\<close> is a function from a
  state to its result and the state it leaves, on errors too.  Signed integers are \<^typ>\<open>int\<close> with the bounds of every
  checked operation written out, unsigned ones with checked arithmetic are \<^typ>\<open>nat\<close>, wrapping \<^verbatim>\<open>u64\<close> are \<^typ>\<open>64 word\<close>, bytes
  are \<^typ>\<open>8 word\<close>.  A \<^verbatim>\<open>BTreeMap\<close> is the list of its entries in key order.  Clocks, free disk space, file
  creation and JSON encoding are parameters.

  \<^bold>\<open>Foundations.\<close>
    \<^item> \<open>Prelude\<close>: result combinators, checked integers, list lemmas, decimal printing.
    \<^item> \<open>Ordered_Map\<close>: ordered maps; the interfaces \<open>ordered_map\<close> and \<open>keyed_store\<close>, the latter with journalled
      mutation and roll-back, interpreted on the sides of an order book.
    \<^item> \<open>Compare\<close>: comparison-based sorting; the interface \<open>total_compare\<close>.  \<open>Bytes\<close>: little-endian integers.

  \<^bold>\<open>Model and books.\<close>
    \<^item> \<open>Fixed\<close> (\<^verbatim>\<open>model/src/fixed.rs\<close>): \<^verbatim>\<open>rescale\<close> is exact decimal rounding, the parsers accept exactly their grammar.
    \<^item> \<open>Model\<close> (the other files of \<^verbatim>\<open>model/src\<close>): identifiers, events, flags, instruments.
    \<^item> \<open>Book\<close> (\<^verbatim>\<open>book/src/l2.rs\<close>): reachable books are ordered, positive, bounded and uncrossed; the in-place batch with its
      undo journal equals building a candidate and committing it; snapshots and published levels are exact.
    \<^item> \<open>Sync\<close> (\<^verbatim>\<open>book/src/sync.rs\<close>): buffering, snapshot replay and live deltas as a transition system.  The replay applies the
      gap-free continuation, live errors fail closed, only a snapshot validates; a replay that stops in the
      middle leaves a book that still answers.

  \<^bold>\<open>Queues.\<close>
    \<^item> \<open>Adapter_Api\<close> (\<^verbatim>\<open>adapter-api/src/session.rs\<close>): actions and their bounded buffer; the interface \<open>drop_newest_sink\<close>.
    \<^item> \<open>Dispatch\<close> (\<^verbatim>\<open>dispatch/src/queue.rs\<close>): order, capacity and conservation under every policy; the busy wait
      returns when the clock reaches the deadline.

  \<^bold>\<open>Analytics\<close> (\<^verbatim>\<open>analytics/src\<close>).
    \<^item> \<open>Grid\<close> (\<^verbatim>\<open>error.rs\<close>, \<^verbatim>\<open>grid.rs\<close>, \<^verbatim>\<open>config.rs\<close>): exact ticks, buckets and periods.
    \<^item> \<open>Flow\<close> (\<^verbatim>\<open>flow.rs\<close>): counters are the sums over the accepted trades; errors change nothing; published candles balance.
    \<^item> \<open>Profile\<close> (\<^verbatim>\<open>profile.rs\<close>): exact volumes and period counts; point of control and value area are
      optimal and reach their share.
    \<^item> \<open>Bubbles\<close> (\<^verbatim>\<open>bubbles.rs\<close>): cached detection equals a reference, strict tier priority, merging conserves.
    \<^item> \<open>Levels\<close> (\<^verbatim>\<open>levels.rs\<close>): every level is explained by the candles accepted, within the configured bounds.

  \<^bold>\<open>Recording\<close> (\<^verbatim>\<open>recording/src\<close>).
    \<^item> \<open>Crc32c\<close> (\<^verbatim>\<open>crc32c.rs\<close>): the table-driven checksum is the bitwise one and detects short bursts.
    \<^item> \<open>Recording\<close> (\<^verbatim>\<open>format.rs\<close>, \<^verbatim>\<open>writer.rs\<close>, \<^verbatim>\<open>reader.rs\<close>): a segment cut anywhere reads back as its complete records;
      damaged payloads are refused; a record repeated after a partial write ruins its segment.
    \<^item> \<open>Pipeline\<close> (\<^verbatim>\<open>queue.rs\<close>, \<^verbatim>\<open>metadata.rs\<close>, \<^verbatim>\<open>pipeline.rs\<close>): accepted frames are on disk or waiting, in order, after
      any failures; the shutdown drain returns and, on a working disk, completes.

  \<^bold>\<open>Event pulse\<close> (\<^verbatim>\<open>event-pulse/src\<close>).
    \<^item> \<open>Windows\<close> (\<^verbatim>\<open>window.rs\<close>): exact coverage, exact accounting, overflow confined to its source.
    \<^item> \<open>Features\<close> (\<^verbatim>\<open>features.rs\<close>): exact rounding and printing, a projected book that fails closed, complete validated envelopes.
    \<^item> \<open>Mechanics\<close> (\<^verbatim>\<open>mechanics.rs\<close>): the phase machine does not depend on how often it is polled, fails closed and settles.

  \<^bold>\<open>Bounds and termination.\<close>  No definition uses fuel.  Loops that are not structural have termination proofs: depth trimming and
  draining by the length of what is left, the value area by the buckets outside it, merging by the bubbles left, the reader
  by the bytes left, the drains by the frames waiting, the phase machine by the dwell time its evidence can still spend.  The
  one loop that may run forever, the busy wait of \<open>Dispatch\<close>, is a partial function with a theorem that it returns.

  \<^bold>\<open>Not modelled.\<close>  The venue adapters decode JSON through serde; the engine, daemon, transport, sinks and
  private streams are asynchronous tasks over sockets, files and timers; the wire formats and snapshots of event pulse are
  canonical JSON and SHA-256; scripts, schemas and the user interface are outside the language.  Within the modelled files
  the following are left out: floating-point conversion, serde derives, string labels, locks (each call runs
  alone), buffering of writes (bytes count as taken) and the probing of directories and free space.
\<close>

section \<open>Text and numbers across components\<close>

text \<open>
  C40: Feature values survive their text.  What \<^verbatim>\<open>canonical_decimal\<close> prints is read by \<^verbatim>\<open>Fixed::parse_decimal\<close> and
  rescaled by the features to the same value.
\<close>

theorem feature_text_round_trip:
  assumes "\<bar>v\<bar> < 2 ^ 127"
  shows "\<exists>f. parse_decimal (canonical_decimal v) = Inr f \<and> feature_rescale f = Inr v"
proof -
  obtain f where f: "parse_decimal (canonical_decimal v) = Inr f" "fixed_value f = of_int v / 10 ^ 8" "scale f \<le> 8"
    using canonical_decimal_round_trip [OF assms] by blast
  have v: "fixed_value f * 10 ^ 8 = of_int v" "in_i128 v" using f(2) assms by (auto simp: in_i128_def)
  have "in_i128 (coefficient f)" using parse_decimal_ok [OF f(1)] by (simp add: fixed_ok_def)
  have "map_ok coefficient (rescale f 8 HalfAwayFromZero) = Inr v"
  proof (cases "scale f = 8")
    case True
    with v(1) have "coefficient f = v" by (simp add: fixed_value_def)
    with True rescale_result [OF \<open>in_i128 (coefficient f)\<close>] show ?thesis by simp
  next
    case False
    then show ?thesis
      unfolding rescale_result [OF \<open>in_i128 (coefficient f)\<close>] v(1) round_result_def round_spec_of_int using f(3) v(2) by simp
  qed
  with f(1) show ?thesis by (simp add: feature_rescale_def)
qed

theorem feature_text_round_trip_witness:
  "\<exists>f. parse_decimal (canonical_decimal (- 150000000)) = Inr f \<and> feature_rescale f = Inr (- 150000000)"
  by (rule feature_text_round_trip) simp

end
